theory Spec2Isabelle
  imports Main "HOL-Library.Word" "HOL-Library.Tree"
begin

unbundle bit_operations_syntax

section \<open>Prefixes\<close>

text \<open>
  A \<^verbatim>\<open>struct prefix\<close> carries a family tag, a length in bits (a \<^verbatim>\<open>u_char\<close>)
  and the address bytes in network order.  The declaration lives in \<^verbatim>\<open>prefix.h\<close>;
  the address union is taken to be 16 bytes wide (an IPv6 address), so a prefix is valid
  when its length is at most 128 and it carries 16 bytes.  The length is a natural number
  here: the only arithmetic the table performs on it is \<^verbatim>\<open>i * 8\<close> and \<^verbatim>\<open>++\<close>
  below the length of another prefix, which never leaves the range of a \<^verbatim>\<open>u_char\<close>.
\<close>

type_synonym u_char = "8 word"

record prefix =
  family :: u_char
  prefixlen :: nat
  u_prefix :: "u_char list"

definition valid_prefix :: "prefix \<Rightarrow> bool" where
  "valid_prefix q = (prefixlen q \<le> 128 \<and> length (u_prefix q) = 16)"

text \<open>
  Reading byte \<open>i\<close> through a \<^verbatim>\<open>u_char *\<close>.  Inside the union this is the stored byte.
  The table reads one byte past a 16 byte address only for a prefix of length 128; that
  read yields 0 in this model.
\<close>

definition byte_at :: "u_char list \<Rightarrow> nat \<Rightarrow> u_char" where
  "byte_at bs i = (if i < length bs then bs ! i else 0)"

text \<open>
  Modelled from the spec: \<^verbatim>\<open>prefix_bit\<close> of \<^verbatim>\<open>prefix.h\<close> is missing.  The spec says
  \<^verbatim>\<open>bit_at(prefix, n)\<close> returns bit \<open>n\<close> counted from the most significant bit
  (bit 0 is the top bit of byte 0).  The result indexes \<^verbatim>\<open>link[]\<close>: \<open>False\<close> is 0.
\<close>

definition prefix_bit :: "u_char list \<Rightarrow> nat \<Rightarrow> bool" where
  "prefix_bit bs n = bit (byte_at bs (n div 8)) (7 - n mod 8)"

text \<open>
  Modelled from the spec: \<^verbatim>\<open>prefix_match\<close> of \<^verbatim>\<open>prefix.h\<close> is missing.  The spec says
  \<open>p\<close> covers \<open>q\<close> iff \<open>p.length \<le> q.length\<close> and the first \<open>p.length\<close> bits of both agree.
\<close>

definition prefix_match :: "prefix \<Rightarrow> prefix \<Rightarrow> bool" where
  "prefix_match n q =
     (prefixlen n \<le> prefixlen q \<and>
      list_all (\<lambda>i. prefix_bit (u_prefix n) i = prefix_bit (u_prefix q) i) [0..<prefixlen n])"

text \<open>
  Modelled from the spec: \<^verbatim>\<open>prefix_check\<close> of \<^verbatim>\<open>prefix.h\<close> is missing.  The spec calls
  a prefix canonical when the bits beyond its length are zero.
\<close>

definition prefix_check :: "prefix \<Rightarrow> bool" where
  "prefix_check q = list_all (\<lambda>i. \<not> prefix_bit (u_prefix q) i) [prefixlen q..<8 * length (u_prefix q)]"

subsection \<open>\<^verbatim>\<open>route_common\<close>\<close>

definition maskbit :: "u_char list" where
  "maskbit = [0x00, 0x80, 0xc0, 0xe0, 0xf0, 0xf8, 0xfc, 0xfe, 0xff]"

text \<open>The \<^verbatim>\<open>for\<close> loop: copy whole bytes while they agree, up to \<^verbatim>\<open>p->prefixlen / 8\<close>.\<close>

function common_bytes ::
  "u_char list \<Rightarrow> u_char list \<Rightarrow> nat \<Rightarrow> nat \<Rightarrow> u_char list \<Rightarrow> nat \<times> u_char list" where
  "common_bytes np pp plen i newp =
     (if i < plen div 8
      then (if byte_at np i = byte_at pp i
            then common_bytes np pp plen (i + 1) (newp[i := byte_at np i])
            else (i, newp))
      else (i, newp))"
  by pat_completeness auto
termination
  by (relation "measure (\<lambda>(np, pp, plen, i, newp). plen div 8 - i)") auto

text \<open>The \<^verbatim>\<open>while\<close> loop: advance the length bit by bit while the mask misses \<^verbatim>\<open>diff\<close>.\<close>

function common_bits :: "u_char \<Rightarrow> nat \<Rightarrow> u_char \<Rightarrow> nat \<Rightarrow> nat" where
  "common_bits diff plen msk len =
     (if len < plen \<and> msk AND diff = 0
      then common_bits diff plen (drop_bit 1 msk) (len + 1)
      else len)"
  by pat_completeness auto
termination
  by (relation "measure (\<lambda>(diff, plen, msk, len). plen - len)") auto

definition route_common :: "prefix \<Rightarrow> prefix \<Rightarrow> prefix \<Rightarrow> prefix" where
  "route_common n q new =
     (case common_bytes (u_prefix n) (u_prefix q) (prefixlen q) 0 (u_prefix new) of
        (i, newp) \<Rightarrow>
          if i * 8 \<noteq> prefixlen q
          then let diff = byte_at (u_prefix n) i XOR byte_at (u_prefix q) i;
                   len = common_bits diff (prefixlen q) 0x80 (i * 8)
               in new\<lparr>prefixlen := len,
                      u_prefix := newp[i := byte_at (u_prefix n) i AND maskbit ! (len mod 8)]\<rparr>
          else new\<lparr>prefixlen := i * 8, u_prefix := newp\<rparr>)"

text \<open>The prefix of a node fresh from \<^verbatim>\<open>bgp_node_calloc\<close>: all zero.\<close>

definition zero_prefix :: prefix where
  "zero_prefix = \<lparr>family = 0, prefixlen = 0, u_prefix = replicate 16 0\<rparr>"

section \<open>Nodes, the table and the node pool\<close>

text \<open>
  The declarations of \<^verbatim>\<open>struct bgp_node\<close> and \<^verbatim>\<open>struct bgp_table\<close> are in
  \<^verbatim>\<open>bgp_table.h\<close>, which is missing; the fields are those \<^verbatim>\<open>bgp_table.c\<close> uses.
  Pointers are optional addresses (\<open>None\<close> is \<^verbatim>\<open>NULL\<close>), the memory of nodes is a
  partial map from addresses to node records, and \<^verbatim>\<open>link[0]\<close>, \<^verbatim>\<open>link[1]\<close> are
  \<^verbatim>\<open>l_left\<close>, \<^verbatim>\<open>l_right\<close>.  The opaque pointers \<^verbatim>\<open>u.info\<close>, \<^verbatim>\<open>adj_outs\<close> and
  \<^verbatim>\<open>adj_ins\<close> are optional numbers.  Reference counts are mathematical integers.
\<close>

type_synonym addr = nat

record bgp_node =
  pfx :: prefix
  parent :: "addr option"
  l_left :: "addr option"
  l_right :: "addr option"
  lock :: int
  info :: "nat option"
  adj_outs :: "nat option"
  adj_ins :: "nat option"
  prn :: "addr option"
  on_wq :: bool

definition zero_node :: bgp_node where
  "zero_node = \<lparr>pfx = zero_prefix, parent = None, l_left = None, l_right = None, lock = 0,
     info = None, adj_outs = None, adj_ins = None, prn = None, on_wq = False\<rparr>"

definition link :: "bgp_node \<Rightarrow> bool \<Rightarrow> addr option" where
  "link n b = (if b then l_right n else l_left n)"

definition link_update :: "bool \<Rightarrow> addr option \<Rightarrow> bgp_node \<Rightarrow> bgp_node" where
  "link_update b v n = (if b then n\<lparr>l_right := v\<rparr> else n\<lparr>l_left := v\<rparr>)"

text \<open>
  One table and the process-wide pool make up the state.  The fields of the table carry
  the prefix \<open>t_\<close>; \<open>t_count\<close> is an \<^verbatim>\<open>unsigned long\<close>.  \<open>t_mpls_vpn\<close> says whether
  \<^verbatim>\<open>table->safi == SAFI_MPLS_VPN\<close> and \<open>qdebug\<close> is the build's debug switch, which turns
  \<^verbatim>\<open>qassert\<close> on; \<open>t_freed\<close> records that the table record was released.  The free list
  \<^verbatim>\<open>rn_frees\<close>, threaded through \<^verbatim>\<open>wq_next\<close> in the source, is the list of its
  addresses; pools are carved from fresh addresses starting at \<open>rn_next\<close>.  A freed node
  keeps its contents until it is handed out again.  \<open>peer_lock\<close> counts the locks of the
  peers, which \<^verbatim>\<open>bgp_peer_unlock\<close> (external) decrements.
\<close>

record bgp_state =
  heap :: "addr \<Rightarrow> bgp_node option"
  t_top :: "addr option"
  t_count :: "64 word"
  t_lock :: int
  t_owner :: "nat option"
  t_mpls_vpn :: bool
  t_freed :: bool
  peer_lock :: "nat \<Rightarrow> int"
  rn_frees :: "addr list"
  rn_next :: addr
  qdebug :: bool

text \<open>
  A call either returns, or stops the process (a failed assertion, or a pointer that is
  not a node), or never returns: \<open>Some (Inr v)\<close>, \<open>Some (Inl e)\<close> and \<open>None\<close>.
\<close>

datatype abort = AssertFailed | BadPointer

definition rn_pool_size :: nat where
  "rn_pool_size = 1024"

definition node_upd :: "(bgp_node \<Rightarrow> bgp_node) \<Rightarrow> addr \<Rightarrow> bgp_state \<Rightarrow> bgp_state" where
  "node_upd f a s = (case heap s a of None \<Rightarrow> s | Some n \<Rightarrow> s\<lparr>heap := (heap s)(a \<mapsto> f n)\<rparr>)"

definition valid_ptr :: "bgp_state \<Rightarrow> addr option \<Rightarrow> bool" where
  "valid_ptr s x = (case x of None \<Rightarrow> True | Some a \<Rightarrow> heap s a \<noteq> None)"

definition bgp_table_init :: "bool \<Rightarrow> bool \<Rightarrow> bgp_state" where
  "bgp_table_init vpn dbg = \<lparr>heap = Map.empty, t_top = None, t_count = 0, t_lock = 1,
     t_owner = None, t_mpls_vpn = vpn, t_freed = False, peer_lock = (\<lambda>_. 0), rn_frees = [],
     rn_next = 0, qdebug = dbg\<rparr>"

definition bgp_table_lock :: "bgp_state \<Rightarrow> bgp_state" where
  "bgp_table_lock s = s\<lparr>t_lock := t_lock s + 1\<rparr>"

text \<open>
  \<^verbatim>\<open>bgp_node_calloc\<close>: take the head of the free list; when the list is empty, carve a
  pool of \<open>rn_pool_size\<close> zeroed records, push them all (the last one ends up at the
  head) and take the head.  The record handed out is zeroed.
\<close>

definition bgp_node_calloc :: "bgp_state \<Rightarrow> addr \<times> bgp_state" where
  "bgp_node_calloc s =
     (case rn_frees s of
        [] \<Rightarrow>
          let base = rn_next s
          in (base + (rn_pool_size - 1),
              s\<lparr>heap := (\<lambda>x. if base \<le> x \<and> x < base + rn_pool_size then Some zero_node
                              else heap s x),
                rn_frees := rev [base..<base + (rn_pool_size - 1)],
                rn_next := base + rn_pool_size\<rparr>)
      | a # fs \<Rightarrow> (a, s\<lparr>heap := (heap s)(a \<mapsto> zero_node), rn_frees := fs\<rparr>))"

definition bgp_node_free :: "addr \<Rightarrow> bgp_state \<Rightarrow> bgp_state" where
  "bgp_node_free a s = s\<lparr>rn_frees := a # rn_frees s\<rparr>"

text \<open>
  Modelled from the spec: \<^verbatim>\<open>prefix_copy\<close> of \<^verbatim>\<open>prefix.h\<close> is missing; it copies the
  prefix value.
\<close>

definition bgp_node_set :: "bgp_state \<Rightarrow> prefix \<Rightarrow> addr \<times> bgp_state" where
  "bgp_node_set s q =
     (case bgp_node_calloc s of (a, s1) \<Rightarrow> (a, node_upd (\<lambda>n. n\<lparr>pfx := q\<rparr>) a s1))"

definition set_link :: "addr \<Rightarrow> addr \<Rightarrow> bgp_state \<Rightarrow> abort + bgp_state" where
  "set_link node new s =
     (case heap s node of
        None \<Rightarrow> Inl BadPointer
      | Some n \<Rightarrow>
         (case heap s new of
            None \<Rightarrow> Inl BadPointer
          | Some m \<Rightarrow>
              let bit = prefix_bit (u_prefix (pfx m)) (prefixlen (pfx n))
              in Inr (node_upd (\<lambda>x. x\<lparr>parent := Some node\<rparr>) new
                       (node_upd (link_update bit (Some new)) node s))))"

definition bgp_lock_node :: "bgp_state \<Rightarrow> addr \<Rightarrow> abort + bgp_state" where
  "bgp_lock_node s a =
     (if heap s a = None then Inl BadPointer
      else Inr (node_upd (\<lambda>n. n\<lparr>lock := lock n + 1\<rparr>) a s))"

subsection \<open>Deleting a node\<close>

text \<open>
  The middle of \<^verbatim>\<open>bgp_node_delete\<close>, for a node \<open>a\<close> with contents \<open>n\<close> that has at most
  one child: \<^verbatim>\<open>child\<close> is the left link if there is one and the right link otherwise; the
  child is pointed at the parent, the parent's link to \<open>a\<close> (the left one if it is \<open>a\<close>, the
  right one otherwise) or \<^verbatim>\<open>top\<close> is pointed at the child, \<^verbatim>\<open>count\<close> is decremented and
  the record goes onto the free list.
\<close>

definition sole_child :: "bgp_node \<Rightarrow> addr option" where
  "sole_child n = (if l_left n \<noteq> None then l_left n else l_right n)"

definition unlink :: "bgp_state \<Rightarrow> addr \<Rightarrow> bgp_node \<Rightarrow> bgp_state" where
  "unlink s a n =
     (let child = sole_child n;
          par = parent n;
          s1 = (case child of None \<Rightarrow> s
                | Some c \<Rightarrow> node_upd (\<lambda>x. x\<lparr>parent := par\<rparr>) c s);
          s2 = (case par of
                  Some pa \<Rightarrow>
                    node_upd (\<lambda>x. if l_left x = Some a then x\<lparr>l_left := child\<rparr>
                                  else x\<lparr>l_right := child\<rparr>) pa s1
                | None \<Rightarrow> s1\<lparr>t_top := child\<rparr>)
      in bgp_node_free a (s2\<lparr>t_count := t_count s2 - 1\<rparr>))"

partial_function (option) bgp_node_delete :: "bgp_state \<Rightarrow> addr \<Rightarrow> (abort + bgp_state) option" where
  "bgp_node_delete s a =
     (case heap s a of
        None \<Rightarrow> Some (Inl BadPointer)
      | Some n \<Rightarrow>
          if lock n \<noteq> 0 \<or> info n \<noteq> None \<or> on_wq n then Some (Inl AssertFailed)
          else if l_left n \<noteq> None \<and> l_right n \<noteq> None then Some (Inr s)
          else if \<not> valid_ptr s (sole_child n) \<or> \<not> valid_ptr s (parent n)
          then Some (Inl BadPointer)
          else
            let s3 = unlink s a n
            in (case parent n of
                  None \<Rightarrow> Some (Inr s3)
                | Some pa \<Rightarrow>
                   (case heap s3 pa of
                      None \<Rightarrow> Some (Inl BadPointer)
                    | Some pn \<Rightarrow>
                        if lock pn = 0 then bgp_node_delete s3 pa else Some (Inr s3))))"

definition bgp_unlock_node :: "bgp_state \<Rightarrow> addr \<Rightarrow> (abort + bgp_state) option" where
  "bgp_unlock_node s a =
     (case heap s a of
        None \<Rightarrow> Some (Inl BadPointer)
      | Some n \<Rightarrow>
          if \<not> lock n > 0 then Some (Inl AssertFailed)
          else
            let s1 = node_upd (\<lambda>x. x\<lparr>lock := lock x - 1\<rparr>) a s
            in if lock n - 1 = 0 then bgp_node_delete s1 a else Some (Inr s1))"

subsection \<open>Longest match and exact lookup\<close>

text \<open>The loop of \<^verbatim>\<open>bgp_node_match\<close>, with its variables \<^verbatim>\<open>node\<close> and \<^verbatim>\<open>matched\<close>.\<close>

partial_function (option) match_walk ::
  "(addr \<Rightarrow> bgp_node option) \<Rightarrow> prefix \<Rightarrow> addr option \<Rightarrow> addr option \<Rightarrow> (abort + addr option) option" where
  "match_walk h q node matched =
     (case node of
        None \<Rightarrow> Some (Inr matched)
      | Some a \<Rightarrow>
         (case h a of
            None \<Rightarrow> Some (Inl BadPointer)
          | Some n \<Rightarrow>
              if prefixlen (pfx n) \<le> prefixlen q \<and> prefix_match (pfx n) q
              then match_walk h q (link n (prefix_bit (u_prefix q) (prefixlen (pfx n))))
                     (if info n \<noteq> None then Some a else matched)
              else Some (Inr matched)))"

definition bgp_node_match :: "bgp_state \<Rightarrow> prefix \<Rightarrow> (abort + bgp_state \<times> addr option) option" where
  "bgp_node_match s q =
     (case match_walk (heap s) q (t_top s) None of
        None \<Rightarrow> None
      | Some (Inl e) \<Rightarrow> Some (Inl e)
      | Some (Inr None) \<Rightarrow> Some (Inr (s, None))
      | Some (Inr (Some m)) \<Rightarrow>
         (case bgp_lock_node s m of
            Inl e \<Rightarrow> Some (Inl e)
          | Inr s' \<Rightarrow> Some (Inr (s', Some m))))"

definition AF_INET :: u_char where
  "AF_INET = 2"

definition AF_INET6 :: u_char where
  "AF_INET6 = 10"

text \<open>
  The address variants build a host prefix on the stack: the zeroed \<^verbatim>\<open>struct prefix_ipv4\<close>
  or \<^verbatim>\<open>prefix_ipv6\<close> holds just the address bytes (4 or 16 of them).
\<close>

definition bgp_node_match_ipv4 ::
  "bgp_state \<Rightarrow> u_char list \<Rightarrow> (abort + bgp_state \<times> addr option) option" where
  "bgp_node_match_ipv4 s addr =
     bgp_node_match s \<lparr>family = AF_INET, prefixlen = 32, u_prefix = addr\<rparr>"

definition bgp_node_match_ipv6 ::
  "bgp_state \<Rightarrow> u_char list \<Rightarrow> (abort + bgp_state \<times> addr option) option" where
  "bgp_node_match_ipv6 s addr =
     bgp_node_match s \<lparr>family = AF_INET6, prefixlen = 128, u_prefix = addr\<rparr>"

text \<open>The loop of \<^verbatim>\<open>bgp_node_lookup\<close>; it leaves with the node found, or with \<^verbatim>\<open>NULL\<close>.\<close>

partial_function (option) lookup_walk ::
  "(addr \<Rightarrow> bgp_node option) \<Rightarrow> prefix \<Rightarrow> addr option \<Rightarrow> (abort + addr option) option" where
  "lookup_walk h q node =
     (case node of
        None \<Rightarrow> Some (Inr None)
      | Some a \<Rightarrow>
         (case h a of
            None \<Rightarrow> Some (Inl BadPointer)
          | Some n \<Rightarrow>
              if prefixlen (pfx n) \<le> prefixlen q \<and> prefix_match (pfx n) q
              then if prefixlen (pfx n) = prefixlen q \<and> info n \<noteq> None
                   then Some (Inr (Some a))
                   else lookup_walk h q (link n (prefix_bit (u_prefix q) (prefixlen (pfx n))))
              else Some (Inr None)))"

definition bgp_node_lookup :: "bgp_state \<Rightarrow> prefix \<Rightarrow> (abort + bgp_state \<times> addr option) option" where
  "bgp_node_lookup s q =
     (case lookup_walk (heap s) q (t_top s) of
        None \<Rightarrow> None
      | Some (Inl e) \<Rightarrow> Some (Inl e)
      | Some (Inr None) \<Rightarrow> Some (Inr (s, None))
      | Some (Inr (Some m)) \<Rightarrow>
         (case bgp_lock_node s m of
            Inl e \<Rightarrow> Some (Inl e)
          | Inr s' \<Rightarrow> Some (Inr (s', Some m))))"

definition bgp_table_count :: "bgp_state \<Rightarrow> 64 word" where
  "bgp_table_count s = t_count s"

subsection \<open>Find or add: \<^verbatim>\<open>bgp_node_get\<close>\<close>

text \<open>
  The loop of \<^verbatim>\<open>bgp_node_get\<close> leaves either from inside, at a node of the input's
  length, or at its end with the variables \<^verbatim>\<open>node\<close> and \<^verbatim>\<open>match\<close>.
\<close>

datatype walk = Exact addr | Stop "addr option" "addr option"

partial_function (option) get_walk ::
  "(addr \<Rightarrow> bgp_node option) \<Rightarrow> prefix \<Rightarrow> addr option \<Rightarrow> addr option \<Rightarrow> (abort + walk) option" where
  "get_walk h q node match =
     (case node of
        None \<Rightarrow> Some (Inr (Stop None match))
      | Some a \<Rightarrow>
         (case h a of
            None \<Rightarrow> Some (Inl BadPointer)
          | Some n \<Rightarrow>
              if prefixlen (pfx n) \<le> prefixlen q \<and> prefix_match (pfx n) q
              then if prefixlen (pfx n) = prefixlen q
                   then Some (Inr (Exact a))
                   else get_walk h q (link n (prefix_bit (u_prefix q) (prefixlen (pfx n)))) (Some a)
              else Some (Inr (Stop (Some a) match))))"

text \<open>\<^verbatim>\<open>if (match) set_link (match, new); else table->top = new;\<close>\<close>

definition link_under :: "addr option \<Rightarrow> addr \<Rightarrow> bgp_state \<Rightarrow> abort + bgp_state" where
  "link_under match new s =
     (case match of
        Some m \<Rightarrow> set_link m new s
      | None \<Rightarrow> Inr (s\<lparr>t_top := Some new\<rparr>))"

text \<open>The common tail: \<^verbatim>\<open>new->prn = prn; table->count++; bgp_lock_node (new); return new;\<close>\<close>

definition get_finish :: "bgp_state \<Rightarrow> addr \<Rightarrow> addr option \<Rightarrow> abort + bgp_state \<times> addr" where
  "get_finish s new prn0 =
     (if heap s new = None then Inl BadPointer
      else
        let s1 = node_upd (\<lambda>x. x\<lparr>prn := prn0\<rparr>) new s;
            s2 = s1\<lparr>t_count := t_count s1 + 1\<rparr>
        in (case bgp_lock_node s2 new of
              Inl e \<Rightarrow> Inl e
            | Inr s3 \<Rightarrow> Inr (s3, new)))"

text \<open>
  The first part of the \<^verbatim>\<open>else\<close> branch after the loop: a zeroed node takes the common
  prefix of \<^verbatim>\<open>node\<close> and the input, \<^verbatim>\<open>node\<close> is linked below it, and it is linked
  below \<^verbatim>\<open>match\<close> or made \<^verbatim>\<open>top\<close>.
\<close>

definition get_glue ::
  "bgp_state \<Rightarrow> prefix \<Rightarrow> addr \<Rightarrow> addr option \<Rightarrow> abort + bgp_state \<times> addr" where
  "get_glue s q a match =
     (case bgp_node_calloc s of
        (new, s1) \<Rightarrow>
          (case heap s1 a of
             None \<Rightarrow> Inl BadPointer
           | Some n \<Rightarrow>
               let s2 = node_upd
                     (\<lambda>x. x\<lparr>pfx := (route_common (pfx n) q (pfx x))\<lparr>family := family q\<rparr>\<rparr>)
                     new s1
               in (case set_link new a s2 of
                     Inl e \<Rightarrow> Inl e
                   | Inr s3 \<Rightarrow>
                      (case link_under match new s3 of
                         Inl e \<Rightarrow> Inl e
                       | Inr s4 \<Rightarrow> Inr (s4, new)))))"

text \<open>The code after the loop, for the loop's final \<^verbatim>\<open>node\<close> and \<^verbatim>\<open>match\<close>.\<close>

definition get_insert ::
  "bgp_state \<Rightarrow> prefix \<Rightarrow> addr option \<Rightarrow> addr option \<Rightarrow> addr option \<Rightarrow> abort + bgp_state \<times> addr" where
  "get_insert s q prn0 node match =
     (case node of
        None \<Rightarrow>
          (case bgp_node_set s q of
             (new, s1) \<Rightarrow>
               (case link_under match new s1 of
                  Inl e \<Rightarrow> Inl e
                | Inr s2 \<Rightarrow> get_finish s2 new prn0))
      | Some a \<Rightarrow>
          (case get_glue s q a match of
             Inl e \<Rightarrow> Inl e
           | Inr (s4, new) \<Rightarrow>
              (case heap s4 new of
                 None \<Rightarrow> Inl BadPointer
               | Some g \<Rightarrow>
                   if prefixlen (pfx g) \<noteq> prefixlen q
                   then (case bgp_node_set s4 q of
                           (new2, s5) \<Rightarrow>
                             (case set_link new new2 s5 of
                                Inl e \<Rightarrow> Inl e
                              | Inr s6 \<Rightarrow>
                                  get_finish (s6\<lparr>t_count := t_count s6 + 1\<rparr>) new2 prn0))
                   else get_finish s4 new prn0)))"

definition bgp_node_get ::
  "bgp_state \<Rightarrow> prefix \<Rightarrow> addr option \<Rightarrow> (abort + bgp_state \<times> addr) option" where
  "bgp_node_get s q prn0 =
     (if qdebug s \<and> \<not> (prn0 = None \<or> t_mpls_vpn s) then Some (Inl AssertFailed)
      else
        (case get_walk (heap s) q (t_top s) None of
           None \<Rightarrow> None
         | Some (Inl e) \<Rightarrow> Some (Inl e)
         | Some (Inr (Exact a)) \<Rightarrow>
            (case heap s a of
               None \<Rightarrow> Some (Inl BadPointer)
             | Some n \<Rightarrow>
                 if qdebug s \<and> prn n \<noteq> prn0 then Some (Inl AssertFailed)
                 else (case bgp_lock_node s a of
                         Inl e \<Rightarrow> Some (Inl e)
                       | Inr s' \<Rightarrow> Some (Inr (s', a))))
         | Some (Inr (Stop node match)) \<Rightarrow> Some (get_insert s q prn0 node match)))"

subsection \<open>The debug check\<close>

text \<open>The three assertions of \<^verbatim>\<open>bgp_table_node_check\<close> that compare prefixes.\<close>

definition child_ok :: "bgp_node \<Rightarrow> bool \<Rightarrow> bgp_node \<Rightarrow> bool" where
  "child_ok n side c =
     (prefixlen (pfx n) < prefixlen (pfx c) \<and> prefix_match (pfx n) (pfx c) \<and>
      side = prefix_bit (u_prefix (pfx c)) (prefixlen (pfx n)))"

text \<open>
  \<^verbatim>\<open>bgp_table_node_check\<close> runs only under \<^verbatim>\<open>qdebug\<close>, so its \<^verbatim>\<open>qassert\<close>s are
  live.  The running count is a \<^verbatim>\<open>uint\<close>.
\<close>

partial_function (option) bgp_table_node_check ::
  "(addr \<Rightarrow> bgp_node option) \<Rightarrow> addr \<Rightarrow> 32 word \<Rightarrow> (abort + 32 word) option" where
  "bgp_table_node_check h rn cnt =
     (case h rn of
        None \<Rightarrow> Some (Inl BadPointer)
      | Some n \<Rightarrow>
          if cnt = 0 \<or> \<not> prefix_check (pfx n) then Some (Inl AssertFailed)
          else
            Option.bind
              (case l_left n of
                 None \<Rightarrow> Some (Inr (cnt - 1))
               | Some c \<Rightarrow>
                  (case h c of
                     None \<Rightarrow> Some (Inl BadPointer)
                   | Some cn \<Rightarrow>
                       if parent cn \<noteq> Some rn \<or> \<not> child_ok n False cn
                       then Some (Inl AssertFailed)
                       else bgp_table_node_check h c (cnt - 1)))
              (\<lambda>r. case r of
                     Inl e \<Rightarrow> Some (Inl e)
                   | Inr cnt1 \<Rightarrow>
                      (case l_right n of
                         None \<Rightarrow> Some (Inr cnt1)
                       | Some c \<Rightarrow>
                          (case h c of
                             None \<Rightarrow> Some (Inl BadPointer)
                           | Some cn \<Rightarrow>
                               if parent cn \<noteq> Some rn \<or> \<not> child_ok n True cn
                               then Some (Inl AssertFailed)
                               else bgp_table_node_check h c cnt1))))"

definition bgp_table_check :: "bgp_state \<Rightarrow> (abort + unit) option" where
  "bgp_table_check s =
     (case (case t_top s of
              None \<Rightarrow> Some (Inr (ucast (t_count s)))
            | Some a \<Rightarrow> bgp_table_node_check (heap s) a (ucast (t_count s))) of
        None \<Rightarrow> None
      | Some (Inl e) \<Rightarrow> Some (Inl e)
      | Some (Inr cnt) \<Rightarrow> if cnt \<noteq> 0 then Some (Inl AssertFailed) else Some (Inr ()))"

subsection \<open>Iteration\<close>

definition bgp_table_top :: "bgp_state \<Rightarrow> (abort + bgp_state \<times> addr option) option" where
  "bgp_table_top s =
     (case t_top s of
        None \<Rightarrow> Some (Inr (s, None))
      | Some a \<Rightarrow>
         (case (if qdebug s then bgp_table_check s else Some (Inr ())) of
            None \<Rightarrow> None
          | Some (Inl e) \<Rightarrow> Some (Inl e)
          | Some (Inr _) \<Rightarrow>
             (case bgp_lock_node s a of
                Inl e \<Rightarrow> Some (Inl e)
              | Inr s' \<Rightarrow> Some (Inr (s', Some a)))))"

text \<open>The upward loop of \<^verbatim>\<open>bgp_route_next\<close>: the node to go to, or \<^verbatim>\<open>NULL\<close>.\<close>

partial_function (option) next_up ::
  "(addr \<Rightarrow> bgp_node option) \<Rightarrow> addr \<Rightarrow> (abort + addr option) option" where
  "next_up h a =
     (case h a of
        None \<Rightarrow> Some (Inl BadPointer)
      | Some n \<Rightarrow>
         (case parent n of
            None \<Rightarrow> Some (Inr None)
          | Some pa \<Rightarrow>
             (case h pa of
                None \<Rightarrow> Some (Inl BadPointer)
              | Some pn \<Rightarrow>
                  if l_left pn = Some a \<and> l_right pn \<noteq> None then Some (Inr (l_right pn))
                  else next_up h pa)))"

text \<open>\<^verbatim>\<open>bgp_lock_node (next); bgp_unlock_node (node); return next;\<close>\<close>

definition hand_over ::
  "bgp_state \<Rightarrow> addr \<Rightarrow> addr \<Rightarrow> (abort + bgp_state \<times> addr option) option" where
  "hand_over s next node =
     (case bgp_lock_node s next of
        Inl e \<Rightarrow> Some (Inl e)
      | Inr s1 \<Rightarrow>
         (case bgp_unlock_node s1 node of
            None \<Rightarrow> None
          | Some (Inl e) \<Rightarrow> Some (Inl e)
          | Some (Inr s2) \<Rightarrow> Some (Inr (s2, Some next))))"

definition bgp_route_next :: "bgp_state \<Rightarrow> addr \<Rightarrow> (abort + bgp_state \<times> addr option) option" where
  "bgp_route_next s node =
     (case heap s node of
        None \<Rightarrow> Some (Inl BadPointer)
      | Some n \<Rightarrow>
         (case l_left n of
            Some next \<Rightarrow> hand_over s next node
          | None \<Rightarrow>
             (case l_right n of
                Some next \<Rightarrow> hand_over s next node
              | None \<Rightarrow>
                 (case next_up (heap s) node of
                    None \<Rightarrow> None
                  | Some (Inl e) \<Rightarrow> Some (Inl e)
                  | Some (Inr (Some next)) \<Rightarrow> hand_over s next node
                  | Some (Inr None) \<Rightarrow>
                     (case bgp_unlock_node s node of
                        None \<Rightarrow> None
                      | Some (Inl e) \<Rightarrow> Some (Inl e)
                      | Some (Inr s1) \<Rightarrow> Some (Inr (s1, None)))))))"

text \<open>
  The caller's loop \<^verbatim>\<open>for (rn = bgp_table_top (t); rn; rn = bgp_route_next (rn))\<close>,
  collecting the nodes it is handed.
\<close>

partial_function (option) walk_from ::
  "bgp_state \<Rightarrow> addr \<Rightarrow> addr list \<Rightarrow> (abort + bgp_state \<times> addr list) option" where
  "walk_from s node seen =
     (case bgp_route_next s node of
        None \<Rightarrow> None
      | Some (Inl e) \<Rightarrow> Some (Inl e)
      | Some (Inr (s', None)) \<Rightarrow> Some (Inr (s', seen))
      | Some (Inr (s', Some next)) \<Rightarrow> walk_from s' next (seen @ [next]))"

definition walk_table :: "bgp_state \<Rightarrow> (abort + bgp_state \<times> addr list) option" where
  "walk_table s =
     (case bgp_table_top s of
        None \<Rightarrow> None
      | Some (Inl e) \<Rightarrow> Some (Inl e)
      | Some (Inr (s', None)) \<Rightarrow> Some (Inr (s', []))
      | Some (Inr (s', Some a)) \<Rightarrow> walk_from s' a [a])"

subsection \<open>Freeing the table\<close>

text \<open>
  The loop of \<^verbatim>\<open>bgp_table_free\<close>.  The check of the payload is a \<^verbatim>\<open>qassert\<close>, live
  under \<open>qdebug\<close> only.
\<close>

partial_function (option) free_loop :: "bgp_state \<Rightarrow> addr option \<Rightarrow> (abort + bgp_state) option" where
  "free_loop s node =
     (case node of
        None \<Rightarrow> Some (Inr s)
      | Some a \<Rightarrow>
         (case heap s a of
            None \<Rightarrow> Some (Inl BadPointer)
          | Some n \<Rightarrow>
              if l_left n \<noteq> None then free_loop s (l_left n)
              else if l_right n \<noteq> None then free_loop s (l_right n)
              else if qdebug s \<and>
                      \<not> (info n = None \<and> adj_outs n = None \<and> adj_ins n = None \<and> \<not> on_wq n)
              then Some (Inl AssertFailed)
              else
                let s1 = node_upd (\<lambda>x. x\<lparr>lock := 0\<rparr>) a (s\<lparr>t_count := t_count s - 1\<rparr>);
                    s2 = bgp_node_free a s1
                in (case parent n of
                      None \<Rightarrow> Some (Inr s2)
                    | Some pa \<Rightarrow>
                        if heap s2 pa = None then Some (Inl BadPointer)
                        else free_loop
                               (node_upd (\<lambda>x. if l_left x = Some a then x\<lparr>l_left := None\<rparr>
                                              else x\<lparr>l_right := None\<rparr>) pa s2)
                               (Some pa))))"

text \<open>
  Modelled from the spec: \<^verbatim>\<open>bgp_peer_unlock\<close> belongs to the peer code, which is
  missing; it gives up one lock on the peer.
\<close>

definition bgp_peer_unlock :: "nat \<Rightarrow> bgp_state \<Rightarrow> bgp_state" where
  "bgp_peer_unlock peer s = s\<lparr>peer_lock := (peer_lock s)(peer := peer_lock s peer - 1)\<rparr>"

definition bgp_table_free :: "bgp_state \<Rightarrow> (abort + bgp_state) option" where
  "bgp_table_free s =
     (case free_loop s (t_top s) of
        None \<Rightarrow> None
      | Some (Inl e) \<Rightarrow> Some (Inl e)
      | Some (Inr s1) \<Rightarrow>
          if t_count s1 \<noteq> 0 then Some (Inl AssertFailed)
          else
            let s2 = (case t_owner s1 of
                        Some peer \<Rightarrow> (bgp_peer_unlock peer s1)\<lparr>t_owner := None\<rparr>
                      | None \<Rightarrow> s1)
            in Some (Inr (s2\<lparr>t_lock := - 54321, t_freed := True\<rparr>)))"

definition bgp_table_unlock :: "bgp_state \<Rightarrow> (abort + bgp_state) option" where
  "bgp_table_unlock s =
     (if \<not> t_lock s > 0 then Some (Inl AssertFailed)
      else
        let s1 = s\<lparr>t_lock := t_lock s - 1\<rparr>
        in if t_lock s1 = 0 then bgp_table_free s1 else Some (Inr s1))"

section \<open>Well-formed tables\<close>

text \<open>The nodes that can be reached from a pointer through \<^verbatim>\<open>l_left\<close> and \<^verbatim>\<open>l_right\<close>.\<close>

inductive_set reach :: "(addr \<Rightarrow> bgp_node option) \<Rightarrow> addr option \<Rightarrow> addr set"
  for h :: "addr \<Rightarrow> bgp_node option" and x :: "addr option" where
  reach_root: "x = Some a \<Longrightarrow> a \<in> reach h x"
| reach_left: "a \<in> reach h x \<Longrightarrow> h a = Some n \<Longrightarrow> l_left n = Some c \<Longrightarrow> c \<in> reach h x"
| reach_right: "a \<in> reach h x \<Longrightarrow> h a = Some n \<Longrightarrow> l_right n = Some c \<Longrightarrow> c \<in> reach h x"

text \<open>
  The shape of the trie below a pointer \<open>x\<close>, as a binary tree of addresses: the node at
  \<open>x\<close> points back at \<open>par\<close>, and its two links lead to the shapes of its subtrees.
\<close>

fun heap_tree :: "(addr \<Rightarrow> bgp_node option) \<Rightarrow> addr option \<Rightarrow> addr option \<Rightarrow> addr tree \<Rightarrow> bool" where
  "heap_tree h par x Leaf = (x = None)"
| "heap_tree h par x (Node l a r) =
     (x = Some a \<and>
      (case h a of
         None \<Rightarrow> False
       | Some n \<Rightarrow> parent n = par \<and> heap_tree h (Some a) (l_left n) l \<and>
                    heap_tree h (Some a) (l_right n) r))"

definition root_of :: "addr tree \<Rightarrow> addr option" where
  "root_of t = (case t of Leaf \<Rightarrow> None | Node l a r \<Rightarrow> Some a)"

text \<open>
  What \<^verbatim>\<open>bgp_table_node_check\<close> asserts of a node and one child: the child's prefix is
  longer, the node's prefix covers it, and its bit at the node's length is the side.
\<close>

definition edge_ok :: "(addr \<Rightarrow> bgp_node option) \<Rightarrow> addr \<Rightarrow> bool \<Rightarrow> addr option \<Rightarrow> bool" where
  "edge_ok h a side c =
     (case c of
        None \<Rightarrow> True
      | Some b \<Rightarrow>
         (case h a of
            None \<Rightarrow> False
          | Some n \<Rightarrow> (case h b of None \<Rightarrow> False | Some m \<Rightarrow> child_ok n side m)))"

fun trie_ok :: "(addr \<Rightarrow> bgp_node option) \<Rightarrow> addr tree \<Rightarrow> bool" where
  "trie_ok h Leaf = True"
| "trie_ok h (Node l a r) =
     (trie_ok h l \<and> trie_ok h r \<and> edge_ok h a False (root_of l) \<and> edge_ok h a True (root_of r))"

text \<open>
  The pool: the free list has no duplicates and shares no address with the trie, and every
  address in use lies below the next fresh one.
\<close>

definition pool_ok :: "bgp_state \<Rightarrow> addr set \<Rightarrow> bool" where
  "pool_ok s N =
     (distinct (rn_frees s) \<and> set (rn_frees s) \<inter> N = {} \<and>
      (\<forall>a \<in> set (rn_frees s) \<union> N. a < rn_next s))"

text \<open>
  A table is well formed with shape \<open>t\<close> when the trie below \<^verbatim>\<open>top\<close> has that shape,
  no node occurs twice, every edge passes the check, \<^verbatim>\<open>count\<close> is the number of nodes
  and the pool is in order.
\<close>

definition table_tree :: "bgp_state \<Rightarrow> addr tree \<Rightarrow> bool" where
  "table_tree s t =
     (heap_tree (heap s) None (t_top s) t \<and> trie_ok (heap s) t \<and> distinct (preorder t) \<and>
      t_count s = of_nat (size t) \<and> pool_ok s (set_tree t))"

definition table_ok :: "bgp_state \<Rightarrow> bool" where
  "table_ok s = (\<exists>t. table_tree s t)"

text \<open>A node covers the query and carries a payload.\<close>

definition covering :: "(addr \<Rightarrow> bgp_node option) \<Rightarrow> prefix \<Rightarrow> addr \<Rightarrow> bool" where
  "covering h q a =
     (case h a of None \<Rightarrow> False | Some n \<Rightarrow> prefix_match (pfx n) q \<and> info n \<noteq> None)"

definition plen_at :: "(addr \<Rightarrow> bgp_node option) \<Rightarrow> addr \<Rightarrow> nat" where
  "plen_at h a = (case h a of None \<Rightarrow> 0 | Some n \<Rightarrow> prefixlen (pfx n))"

text \<open>The state after \<^verbatim>\<open>bgp_lock_node\<close> on a node, or unchanged for \<^verbatim>\<open>NULL\<close>.\<close>

definition locked :: "bgp_state \<Rightarrow> addr option \<Rightarrow> bgp_state" where
  "locked s r = (case r of None \<Rightarrow> s | Some a \<Rightarrow> node_upd (\<lambda>n. n\<lparr>lock := lock n + 1\<rparr>) a s)"

text \<open>Example prefixes: an IPv4 address \<open>a.b.c.d\<close> with a length, in a 16 byte union.\<close>

definition ip4 :: "u_char \<Rightarrow> u_char \<Rightarrow> u_char \<Rightarrow> u_char \<Rightarrow> nat \<Rightarrow> prefix" where
  "ip4 a b c d len = \<lparr>family = 2, prefixlen = len, u_prefix = [a, b, c, d] @ replicate 12 0\<rparr>"

text \<open>A node at the query's length that covers it and carries a payload.\<close>

definition exact :: "(addr \<Rightarrow> bgp_node option) \<Rightarrow> prefix \<Rightarrow> addr \<Rightarrow> bool" where
  "exact h q a =
     (case h a of
        None \<Rightarrow> False
      | Some n \<Rightarrow> prefix_match (pfx n) q \<and> prefixlen (pfx n) = prefixlen q \<and> info n \<noteq> None)"

text \<open>
  An example table: \<open>10.0.0.0/8\<close> at address 0 with \<open>10.1.0.0/16\<close> at address 1 as its
  left child, both with a payload and one lock.
\<close>

definition ex_node :: "prefix \<Rightarrow> addr option \<Rightarrow> addr option \<Rightarrow> addr option \<Rightarrow> int \<Rightarrow> nat option \<Rightarrow> bgp_node" where
  "ex_node q par l r k i = \<lparr>pfx = q, parent = par, l_left = l, l_right = r, lock = k,
     info = i, adj_outs = None, adj_ins = None, prn = None, on_wq = False\<rparr>"

definition ex_table :: bgp_state where
  "ex_table = \<lparr>heap = [0 \<mapsto> ex_node (ip4 10 0 0 0 8) None (Some 1) None 1 (Some 1),
                        1 \<mapsto> ex_node (ip4 10 1 0 0 16) (Some 0) None None 1 (Some 2)],
     t_top = Some 0, t_count = 2, t_lock = 1, t_owner = None, t_mpls_vpn = False,
     t_freed = False, peer_lock = (\<lambda>_. 0), rn_frees = [], rn_next = 1024, qdebug = False\<rparr>"

text \<open>
  Between \<open>s\<close> and \<open>s'\<close> nothing changed but the lock of the node \<open>r\<close>, which went up
  by one: every field of the table and the pool is the same, the same addresses hold
  nodes, and every node has all its fields but for that one lock.
\<close>

definition lock_only :: "bgp_state \<Rightarrow> bgp_state \<Rightarrow> addr option \<Rightarrow> bool" where
  "lock_only s s' r =
     (s'\<lparr>heap := heap s\<rparr> = s \<and>
      (\<forall>b. heap s' b =
         (case heap s b of
            None \<Rightarrow> None
          | Some n \<Rightarrow> Some (if r = Some b then n\<lparr>lock := lock n + 1\<rparr> else n))) \<and>
      (case r of None \<Rightarrow> True | Some a \<Rightarrow> heap s a \<noteq> None))"

text \<open>Every node of a subtree lies below the node the subtree hangs from.\<close>

definition under :: "(addr \<Rightarrow> bgp_node option) \<Rightarrow> bgp_node \<Rightarrow> bool \<Rightarrow> addr tree \<Rightarrow> bool" where
  "under h n side t = (\<forall>c\<in>set_tree t. \<exists>m. h c = Some m \<and> child_ok n side m)"

text \<open>
  The outcome of the longest match over a set of nodes: the covering node with a payload
  that is strictly longer than every other one, or the default when there is none.
\<close>

definition best :: "(addr \<Rightarrow> bgp_node option) \<Rightarrow> prefix \<Rightarrow> addr set \<Rightarrow> addr option \<Rightarrow> addr option \<Rightarrow> bool" where
  "best h q N dflt r =
     (if \<exists>c\<in>N. covering h q c
      then \<exists>c\<in>N. r = Some c \<and> covering h q c \<and>
             (\<forall>d\<in>N. covering h q d \<and> d \<noteq> c \<longrightarrow> plen_at h d < plen_at h c)
      else r = dflt)"

subsection \<open>Moving subtrees\<close>

text \<open>The subtree rooted at an address, and the subtree hanging on one side of a node.\<close>

fun subtree :: "addr tree \<Rightarrow> addr \<Rightarrow> addr tree" where
  "subtree Leaf a = Leaf"
| "subtree (Node l b r) a =
     (if a = b then Node l b r else if a \<in> set_tree l then subtree l a else subtree r a)"

definition child_tree :: "addr tree \<Rightarrow> addr \<Rightarrow> bool \<Rightarrow> addr tree" where
  "child_tree t m side =
     (case subtree t m of Leaf \<Rightarrow> Leaf | Node l b r \<Rightarrow> if side then r else l)"

text \<open>Replacing the subtree on one side of the node \<open>m\<close>, or the whole tree.\<close>

fun graft :: "addr tree \<Rightarrow> addr \<Rightarrow> bool \<Rightarrow> addr tree \<Rightarrow> addr tree" where
  "graft Leaf m side u = Leaf"
| "graft (Node l a r) m side u =
     (if a = m then (if side then Node l a u else Node u a r)
      else Node (graft l m side u) a (graft r m side u))"

definition graft_at :: "addr tree \<Rightarrow> addr option \<Rightarrow> bool \<Rightarrow> addr tree \<Rightarrow> addr tree" where
  "graft_at t mo side u = (case mo of None \<Rightarrow> u | Some m \<Rightarrow> graft t m side u)"

definition hang_at :: "addr tree \<Rightarrow> addr option \<Rightarrow> bool \<Rightarrow> addr tree" where
  "hang_at t mo side = (case mo of None \<Rightarrow> t | Some m \<Rightarrow> child_tree t m side)"

text \<open>
  Where the loop of \<^verbatim>\<open>bgp_node_get\<close> stops without an exact match: \<^verbatim>\<open>match\<close> is
  \<^verbatim>\<open>NULL\<close> and \<^verbatim>\<open>node\<close> is \<^verbatim>\<open>top\<close>, or \<^verbatim>\<open>match\<close> is a node of the trie that covers
  the input strictly and \<^verbatim>\<open>node\<close> is its child on the side of the input's next bit; and
  \<^verbatim>\<open>node\<close>, when it is not \<^verbatim>\<open>NULL\<close>, does not cover the input.
\<close>

definition slot ::
  "(addr \<Rightarrow> bgp_node option) \<Rightarrow> addr option \<Rightarrow> addr set \<Rightarrow> prefix \<Rightarrow> addr option \<Rightarrow> addr option \<Rightarrow> bool" where
  "slot h tp N q mo nd =
     ((case mo of
         None \<Rightarrow> nd = tp
       | Some m \<Rightarrow>
           m \<in> N \<and>
           (case h m of
              None \<Rightarrow> False
            | Some mn \<Rightarrow>
                prefix_match (pfx mn) q \<and> prefixlen (pfx mn) < prefixlen q \<and>
                nd = link mn (prefix_bit (u_prefix q) (prefixlen (pfx mn))))) \<and>
      (case nd of
         None \<Rightarrow> True
       | Some c \<Rightarrow> (case h c of None \<Rightarrow> False | Some cn \<Rightarrow> \<not> prefix_match (pfx cn) q)))"

text \<open>What the loop of \<^verbatim>\<open>bgp_node_get\<close> yields when started at \<open>x\<close> below \<open>par\<close>.\<close>

definition walk_spec ::
  "(addr \<Rightarrow> bgp_node option) \<Rightarrow> prefix \<Rightarrow> addr set \<Rightarrow> addr option \<Rightarrow> addr option \<Rightarrow> walk \<Rightarrow> bool" where
  "walk_spec h q N par x w =
     (case w of
        Exact a \<Rightarrow>
          a \<in> N \<and> (\<exists>n. h a = Some n \<and> prefix_match (pfx n) q \<and> prefixlen (pfx n) = prefixlen q)
      | Stop nd mo \<Rightarrow>
          (mo = par \<and> nd = x \<or>
           (\<exists>m mn. mo = Some m \<and> m \<in> N \<and> h m = Some mn \<and> prefix_match (pfx mn) q \<and>
              prefixlen (pfx mn) < prefixlen q \<and>
              nd = link mn (prefix_bit (u_prefix q) (prefixlen (pfx mn))))) \<and>
          (\<forall>c. nd = Some c \<longrightarrow> (\<exists>cn. h c = Some cn \<and> \<not> prefix_match (pfx cn) q)))"


text \<open>
  Every node of \<open>N\<close> is still there in \<open>s'\<close> and differs from what it was in \<open>s\<close> in
  its three links at most.
\<close>

definition only_links :: "bgp_state \<Rightarrow> bgp_state \<Rightarrow> addr set \<Rightarrow> bool" where
  "only_links s s' N =
     (\<forall>y\<in>N. case heap s y of
               None \<Rightarrow> False
             | Some n \<Rightarrow>
                (case heap s' y of
                   None \<Rightarrow> False
                 | Some n' \<Rightarrow> n'\<lparr>parent := parent n, l_left := l_left n, l_right := l_right n\<rparr> = n))"

text \<open>The glue node's prefix, the glue node as the first part leaves it, and its subtree.\<close>

definition glue_prefix :: "prefix \<Rightarrow> prefix \<Rightarrow> prefix" where
  "glue_prefix n q = (route_common n q zero_prefix)\<lparr>family := family q\<rparr>"

definition glue_side :: "bgp_node \<Rightarrow> prefix \<Rightarrow> bool" where
  "glue_side cn q = prefix_bit (u_prefix (pfx cn)) (prefixlen (glue_prefix (pfx cn) q))"

definition glue_node :: "bgp_node \<Rightarrow> prefix \<Rightarrow> addr \<Rightarrow> addr option \<Rightarrow> bgp_node" where
  "glue_node cn q c mo =
     link_update (glue_side cn q) (Some c) (zero_node\<lparr>pfx := glue_prefix (pfx cn) q, parent := mo\<rparr>)"

definition glue_tree :: "bool \<Rightarrow> addr \<Rightarrow> addr tree \<Rightarrow> addr tree \<Rightarrow> addr tree" where
  "glue_tree sc g u w = (if sc then Node w g u else Node u g w)"

text \<open>The example table in a debug build, as an MPLS-VPN table.\<close>

definition ex_table_vpn :: bgp_state where
  "ex_table_vpn = ex_table\<lparr>t_mpls_vpn := True, qdebug := True\<rparr>"

section \<open>Sequences of operations\<close>

text \<open>
  A caller's operation on the table: \<^verbatim>\<open>bgp_node_get\<close> of a prefix with a \<^verbatim>\<open>prn\<close>, or
  \<^verbatim>\<open>bgp_unlock_node\<close> of a node.  A sequence runs until an operation stops the process.
\<close>

datatype op = Get prefix "addr option" | Unlock addr

fun run :: "op list \<Rightarrow> bgp_state \<Rightarrow> (abort + bgp_state) option" where
  "run [] s = Some (Inr s)"
| "run (Get q prn0 # ops) s =
     (case bgp_node_get s q prn0 of
        None \<Rightarrow> None
      | Some (Inl e) \<Rightarrow> Some (Inl e)
      | Some (Inr (s', r)) \<Rightarrow> run ops s')"
| "run (Unlock a # ops) s =
     (case bgp_unlock_node s a of
        None \<Rightarrow> None
      | Some (Inl e) \<Rightarrow> Some (Inl e)
      | Some (Inr s') \<Rightarrow> run ops s')"

fun valid_op :: "op \<Rightarrow> bool" where
  "valid_op (Get q prn0) = valid_prefix q"
| "valid_op (Unlock a) = True"

text \<open>The records that hold a lock, in the trie or not.\<close>

definition held :: "(addr \<Rightarrow> bgp_node option) \<Rightarrow> addr set" where
  "held h = {y. \<exists>n. h y = Some n \<and> lock n \<noteq> 0}"

text \<open>
  The lock discipline of the callers: a node of the trie without a lock carries no payload
  and is on no work queue.
\<close>

definition idle_clean :: "bgp_state \<Rightarrow> bool" where
  "idle_clean s =
     (\<forall>y\<in>reach (heap s) (t_top s).
        case heap s y of
          None \<Rightarrow> True
        | Some n \<Rightarrow> lock n = 0 \<longrightarrow> info n = None \<and> \<not> on_wq n)"

text \<open>Two nodes that differ in their three links at most.\<close>

definition same_payload :: "bgp_node \<Rightarrow> bgp_node \<Rightarrow> bool" where
  "same_payload n n' = (n'\<lparr>parent := parent n, l_left := l_left n, l_right := l_right n\<rparr> = n)"

text \<open>
  A second example: \<open>10.0.0.0/8\<close> and \<open>11.0.0.0/8\<close> under the glue node \<open>10.0.0.0/7\<close>;
  the node of \<open>11.0.0.0/8\<close> has been released and holds nothing.
\<close>

definition ex_glue_table :: bgp_state where
  "ex_glue_table = \<lparr>heap = [2 \<mapsto> ex_node (ip4 10 0 0 0 7) None (Some 0) (Some 1) 0 None,
                             0 \<mapsto> ex_node (ip4 10 0 0 0 8) (Some 2) None None 1 (Some 1),
                             1 \<mapsto> ex_node (ip4 11 0 0 0 8) (Some 2) None None 0 None],
     t_top = Some 2, t_count = 3, t_lock = 1, t_owner = None, t_mpls_vpn = False,
     t_freed = False, peer_lock = (\<lambda>_. 0), rn_frees = [], rn_next = 1024, qdebug = False\<rparr>"

section \<open>The bulk free\<close>

text \<open>
  A record after the loop of \<^verbatim>\<open>bgp_table_free\<close> has passed it: the lock is zeroed and
  both links have been cleared, one as each child went.  The state after the loop has
  passed all of a subtree: its records wiped, \<^verbatim>\<open>count\<close> down by its size, and its
  records on the free list, the last one freed at the head.
\<close>

definition wipe :: "bgp_node \<Rightarrow> bgp_node" where
  "wipe n = n\<lparr>lock := 0, l_left := None, l_right := None\<rparr>"

definition freed :: "bgp_state \<Rightarrow> addr tree \<Rightarrow> bgp_state" where
  "freed s t =
     s\<lparr>heap := (\<lambda>y. if y \<in> set_tree t then map_option wipe (heap s y) else heap s y),
       t_count := t_count s - of_nat (size t),
       rn_frees := rev (postorder t) @ rn_frees s\<rparr>"

text \<open>Some record of a set still has a payload, an adjacency or a place on the work queue.\<close>

definition unclean :: "(addr \<Rightarrow> bgp_node option) \<Rightarrow> addr set \<Rightarrow> bool" where
  "unclean h N =
     (\<exists>y\<in>N. \<exists>n. h y = Some n \<and>
        \<not> (info n = None \<and> adj_outs n = None \<and> adj_ins n = None \<and> \<not> on_wq n))"

section \<open>Iterating over a table\<close>

text \<open>
  A table through which the iteration passes without deleting: no lock is negative, and a
  node without a lock is a branch point, with two children, no payload and off the work
  queue.  Tables built by \<^verbatim>\<open>bgp_node_get\<close> alone are such.
\<close>

definition settled :: "bgp_node \<Rightarrow> bool" where
  "settled n =
     (0 \<le> lock n \<and>
      (lock n = 0 \<longrightarrow> l_left n \<noteq> None \<and> l_right n \<noteq> None \<and> info n = None \<and> \<not> on_wq n))"

definition stable :: "bgp_state \<Rightarrow> bool" where
  "stable s =
     (\<forall>y\<in>reach (heap s) (t_top s). case heap s y of None \<Rightarrow> True | Some n \<Rightarrow> settled n)"

text \<open>A sequence of insertions.\<close>

definition inserts :: "(prefix \<times> addr option) list \<Rightarrow> op list" where
  "inserts qs = map (\<lambda>(q, p). Get q p) qs"

text \<open>Two heaps with the same records and the same three links in each.\<close>

definition same_links :: "(addr \<Rightarrow> bgp_node option) \<Rightarrow> (addr \<Rightarrow> bgp_node option) \<Rightarrow> bool" where
  "same_links h h' =
     (\<forall>y. case h y of
             None \<Rightarrow> h' y = None
           | Some n \<Rightarrow> (case h' y of
                          None \<Rightarrow> False
                        | Some n' \<Rightarrow> parent n' = parent n \<and> l_left n' = l_left n \<and>
                                     l_right n' = l_right n))"

section \<open>Properties of \<^verbatim>\<open>route_common\<close>\<close>

declare common_bytes.simps [simp del] common_bits.simps [simp del]

lemma byte_at_update:
  "byte_at (bs[i := v]) j = (if j = i \<and> i < length bs then v else byte_at bs j)"
  by (simp add: byte_at_def)

lemma common_bytes_props:
  "common_bytes np pp plen i newp = (i', newp') \<Longrightarrow> i \<le> plen div 8 \<Longrightarrow>
     i \<le> i' \<and> i' \<le> plen div 8 \<and>
     (\<forall>j. i \<le> j \<and> j < i' \<longrightarrow> byte_at np j = byte_at pp j) \<and>
     (i' < plen div 8 \<longrightarrow> byte_at np i' \<noteq> byte_at pp i') \<and>
     length newp' = length newp \<and>
     (\<forall>j. byte_at newp' j =
        (if i \<le> j \<and> j < i' \<and> j < length newp then byte_at np j else byte_at newp j))"
proof (induction np pp plen i newp rule: common_bytes.induct)
  case (1 np pp plen i newp)
  show ?case
  proof (cases "i < plen div 8 \<and> byte_at np i = byte_at pp i")
    case True
    with "1.prems" have run: "common_bytes np pp plen (i + 1) (newp[i := byte_at np i]) = (i', newp')"
      by (subst (asm) common_bytes.simps) simp
    from True have le: "i + 1 \<le> plen div 8" by simp
    note IH = "1.IH" [OF _ _ run le]
    from True have IH': "i + 1 \<le> i' \<and> i' \<le> plen div 8 \<and>
     (\<forall>j. i + 1 \<le> j \<and> j < i' \<longrightarrow> byte_at np j = byte_at pp j) \<and>
     (i' < plen div 8 \<longrightarrow> byte_at np i' \<noteq> byte_at pp i') \<and>
     length newp' = length newp \<and>
     (\<forall>j. byte_at newp' j =
        (if i + 1 \<le> j \<and> j < i' \<and> j < length newp then byte_at np j else byte_at (newp[i := byte_at np i]) j))"
      using IH by simp
    have a: "\<forall>j. i \<le> j \<and> j < i' \<longrightarrow> byte_at np j = byte_at pp j"
    proof (intro allI impI)
      fix j assume "i \<le> j \<and> j < i'"
      then show "byte_at np j = byte_at pp j"
        using True IH' by (cases "j = i") auto
    qed
    have b: "\<forall>j. byte_at newp' j =
        (if i \<le> j \<and> j < i' \<and> j < length newp then byte_at np j else byte_at newp j)"
    proof
      fix j
      from IH' have e: "byte_at newp' j =
        (if i + 1 \<le> j \<and> j < i' \<and> j < length newp then byte_at np j else byte_at (newp[i := byte_at np i]) j)"
        by blast
      from IH' have "i < i'" by simp
      then show "byte_at newp' j =
        (if i \<le> j \<and> j < i' \<and> j < length newp then byte_at np j else byte_at newp j)"
        unfolding e byte_at_update by (cases "j = i") auto
    qed
    from IH' a b show ?thesis by simp
  next
    case False
    with "1.prems"(1) have "(i', newp') = (i, newp)"
      by (subst (asm) common_bytes.simps) (auto split: if_splits)
    then have "i' = i" "newp' = newp" by simp_all
    with False "1.prems"(2) show ?thesis by auto
  qed
qed

lemma drop_bit_0x80: "k \<le> 7 \<Longrightarrow> drop_bit k (0x80 :: u_char) = 2 ^ (7 - k)"
proof -
  assume k: "k \<le> 7"
  have "(0x80 :: u_char) = 2 ^ 7" by simp
  then have "drop_bit k (0x80 :: u_char) = drop_bit k (2 ^ 7)" by simp
  also have "\<dots> = 2 ^ (7 - k)" using k by (simp only: drop_bit_exp_eq) simp
  finally show ?thesis .
qed

lemma mask_test: "k \<le> 7 \<Longrightarrow> (drop_bit k (0x80 :: u_char) AND d = 0) = (\<not> bit d (7 - k))"
  by (simp only: drop_bit_0x80 and.commute [of _ d] and_exp_eq_0_iff_not_bit)


lemma common_bits_props:
  "msk = drop_bit k 0x80 \<Longrightarrow> len = b + k \<Longrightarrow>
   plen < b + 8 \<or> (\<exists>j. k \<le> j \<and> j < 8 \<and> bit diff (7 - j)) \<Longrightarrow>
   b + k \<le> plen \<Longrightarrow> r = common_bits diff plen msk len \<Longrightarrow>
   b + k \<le> r \<and> r < b + 8 \<and> r \<le> plen \<and>
   (\<forall>j. k \<le> j \<and> b + j < r \<longrightarrow> \<not> bit diff (7 - j)) \<and>
   (r < plen \<longrightarrow> bit diff (7 - (r - b)))"
proof (induction diff plen msk len arbitrary: k rule: common_bits.induct)
  case (1 diff plen msk len)
  show ?case
  proof (cases "len < plen \<and> msk AND diff = 0")
    case True
    have k7: "k \<le> 7"
    proof (rule ccontr)
      assume "\<not> k \<le> 7"
      with "1.prems"(2,3) True show False by auto
    qed
    with True "1.prems"(1) have nb: "\<not> bit diff (7 - k)" by (simp add: mask_test)
    have eq: "r = common_bits diff plen (drop_bit 1 msk) (len + 1)"
      using True "1.prems"(5) by (subst (asm) common_bits.simps) simp
    have m': "drop_bit 1 msk = drop_bit (Suc k) 0x80" unfolding "1.prems"(1) by (simp only: drop_bit_drop_bit) simp
    have l': "len + 1 = b + Suc k" using "1.prems"(2) by simp
    have c': "plen < b + 8 \<or> (\<exists>j. Suc k \<le> j \<and> j < 8 \<and> bit diff (7 - j))"
    proof (cases "plen < b + 8")
      case False
      with "1.prems"(3) obtain j where j: "k \<le> j" "j < 8" "bit diff (7 - j)" by blast
      with nb have "j \<noteq> k" by auto
      with j show ?thesis by (intro disjI2 exI [of _ j]) simp
    qed simp
    have p': "b + Suc k \<le> plen" using True "1.prems"(2) by simp
    note IH = "1.IH" [OF True m' l' c' p' eq]
    have "\<forall>j. k \<le> j \<and> b + j < r \<longrightarrow> \<not> bit diff (7 - j)"
    proof (intro allI impI)
      fix j assume j: "k \<le> j \<and> b + j < r"
      show "\<not> bit diff (7 - j)"
      proof (cases "j = k")
        case True then show ?thesis using nb by simp
      next
        case False
        with j have "Suc k \<le> j \<and> b + j < r" by simp
        with IH show ?thesis by blast
      qed
    qed
    moreover from IH have "b + k \<le> r" by linarith
    ultimately show ?thesis using IH by blast
  next
    case False
    then have eq: "r = len"
      using "1.prems"(5) by (subst (asm) common_bits.simps) auto
    have k7: "len < plen \<Longrightarrow> k \<le> 7" using "1.prems"(2,3) by auto
    have bd: "len < plen \<Longrightarrow> bit diff (7 - k)"
      using False k7 "1.prems"(1) by (simp add: mask_test)
    have lt: "len < b + 8"
    proof (cases "len < plen")
      case True
      with k7 "1.prems"(2) show ?thesis by simp
    next
      case False
      with "1.prems"(2,4) have "len = plen" by simp
      with "1.prems"(2,3) show ?thesis by auto
    qed
    have "r - b = k" using eq "1.prems"(2) by simp
    with bd eq have "r < plen \<longrightarrow> bit diff (7 - (r - b))" by simp
    moreover have "\<forall>j. k \<le> j \<and> b + j < r \<longrightarrow> \<not> bit diff (7 - j)"
      using eq "1.prems"(2) by auto
    moreover have "b + k \<le> r \<and> r < b + 8 \<and> r \<le> plen"
      using eq lt "1.prems"(2,4) by simp
    ultimately show ?thesis by blast
  qed
qed


lemma maskbit_bit: "m < 8 \<Longrightarrow> j < 8 \<Longrightarrow> bit (maskbit ! m) j = (8 - m \<le> j)"
proof -
  assume "m < 8" "j < 8"
  then have "m \<in> {0,1,2,3,4,5,6,7}" "j \<in> {0,1,2,3,4,5,6,7}" by auto
  then show ?thesis
    by (elim insertE emptyE) (simp_all add: maskbit_def)
qed

lemma word8_nonzero_bit:
  fixes d :: u_char
  assumes "d \<noteq> 0"
  shows "\<exists>j<8. bit d (7 - j)"
proof -
  from assms obtain n where n: "bit d n" by (auto simp: bit_eq_iff)
  then have "n < 8" by (auto dest: bit_imp_le_length)
  with n show ?thesis by (intro exI [of _ "7 - n"]) simp
qed

lemma xor_zero_eq:
  fixes a b :: u_char
  shows "(a XOR b = 0) = (a = b)"
proof
  assume "a XOR b = 0"
  then have "(a XOR b) XOR b = b" by simp
  then show "a = b" by (simp add: xor.assoc)
qed simp

lemma byte_at_zero: "byte_at (replicate m 0) j = 0"
  by (simp add: byte_at_def)

lemma route_common_props:
  fixes n q :: prefix
  assumes q: "prefixlen q \<le> 128"
  defines "g \<equiv> route_common n q zero_prefix"
  shows "prefixlen g \<le> prefixlen q \<and>
    (\<forall>k<prefixlen g.
        prefix_bit (u_prefix g) k = prefix_bit (u_prefix n) k \<and>
        prefix_bit (u_prefix n) k = prefix_bit (u_prefix q) k) \<and>
    (prefixlen g < prefixlen q \<longrightarrow>
     prefix_bit (u_prefix n) (prefixlen g) \<noteq> prefix_bit (u_prefix q) (prefixlen g)) \<and>
    (\<forall>k\<ge>prefixlen g. \<not> prefix_bit (u_prefix g) k) \<and> length (u_prefix g) = 16"
proof -
  obtain i newp where cb:
    "common_bytes (u_prefix n) (u_prefix q) (prefixlen q) 0 (replicate 16 0) = (i, newp)"
    by (cases "common_bytes (u_prefix n) (u_prefix q) (prefixlen q) 0 (replicate 16 0)") 
  from common_bytes_props [OF cb] have
    i_le: "i \<le> prefixlen q div 8" and
    eqb: "\<And>j. j < i \<Longrightarrow> byte_at (u_prefix n) j = byte_at (u_prefix q) j" and
    neq: "i < prefixlen q div 8 \<Longrightarrow> byte_at (u_prefix n) i \<noteq> byte_at (u_prefix q) i" and
    len: "length newp = 16" and
    new: "\<And>j. byte_at newp j = (if j < i \<and> j < 16 then byte_at (u_prefix n) j else 0)"
    by (simp_all add: byte_at_zero)
  from i_le q have i16: "i \<le> 16" by simp
  have new_lt: "\<And>j. j < i \<Longrightarrow> byte_at newp j = byte_at (u_prefix n) j"
    using new i16 by simp
  have new_ge: "\<And>j. i \<le> j \<Longrightarrow> byte_at newp j = 0"
    using new by simp
  show ?thesis
  proof (cases "i * 8 = prefixlen q")
    case True
    then have g: "prefixlen g = i * 8" "u_prefix g = newp"
      by (simp_all add: g_def route_common_def zero_prefix_def cb)
    have b: "\<And>k. k < i * 8 \<Longrightarrow> prefix_bit newp k = prefix_bit (u_prefix n) k \<and>
                          prefix_bit (u_prefix n) k = prefix_bit (u_prefix q) k"
    proof -
      fix k assume "k < i * 8"
      then have "k div 8 < i" by (simp add: less_mult_imp_div_less)
      then show "prefix_bit newp k = prefix_bit (u_prefix n) k \<and>
                          prefix_bit (u_prefix n) k = prefix_bit (u_prefix q) k"
        by (simp add: prefix_bit_def new_lt eqb)
    qed
    have d: "\<And>k. i * 8 \<le> k \<Longrightarrow> \<not> prefix_bit newp k"
    proof -
      fix k assume "i * 8 \<le> k"
      then have "i \<le> k div 8" by simp
      then show "\<not> prefix_bit newp k" by (simp add: prefix_bit_def new_ge)
    qed
    from True b d len show ?thesis
      unfolding g by simp
  next
    case False
    define diff where "diff = byte_at (u_prefix n) i XOR byte_at (u_prefix q) i"
    define r where "r = common_bits diff (prefixlen q) 0x80 (i * 8)"
    define byte where "byte = byte_at (u_prefix n) i AND maskbit ! (r mod 8)"
    from False have g: "prefixlen g = r" "u_prefix g = newp[i := byte]"
      by (simp_all add: g_def route_common_def zero_prefix_def cb Let_def diff_def r_def byte_def)
    from False i_le have lt: "i * 8 < prefixlen q" by linarith
    with q have i15: "i < 16" by simp
    have cond: "prefixlen q < i * 8 + 8 \<or> (\<exists>j. 0 \<le> j \<and> j < 8 \<and> bit diff (7 - j))"
    proof (cases "i < prefixlen q div 8")
      case True
      from neq [OF True] have "diff \<noteq> 0" by (simp add: diff_def xor_zero_eq)
      from word8_nonzero_bit [OF this] show ?thesis by auto
    next
      case False
      with i_le have "i = prefixlen q div 8" by simp
      then show ?thesis by simp linarith
    qed
    have m0: "(0x80 :: u_char) = drop_bit 0 0x80" by simp
    have l0: "i * 8 = i * 8 + 0" by simp
    have p0: "i * 8 + 0 \<le> prefixlen q" using lt by simp
    note cbp = common_bits_props [OF m0 l0 cond p0 r_def]
    from cbp have r_ge: "i * 8 \<le> r" and r_lt: "r < i * 8 + 8" and r_le: "r \<le> prefixlen q"
      by simp_all
    from cbp have agree: "\<And>j. i * 8 + j < r \<Longrightarrow> \<not> bit diff (7 - j)"
      by simp
    from cbp have differ: "r < prefixlen q \<Longrightarrow> bit diff (7 - (r - i * 8))"
      by blast
    from r_ge r_lt have rdiv: "r div 8 = i" by simp
    from r_ge r_lt have rmod: "r mod 8 = r - i * 8"
      by (metis rdiv add_diff_cancel_left' mult.commute mult_div_mod_eq)
    have rm8: "r mod 8 < 8" by simp
    have gbyte: "\<And>j. byte_at (newp[i := byte]) j = (if j = i then byte else byte_at newp j)"
      using i15 len by (simp add: byte_at_update)
    have b: "\<And>k. k < r \<Longrightarrow> prefix_bit (newp[i := byte]) k = prefix_bit (u_prefix n) k \<and>
                          prefix_bit (u_prefix n) k = prefix_bit (u_prefix q) k"
    proof -
      fix k assume k: "k < r"
      show "prefix_bit (newp[i := byte]) k = prefix_bit (u_prefix n) k \<and>
                          prefix_bit (u_prefix n) k = prefix_bit (u_prefix q) k"
      proof (cases "k div 8 < i")
        case True
        then show ?thesis by (simp add: prefix_bit_def gbyte new_lt eqb)
      next
        case False
        with k r_lt have kd: "k div 8 = i" by simp
        then have km: "k = i * 8 + k mod 8" by (metis mult.commute mult_div_mod_eq)
        with k have "i * 8 + k mod 8 < r" by simp
        from agree [OF this] have "bit (byte_at (u_prefix n) i) (7 - k mod 8) =
            bit (byte_at (u_prefix q) i) (7 - k mod 8)"
          by (simp add: diff_def bit_xor_iff)
        moreover have "k mod 8 < r mod 8" using km k rmod by linarith
        then have "bit (maskbit ! (r mod 8)) (7 - k mod 8)"
          using maskbit_bit [OF rm8, of "7 - k mod 8"] by simp
        ultimately show ?thesis
          unfolding prefix_bit_def gbyte kd by (simp add: byte_def bit_and_iff)
      qed
    qed
    have c: "r < prefixlen q \<Longrightarrow> prefix_bit (u_prefix n) r \<noteq> prefix_bit (u_prefix q) r"
      using differ by (simp add: prefix_bit_def rdiv rmod diff_def bit_xor_iff)
    have d: "\<And>k. r \<le> k \<Longrightarrow> \<not> prefix_bit (newp[i := byte]) k"
    proof -
      fix k assume k: "r \<le> k"
      show "\<not> prefix_bit (newp[i := byte]) k"
      proof (cases "k div 8 = i")
        case True
        then have km: "k = i * 8 + k mod 8" by (metis mult.commute mult_div_mod_eq)
        with k rmod r_ge have "r mod 8 \<le> k mod 8" by linarith
        then have "\<not> bit (maskbit ! (r mod 8)) (7 - k mod 8)"
          using maskbit_bit [OF rm8, of "7 - k mod 8"] by simp
        then show ?thesis unfolding prefix_bit_def gbyte True by (simp add: byte_def bit_and_iff)
      next
        case False
        from k r_ge have "i * 8 \<le> k" by simp
        then have "i \<le> k div 8" by simp
        with False have "i < k div 8" by simp
        then show ?thesis by (simp add: prefix_bit_def gbyte new_ge)
      qed
    qed
    from r_le b c d len show ?thesis
      unfolding g by simp
  qed
qed

lemma prefix_match_iff:
  "prefix_match n q =
     (prefixlen n \<le> prefixlen q \<and>
      (\<forall>i<prefixlen n. prefix_bit (u_prefix n) i = prefix_bit (u_prefix q) i))"
  by (auto simp: prefix_match_def list_all_iff)

lemma prefix_check_iff:
  "prefix_check q =
     (\<forall>i. prefixlen q \<le> i \<and> i < 8 * length (u_prefix q) \<longrightarrow> \<not> prefix_bit (u_prefix q) i)"
  by (auto simp: prefix_check_def list_all_iff)

text \<open>
  C6.  \<^verbatim>\<open>route_common(n, p, new)\<close> bounds its loops by \<^verbatim>\<open>p->prefixlen\<close> alone, so the
  resulting length is capped by the length of the second argument, not by the minimum of
  both: for \<open>10.0.0.0/8\<close> and \<open>10.0.0.0/16\<close> the result has length 16.
\<close>

theorem route_common_min_counterexample:
  "valid_prefix (ip4 10 0 0 0 8) \<and> prefix_check (ip4 10 0 0 0 8) \<and>
   valid_prefix (ip4 10 0 0 0 16) \<and> prefix_check (ip4 10 0 0 0 16) \<and>
   \<not> prefixlen (route_common (ip4 10 0 0 0 8) (ip4 10 0 0 0 16) zero_prefix)
       \<le> min (prefixlen (ip4 10 0 0 0 8)) (prefixlen (ip4 10 0 0 0 16))"
proof -
  have "prefixlen (route_common (ip4 10 0 0 0 8) (ip4 10 0 0 0 16) zero_prefix) = 16"
    by (simp add: route_common_def ip4_def zero_prefix_def common_bytes.simps byte_at_def)
  moreover have "prefix_check (ip4 10 0 0 0 8)" "prefix_check (ip4 10 0 0 0 16)"
    by (simp_all add: prefix_check_def ip4_def prefix_bit_def byte_at_def upt_rec)
  ultimately show ?thesis
    by (simp add: valid_prefix_def ip4_def)
qed

text \<open>
  C6, as the code has it.  For valid prefixes \<open>a\<close> and \<open>b\<close> and a zeroed destination,
  the result \<open>c\<close> of \<^verbatim>\<open>route_common(a, b, c)\<close> is no longer than \<open>b\<close> and covers \<open>b\<close>;
  it agrees with \<open>a\<close> on every bit below its length, and where it is shorter than \<open>b\<close>
  the two inputs differ at the bit just after it, so it is their longest common prefix;
  when \<open>a\<close> does not cover \<open>b\<close> (the only case in which \<^verbatim>\<open>bgp_node_get\<close> calls it) it
  is also shorter than \<open>a\<close>, hence capped at the minimum of both lengths, and covers
  \<open>a\<close>; every bit of \<open>c\<close> at or beyond its length is zero; equal inputs give back their
  own length.
\<close>

theorem route_common_longest_common_prefix:
  assumes "valid_prefix a" and "valid_prefix b"
  shows "prefixlen (route_common a b zero_prefix) \<le> prefixlen b \<and>
         prefix_match (route_common a b zero_prefix) b \<and>
         (\<forall>k<prefixlen (route_common a b zero_prefix).
            prefix_bit (u_prefix (route_common a b zero_prefix)) k = prefix_bit (u_prefix a) k) \<and>
         (prefixlen (route_common a b zero_prefix) < prefixlen b \<longrightarrow>
            prefix_bit (u_prefix a) (prefixlen (route_common a b zero_prefix))
              \<noteq> prefix_bit (u_prefix b) (prefixlen (route_common a b zero_prefix))) \<and>
         (\<not> prefix_match a b \<longrightarrow>
            prefixlen (route_common a b zero_prefix) < prefixlen a \<and>
            prefixlen (route_common a b zero_prefix) \<le> min (prefixlen a) (prefixlen b) \<and>
            prefix_match (route_common a b zero_prefix) a) \<and>
         prefix_check (route_common a b zero_prefix) \<and>
         prefixlen (route_common b b zero_prefix) = prefixlen b"
proof -
  define c where "c = route_common a b zero_prefix"
  from assms have b128: "prefixlen b \<le> 128" by (simp add: valid_prefix_def)
  note P = route_common_props [OF b128, of a, folded c_def]
  from P have le: "prefixlen c \<le> prefixlen b" by blast
  from P have agree: "\<And>k. k < prefixlen c \<Longrightarrow>
      prefix_bit (u_prefix c) k = prefix_bit (u_prefix a) k \<and>
      prefix_bit (u_prefix a) k = prefix_bit (u_prefix b) k" by blast
  from P have differ: "prefixlen c < prefixlen b \<longrightarrow>
      prefix_bit (u_prefix a) (prefixlen c) \<noteq> prefix_bit (u_prefix b) (prefixlen c)" by blast
  from P have zero: "\<And>k. prefixlen c \<le> k \<Longrightarrow> \<not> prefix_bit (u_prefix c) k" by blast
  have cb: "prefix_match c b"
    using le agree by (simp add: prefix_match_iff)
  have ag: "\<forall>k<prefixlen c. prefix_bit (u_prefix c) k = prefix_bit (u_prefix a) k"
    using agree by blast
  have short: "prefixlen c < prefixlen a" if nm: "\<not> prefix_match a b"
  proof (cases "prefixlen a \<le> prefixlen b")
    case True
    with nm obtain j where j: "j < prefixlen a"
      "prefix_bit (u_prefix a) j \<noteq> prefix_bit (u_prefix b) j"
      by (auto simp: prefix_match_iff)
    with agree [of j] have "\<not> j < prefixlen c" by blast
    with j show ?thesis by simp
  next
    case False
    with le show ?thesis by simp
  qed
  have nm: "\<not> prefix_match a b \<longrightarrow>
      prefixlen c < prefixlen a \<and> prefixlen c \<le> min (prefixlen a) (prefixlen b) \<and>
      prefix_match c a"
  proof
    assume n: "\<not> prefix_match a b"
    from short [OF n] have lt: "prefixlen c < prefixlen a" .
    with ag have "prefix_match c a" by (simp add: prefix_match_iff)
    with lt le show "prefixlen c < prefixlen a \<and>
      prefixlen c \<le> min (prefixlen a) (prefixlen b) \<and> prefix_match c a" by simp
  qed
  have chk: "prefix_check c"
    using zero by (simp add: prefix_check_iff)
  have same: "prefixlen (route_common b b zero_prefix) = prefixlen b"
    using route_common_props [OF b128, of b] by (meson le_neq_implies_less)
  from le cb ag differ nm chk same show ?thesis
    unfolding c_def by blast
qed

theorem route_common_longest_common_prefix_witness:
  "valid_prefix (ip4 10 0 0 0 8) \<and> valid_prefix (ip4 11 0 0 0 8) \<and>
   \<not> prefix_match (ip4 10 0 0 0 8) (ip4 11 0 0 0 8) \<and>
   prefixlen (route_common (ip4 10 0 0 0 8) (ip4 11 0 0 0 8) zero_prefix) = 7 \<and>
   prefixlen (route_common (ip4 10 0 0 0 8) (ip4 11 0 0 0 8) zero_prefix)
     \<le> min (prefixlen (ip4 10 0 0 0 8)) (prefixlen (ip4 11 0 0 0 8)) \<and>
   prefix_match (route_common (ip4 10 0 0 0 8) (ip4 11 0 0 0 8) zero_prefix) (ip4 10 0 0 0 8) \<and>
   prefix_match (route_common (ip4 10 0 0 0 8) (ip4 11 0 0 0 8) zero_prefix) (ip4 11 0 0 0 8) \<and>
   prefix_bit (u_prefix (ip4 10 0 0 0 8)) 7 \<noteq> prefix_bit (u_prefix (ip4 11 0 0 0 8)) 7 \<and>
   prefix_check (route_common (ip4 10 0 0 0 8) (ip4 11 0 0 0 8) zero_prefix) \<and>
   prefixlen (route_common (ip4 11 0 0 0 8) (ip4 11 0 0 0 8) zero_prefix) = 8"
proof -
  have v: "valid_prefix (ip4 10 0 0 0 8)" "valid_prefix (ip4 11 0 0 0 8)"
    by (simp_all add: valid_prefix_def ip4_def)
  have nm: "\<not> prefix_match (ip4 10 0 0 0 8) (ip4 11 0 0 0 8)"
    by (simp add: prefix_match_def ip4_def prefix_bit_def byte_at_def upt_rec)
  have len: "prefixlen (route_common (ip4 10 0 0 0 8) (ip4 11 0 0 0 8) zero_prefix) = 7"
    by (simp add: route_common_def ip4_def zero_prefix_def common_bytes.simps
        common_bits.simps byte_at_def maskbit_def)
  have l8: "prefixlen (ip4 11 0 0 0 8) = 8" "prefixlen (ip4 10 0 0 0 8) = 8"
    by (simp_all add: ip4_def)
  from route_common_longest_common_prefix [OF v] nm v len l8
  show ?thesis by simp
qed

section \<open>The trie below a pointer\<close>

lemma prefix_match_trans:
  "prefix_match a b \<Longrightarrow> prefix_match b c \<Longrightarrow> prefix_match a c"
  by (auto simp: prefix_match_iff)

lemma prefix_match_shorter:
  "prefix_match a q \<Longrightarrow> prefix_match b q \<Longrightarrow> prefixlen a \<le> prefixlen b \<Longrightarrow> prefix_match a b"
  by (auto simp: prefix_match_iff)

lemma child_ok_trans:
  "child_ok n side m \<Longrightarrow> child_ok m side' k \<Longrightarrow> child_ok n side k"
  by (auto simp: child_ok_def prefix_match_iff)

lemma root_of_simps [simp]:
  "root_of Leaf = None" "root_of (Node l a r) = Some a"
  by (simp_all add: root_of_def)

lemma heap_tree_root: "heap_tree h par x t \<Longrightarrow> x = root_of t"
  by (cases t) auto

lemma heap_tree_NodeD:
  "heap_tree h par x (Node l a r) \<Longrightarrow>
     x = Some a \<and> (\<exists>n. h a = Some n \<and> parent n = par \<and>
        heap_tree h (Some a) (l_left n) l \<and> heap_tree h (Some a) (l_right n) r \<and>
        l_left n = root_of l \<and> l_right n = root_of r)"
  by (auto split: option.splits dest: heap_tree_root)

lemma heap_tree_valid: "heap_tree h par x t \<Longrightarrow> a \<in> set_tree t \<Longrightarrow> \<exists>n. h a = Some n"
  by (induction t arbitrary: par x) (auto split: option.splits)

lemma under_tree:
  "heap_tree h par x t \<Longrightarrow> trie_ok h t \<Longrightarrow> h a = Some n \<Longrightarrow> edge_ok h a side (root_of t) \<Longrightarrow>
   under h n side t"
proof (induction t arbitrary: par x a n side)
  case Leaf
  then show ?case by (simp add: under_def)
next
  case (Node l b r)
  from Node.prems(1) obtain m where m: "h b = Some m"
    "heap_tree h (Some b) (l_left m) l" "heap_tree h (Some b) (l_right m) r"
    by (auto split: option.splits)
  from Node.prems(3,4) m have nm: "child_ok n side m" by (simp add: edge_ok_def)
  from Node.prems(2) have ok: "trie_ok h l" "trie_ok h r"
    "edge_ok h b False (root_of l)" "edge_ok h b True (root_of r)" by simp_all
  have ul: "under h m False l" by (rule Node.IH(1) [OF m(2) ok(1) m(1) ok(3)])
  have ur: "under h m True r" by (rule Node.IH(2) [OF m(3) ok(2) m(1) ok(4)])
  show ?case
    unfolding under_def
  proof
    fix c assume "c \<in> set_tree (Node l b r)"
    then consider "c = b" | "c \<in> set_tree l" | "c \<in> set_tree r" by auto
    then show "\<exists>k. h c = Some k \<and> child_ok n side k"
    proof cases
      case 1 with m nm show ?thesis by simp
    next
      case 2
      with ul obtain k where "h c = Some k" "child_ok m False k" by (auto simp: under_def)
      with nm show ?thesis by (auto intro: child_ok_trans)
    next
      case 3
      with ur obtain k where "h c = Some k" "child_ok m True k" by (auto simp: under_def)
      with nm show ?thesis by (auto intro: child_ok_trans)
    qed
  qed
qed

lemma under_children:
  assumes "heap_tree h par x (Node l a r)" "trie_ok h (Node l a r)" "h a = Some n"
  shows "under h n False l" "under h n True r"
proof -
  from assms(1,3) have t: "heap_tree h (Some a) (l_left n) l" "heap_tree h (Some a) (l_right n) r"
    by auto
  from assms(2) have ok: "trie_ok h l" "trie_ok h r"
    "edge_ok h a False (root_of l)" "edge_ok h a True (root_of r)" by simp_all
  show "under h n False l" by (rule under_tree [OF t(1) ok(1) assms(3) ok(3)])
  show "under h n True r" by (rule under_tree [OF t(2) ok(2) assms(3) ok(4)])
qed

text \<open>A node below \<open>n\<close> that covers the query: \<open>n\<close> covers the query, and the node is on the
  side the query's bit selects.\<close>

lemma under_covers:
  assumes "child_ok n side m" "prefix_match (pfx m) q"
  shows "prefix_match (pfx n) q" "prefix_bit (u_prefix q) (prefixlen (pfx n)) = side"
  using assms by (auto simp: child_ok_def prefix_match_iff)

lemma match_walk_tree:
  "heap_tree h par x t \<Longrightarrow> trie_ok h t \<Longrightarrow>
   \<exists>r. match_walk h q x matched = Some (Inr r) \<and> best h q (set_tree t) matched r"
proof (induction t arbitrary: par x matched)
  case Leaf
  then show ?case by (simp add: match_walk.simps best_def)
next
  case (Node l a r)
  from heap_tree_NodeD [OF Node.prems(1)] obtain n where x: "x = Some a" and n: "h a = Some n"
    and tl: "heap_tree h (Some a) (l_left n) l" and tr: "heap_tree h (Some a) (l_right n) r"
    by blast
  from Node.prems(2) have ok: "trie_ok h l" "trie_ok h r" by simp_all
  note u = under_children [OF Node.prems(1,2) n]
  show ?case
  proof (cases "prefix_match (pfx n) q")
    case False
    have none: "\<not> (\<exists>c\<in>set_tree (Node l a r). covering h q c)"
    proof
      assume "\<exists>c\<in>set_tree (Node l a r). covering h q c"
      then obtain c where c: "c \<in> set_tree (Node l a r)" "covering h q c" by blast
      from c(1) consider "c = a" | "c \<in> set_tree l" | "c \<in> set_tree r" by auto
      then show False
      proof cases
        case 1 with c(2) n False show False by (simp add: covering_def)
      next
        case 2
        with u(1) obtain m where "h c = Some m" "child_ok n False m" by (auto simp: under_def)
        with c(2) False show False by (auto simp: covering_def dest: under_covers(1))
      next
        case 3
        with u(2) obtain m where "h c = Some m" "child_ok n True m" by (auto simp: under_def)
        with c(2) False show False by (auto simp: covering_def dest: under_covers(1))
      qed
    qed
    have "match_walk h q x matched = Some (Inr matched)"
      using x n False by (subst match_walk.simps) simp
    with none show ?thesis by (simp add: best_def)
  next
    case True
    define side where "side = prefix_bit (u_prefix q) (prefixlen (pfx n))"
    define m' where "m' = (if info n \<noteq> None then Some a else matched)"
    define ts where "ts = (if side then r else l)"
    have step: "match_walk h q x matched = match_walk h q (link n side) m'"
      using x n True by (subst match_walk.simps) (simp add: prefix_match_iff side_def m'_def)
    have ht: "heap_tree h (Some a) (link n side) ts" and oks: "trie_ok h ts"
      using tl tr ok by (auto simp: link_def ts_def)
    from Node.IH(1) [OF tl ok(1), of "m'"] Node.IH(2) [OF tr ok(2), of "m'"]
    obtain r' where r': "match_walk h q (link n side) m' = Some (Inr r')"
      "best h q (set_tree ts) m' r'"
      by (cases side) (auto simp: link_def ts_def)
    have other: "\<not> covering h q c" if "c \<in> set_tree (if side then l else r)" for c
    proof
      assume cov: "covering h q c"
      from that u obtain m where m: "h c = Some m" "child_ok n (\<not> side) m"
        by (cases side) (auto simp: under_def)
      from cov m have "prefix_match (pfx m) q" by (simp add: covering_def)
      from under_covers(2) [OF m(2) this] show False by (simp add: side_def)
    qed
    have lens: "plen_at h a < plen_at h c" if "c \<in> set_tree ts" for c
      using that u n by (cases side) (auto simp: under_def ts_def plen_at_def child_ok_def)
    have cov_a: "covering h q a = (info n \<noteq> None)"
      using n True by (simp add: covering_def)
    have split: "set_tree (Node l a r) = insert a (set_tree ts \<union> set_tree (if side then l else r))"
      by (auto simp: ts_def)
    have "best h q (set_tree (Node l a r)) matched r'"
    proof (cases "\<exists>c\<in>set_tree ts. covering h q c")
      case True
      with r'(2) obtain c where c: "c \<in> set_tree ts" "r' = Some c" "covering h q c"
        "\<forall>d\<in>set_tree ts. covering h q d \<and> d \<noteq> c \<longrightarrow> plen_at h d < plen_at h c"
        by (auto simp: best_def)
      have "\<forall>d\<in>set_tree (Node l a r). covering h q d \<and> d \<noteq> c \<longrightarrow> plen_at h d < plen_at h c"
        unfolding split using c(4) other lens [OF c(1)] by auto
      moreover have "c \<in> set_tree (Node l a r)" using c(1) unfolding split by simp
      ultimately show ?thesis using c(2,3) unfolding best_def by auto
    next
      case False
      with r'(2) have r'm: "r' = m'" by (simp add: best_def)
      show ?thesis
      proof (cases "info n \<noteq> None")
        case True
        then have "r' = Some a" using r'm by (simp add: m'_def)
        moreover have "\<forall>d\<in>set_tree (Node l a r). covering h q d \<and> d \<noteq> a \<longrightarrow> plen_at h d < plen_at h a"
          unfolding split using False other by auto
        ultimately show ?thesis using True cov_a unfolding best_def by auto
      next
        case False2: False
        then have "r' = matched" using r'm by (simp add: m'_def)
        moreover have "\<not> (\<exists>c\<in>set_tree (Node l a r). covering h q c)"
          unfolding split using False other cov_a False2 by auto
        ultimately show ?thesis unfolding best_def by simp
      qed
    qed
    with step r'(1) show ?thesis by simp
  qed
qed

lemma heap_tree_child_in:
  "heap_tree h par x t \<Longrightarrow> a \<in> set_tree t \<Longrightarrow> h a = Some n \<Longrightarrow>
   l_left n = Some c \<or> l_right n = Some c \<Longrightarrow> c \<in> set_tree t"
proof (induction t arbitrary: par x)
  case Leaf
  then show ?case by simp
next
  case (Node l b r)
  from heap_tree_NodeD [OF Node.prems(1)] obtain m where m: "h b = Some m"
    "heap_tree h (Some b) (l_left m) l" "heap_tree h (Some b) (l_right m) r"
    "l_left m = root_of l" "l_right m = root_of r" by blast
  from Node.prems(2) consider "a = b" | "a \<in> set_tree l" | "a \<in> set_tree r" by auto
  then show ?case
  proof cases
    case 1
    with Node.prems(3,4) m have "root_of l = Some c \<or> root_of r = Some c" by auto
    then show ?thesis by (cases l; cases r) auto
  next
    case 2
    from Node.IH(1) [OF m(2) 2 Node.prems(3,4)] show ?thesis by simp
  next
    case 3
    from Node.IH(2) [OF m(3) 3 Node.prems(3,4)] show ?thesis by simp
  qed
qed

lemma reach_sub_tree:
  assumes "heap_tree h par x t" "a \<in> reach h x"
  shows "a \<in> set_tree t"
  using assms(2)
proof (induction rule: reach.induct)
  case (reach_root a)
  with assms(1) show ?case by (cases t) auto
next
  case (reach_left a n c)
  with heap_tree_child_in [OF assms(1)] show ?case by blast
next
  case (reach_right a n c)
  with heap_tree_child_in [OF assms(1)] show ?case by blast
qed

lemma tree_sub_reach:
  "heap_tree h par y t \<Longrightarrow> (\<forall>b. y = Some b \<longrightarrow> b \<in> reach h x) \<Longrightarrow> set_tree t \<subseteq> reach h x"
proof (induction t arbitrary: par y)
  case Leaf
  then show ?case by simp
next
  case (Node l b r)
  from heap_tree_NodeD [OF Node.prems(1)] obtain m where y: "y = Some b" and m: "h b = Some m"
    "heap_tree h (Some b) (l_left m) l" "heap_tree h (Some b) (l_right m) r" by blast
  from y Node.prems(2) have b: "b \<in> reach h x" by simp
  have "set_tree l \<subseteq> reach h x"
    by (rule Node.IH(1) [OF m(2)]) (auto intro: reach_left [OF b m(1)])
  moreover have "set_tree r \<subseteq> reach h x"
    by (rule Node.IH(2) [OF m(3)]) (auto intro: reach_right [OF b m(1)])
  ultimately show ?case using b by simp
qed

lemma reach_tree: "heap_tree h par x t \<Longrightarrow> reach h x = set_tree t"
  using reach_sub_tree [of h par x t] tree_sub_reach [of h par x t x]
  by (auto intro: reach_root)

lemma table_tree_reach: "table_tree s t \<Longrightarrow> reach (heap s) (t_top s) = set_tree t"
  by (auto simp: table_tree_def dest: reach_tree)

lemma bgp_lock_node_valid:
  "heap s a = Some n \<Longrightarrow>
   bgp_lock_node s a = Inr (s\<lparr>heap := (heap s)(a \<mapsto> n\<lparr>lock := lock n + 1\<rparr>)\<rparr>)"
  by (simp add: bgp_lock_node_def node_upd_def)

text \<open>
  C1.  On a well-formed table \<^verbatim>\<open>bgp_node_match\<close> returns, for every query prefix: it
  yields the state with one more lock on the node it returns.  The node returned is
  reachable from \<^verbatim>\<open>top\<close>, covers the query, has a payload, and its prefix is strictly
  longer than that of every other reachable node that covers the query and has a payload.
  It returns \<^verbatim>\<open>NULL\<close>, leaving the state as it was, exactly when no reachable node
  covering the query has a payload.
\<close>

theorem bgp_node_match_longest:
  assumes "table_ok s"
  shows "\<exists>r. bgp_node_match s q = Some (Inr (locked s r, r)) \<and>
           (case r of
              None \<Rightarrow> \<not> (\<exists>c\<in>reach (heap s) (t_top s). covering (heap s) q c)
            | Some a \<Rightarrow>
                a \<in> reach (heap s) (t_top s) \<and> covering (heap s) q a \<and>
                (\<forall>d\<in>reach (heap s) (t_top s).
                   covering (heap s) q d \<and> d \<noteq> a \<longrightarrow> plen_at (heap s) d < plen_at (heap s) a) \<and>
                (\<exists>n. heap s a = Some n \<and>
                     heap (locked s r) a = Some (n\<lparr>lock := lock n + 1\<rparr>)))"
proof -
  from assms obtain t where t: "table_tree s t" by (auto simp: table_ok_def)
  then have ht: "heap_tree (heap s) None (t_top s) t" and ok: "trie_ok (heap s) t"
    by (simp_all add: table_tree_def)
  note R = table_tree_reach [OF t]
  from match_walk_tree [OF ht ok, of q None] obtain r where
    w: "match_walk (heap s) q (t_top s) None = Some (Inr r)" and
    b: "best (heap s) q (set_tree t) None r" by blast
  show ?thesis
  proof (cases r)
    case None
    with b have "\<not> (\<exists>c\<in>set_tree t. covering (heap s) q c)"
      by (auto simp: best_def split: if_splits)
    moreover have "bgp_node_match s q = Some (Inr (locked s None, None))"
      using w None by (simp add: bgp_node_match_def locked_def)
    ultimately show ?thesis unfolding R by (intro exI [of _ None]) simp
  next
    case (Some a)
    with b have a: "a \<in> set_tree t" "covering (heap s) q a"
      "\<forall>d\<in>set_tree t. covering (heap s) q d \<and> d \<noteq> a \<longrightarrow> plen_at (heap s) d < plen_at (heap s) a"
      by (auto simp: best_def split: if_splits)
    from heap_tree_valid [OF ht a(1)] obtain n where n: "heap s a = Some n" by blast
    have "bgp_node_match s q = Some (Inr (locked s (Some a), Some a))"
      using w Some n by (simp add: bgp_node_match_def locked_def bgp_lock_node_def)
    moreover have "heap (locked s (Some a)) a = Some (n\<lparr>lock := lock n + 1\<rparr>)"
      using n by (simp add: locked_def node_upd_def)
    ultimately show ?thesis using a n unfolding R by (intro exI [of _ "Some a"]) simp
  qed
qed

lemma lookup_walk_tree:
  "heap_tree h par x t \<Longrightarrow> trie_ok h t \<Longrightarrow>
   \<exists>r. lookup_walk h q x = Some (Inr r) \<and>
       (case r of None \<Rightarrow> \<forall>c\<in>set_tree t. \<not> exact h q c
        | Some a \<Rightarrow> a \<in> set_tree t \<and> exact h q a)"
proof (induction t arbitrary: par x)
  case Leaf
  then show ?case by (simp add: lookup_walk.simps)
next
  case (Node l a r)
  from heap_tree_NodeD [OF Node.prems(1)] obtain n where x: "x = Some a" and n: "h a = Some n"
    and tl: "heap_tree h (Some a) (l_left n) l" and tr: "heap_tree h (Some a) (l_right n) r"
    by blast
  from Node.prems(2) have ok: "trie_ok h l" "trie_ok h r" by simp_all
  note u = under_children [OF Node.prems(1,2) n]
  have below: "\<not> exact h q c" if "c \<in> set_tree (if side then r else l)"
    "\<not> prefix_match (pfx n) q \<or> prefix_bit (u_prefix q) (prefixlen (pfx n)) \<noteq> side" for c side
  proof
    assume e: "exact h q c"
    from that(1) u obtain m where m: "h c = Some m" "child_ok n side m"
      by (cases side) (auto simp: under_def)
    from e m have "prefix_match (pfx m) q" by (simp add: exact_def)
    from under_covers [OF m(2) this] that(2) show False by simp
  qed
  show ?case
  proof (cases "prefix_match (pfx n) q")
    case False
    have "lookup_walk h q x = Some (Inr None)"
      using x n False by (subst lookup_walk.simps) simp
    moreover have "\<forall>c\<in>set_tree (Node l a r). \<not> exact h q c"
      using below [of _ True] below [of _ False] False n by (auto simp: exact_def)
    ultimately show ?thesis by simp
  next
    case True
    note pm = True
    show ?thesis
    proof (cases "prefixlen (pfx n) = prefixlen q \<and> info n \<noteq> None")
      case True
      have "lookup_walk h q x = Some (Inr (Some a))"
        using x n pm True by (subst lookup_walk.simps) (simp add: prefix_match_iff)
      moreover have "exact h q a" using n pm True by (simp add: exact_def)
      ultimately show ?thesis by simp
    next
      case False
      define side where "side = prefix_bit (u_prefix q) (prefixlen (pfx n))"
      define ts where "ts = (if side then r else l)"
      have step: "lookup_walk h q x = lookup_walk h q (link n side)"
        using x n pm False by (subst lookup_walk.simps) (auto simp: prefix_match_iff side_def)
      have "\<exists>r'. lookup_walk h q (link n side) = Some (Inr r') \<and>
        (case r' of None \<Rightarrow> \<forall>c\<in>set_tree ts. \<not> exact h q c
         | Some a \<Rightarrow> a \<in> set_tree ts \<and> exact h q a)"
      proof (cases side)
        case True
        then have e: "ts = r" "link n side = l_right n" by (simp_all add: link_def ts_def)
        show ?thesis unfolding e by (rule Node.IH(2) [OF tr ok(2)])
      next
        case False
        then have e: "ts = l" "link n side = l_left n" by (simp_all add: link_def ts_def)
        show ?thesis unfolding e by (rule Node.IH(1) [OF tl ok(1)])
      qed
      then obtain r' where r': "lookup_walk h q (link n side) = Some (Inr r')"
        "case r' of None \<Rightarrow> \<forall>c\<in>set_tree ts. \<not> exact h q c
         | Some a \<Rightarrow> a \<in> set_tree ts \<and> exact h q a"
        by blast
      have na: "\<not> exact h q a" using n False by (auto simp: exact_def)
      have other: "\<forall>c\<in>set_tree (if \<not> side then r else l). \<not> exact h q c"
        using below [of _ "\<not> side"] by (auto simp: side_def)
      have split: "set_tree (Node l a r) = insert a (set_tree ts \<union> set_tree (if \<not> side then r else l))"
        by (auto simp: ts_def)
      have "case r' of None \<Rightarrow> \<forall>c\<in>set_tree (Node l a r). \<not> exact h q c
         | Some a' \<Rightarrow> a' \<in> set_tree (Node l a r) \<and> exact h q a'"
        unfolding split using r'(2) na other by (auto split: option.splits)
      with step r'(1) show ?thesis by simp
    qed
  qed
qed

lemma bytes_eq_of_bits:
  assumes len: "length xs = length ys"
    and bits: "\<And>i. i < 8 * length xs \<Longrightarrow> prefix_bit xs i = prefix_bit ys i"
  shows "xs = ys"
proof (rule nth_equalityI [OF len])
  fix j assume j: "j < length xs"
  show "xs ! j = ys ! j"
  proof (rule bit_word_eqI)
    fix k assume "k < LENGTH(8)"
    then have k: "k < 8" by simp
    define m where "m = 7 - k"
    define i where "i = 8 * j + m"
    have m: "m < 8" "7 - m = k" using k by (simp_all add: m_def)
    have d: "i div 8 = j" "i mod 8 = m" using m(1) by (simp_all add: i_def)
    have "i < 8 * length xs" using j m(1) by (simp add: i_def)
    from bits [OF this] show "bit (xs ! j) k = bit (ys ! j) k"
      using j len unfolding prefix_bit_def d m(2) byte_at_def by simp
  qed
qed

text \<open>
  C5.  On a well-formed table \<^verbatim>\<open>bgp_node_lookup\<close> returns, for every prefix: it yields
  a node, with one lock added, if and only if some reachable node covers the prefix, has
  the prefix's length and has a payload; otherwise it yields \<^verbatim>\<open>NULL\<close> and the state
  as it was.  The node returned has the length of the input and the same bits up to that
  length; when both prefixes are canonical, of one family and one size, the node's prefix
  is the input.
\<close>

theorem bgp_node_lookup_exact:
  assumes "table_ok s"
  shows "\<exists>r. bgp_node_lookup s q = Some (Inr (locked s r, r)) \<and>
           ((r \<noteq> None) = (\<exists>c\<in>reach (heap s) (t_top s). exact (heap s) q c)) \<and>
           (case r of
              None \<Rightarrow> True
            | Some a \<Rightarrow>
               (\<exists>n. heap s a = Some n \<and> a \<in> reach (heap s) (t_top s) \<and>
                    heap (locked s r) a = Some (n\<lparr>lock := lock n + 1\<rparr>) \<and>
                    info n \<noteq> None \<and> prefixlen (pfx n) = prefixlen q \<and>
                    prefix_match (pfx n) q \<and> prefix_match q (pfx n) \<and>
                    (prefix_check (pfx n) \<and> prefix_check q \<and>
                     length (u_prefix (pfx n)) = length (u_prefix q) \<and>
                     family (pfx n) = family q \<longrightarrow> pfx n = q)))"
proof -
  from assms obtain t where t: "table_tree s t" by (auto simp: table_ok_def)
  then have ht: "heap_tree (heap s) None (t_top s) t" and ok: "trie_ok (heap s) t"
    by (simp_all add: table_tree_def)
  note R = table_tree_reach [OF t]
  from lookup_walk_tree [OF ht ok, of q] obtain r where
    w: "lookup_walk (heap s) q (t_top s) = Some (Inr r)" and
    b: "case r of None \<Rightarrow> \<forall>c\<in>set_tree t. \<not> exact (heap s) q c
        | Some a \<Rightarrow> a \<in> set_tree t \<and> exact (heap s) q a" by blast
  show ?thesis
  proof (cases r)
    case None
    with b have "\<not> (\<exists>c\<in>set_tree t. exact (heap s) q c)" by simp
    moreover have "bgp_node_lookup s q = Some (Inr (locked s None, None))"
      using w None by (simp add: bgp_node_lookup_def locked_def)
    ultimately show ?thesis unfolding R by (intro exI [of _ None]) simp
  next
    case (Some a)
    with b have a: "a \<in> set_tree t" "exact (heap s) q a" by simp_all
    then obtain n where n: "heap s a = Some n" "prefix_match (pfx n) q"
      "prefixlen (pfx n) = prefixlen q" "info n \<noteq> None"
      by (auto simp: exact_def split: option.splits)
    have run: "bgp_node_lookup s q = Some (Inr (locked s (Some a), Some a))"
      using w Some n by (simp add: bgp_node_lookup_def locked_def bgp_lock_node_def)
    have lk: "heap (locked s (Some a)) a = Some (n\<lparr>lock := lock n + 1\<rparr>)"
      using n by (simp add: locked_def node_upd_def)
    have bk: "prefix_match q (pfx n)" using n(2,3) by (simp add: prefix_match_iff)
    have eq: "prefix_check (pfx n) \<and> prefix_check q \<and>
                     length (u_prefix (pfx n)) = length (u_prefix q) \<and>
                     family (pfx n) = family q \<longrightarrow> pfx n = q"
    proof (intro impI, elim conjE)
      assume c: "prefix_check (pfx n)" "prefix_check q"
        "length (u_prefix (pfx n)) = length (u_prefix q)" "family (pfx n) = family q"
      have "prefix_bit (u_prefix (pfx n)) i = prefix_bit (u_prefix q) i"
        if "i < 8 * length (u_prefix (pfx n))" for i
      proof (cases "i < prefixlen q")
        case True
        with n(2,3) show ?thesis by (simp add: prefix_match_iff)
      next
        case False
        with c(1,2,3) n(3) that show ?thesis by (simp add: prefix_check_iff)
      qed
      from bytes_eq_of_bits [OF c(3) this] have "u_prefix (pfx n) = u_prefix q" .
      with n(3) c(4) show "pfx n = q" by simp
    qed
    have "\<exists>c\<in>set_tree t. exact (heap s) q c" using a by blast
    moreover have "\<exists>n. heap s a = Some n \<and> a \<in> set_tree t \<and>
                    heap (locked s (Some a)) a = Some (n\<lparr>lock := lock n + 1\<rparr>) \<and>
                    info n \<noteq> None \<and> prefixlen (pfx n) = prefixlen q \<and>
                    prefix_match (pfx n) q \<and> prefix_match q (pfx n) \<and>
                    (prefix_check (pfx n) \<and> prefix_check q \<and>
                     length (u_prefix (pfx n)) = length (u_prefix q) \<and>
                     family (pfx n) = family q \<longrightarrow> pfx n = q)"
      using n lk a(1) bk eq by blast
    ultimately show ?thesis
      using run unfolding R Some by (intro exI [of _ "Some a"]) simp
  qed
qed


lemma ex_table_tree: "table_tree ex_table (Node (Node Leaf 1 Leaf) 0 Leaf)"
  by (simp add: table_tree_def ex_table_def ex_node_def edge_ok_def child_ok_def pool_ok_def
      ip4_def prefix_match_def prefix_bit_def byte_at_def upt_rec)

lemma ex_table_ok: "table_ok ex_table"
  unfolding table_ok_def using ex_table_tree by blast

theorem bgp_node_match_longest_witness:
  "table_ok ex_table \<and>
   bgp_node_match ex_table (ip4 10 1 2 3 32) = Some (Inr (locked ex_table (Some 1), Some 1)) \<and>
   1 \<in> reach (heap ex_table) (t_top ex_table) \<and>
   covering (heap ex_table) (ip4 10 1 2 3 32) 1 \<and>
   covering (heap ex_table) (ip4 10 1 2 3 32) 0 \<and>
   plen_at (heap ex_table) 0 < plen_at (heap ex_table) 1"
proof -
  have run: "bgp_node_match ex_table (ip4 10 1 2 3 32) = Some (Inr (locked ex_table (Some 1), Some 1))"
    by (simp add: bgp_node_match_def match_walk.simps ex_table_def ex_node_def link_def
        bgp_lock_node_def locked_def ip4_def prefix_match_def prefix_bit_def byte_at_def upt_rec)
  have c0: "covering (heap ex_table) (ip4 10 1 2 3 32) 0"
    by (simp add: covering_def ex_table_def ex_node_def ip4_def prefix_match_def prefix_bit_def
        byte_at_def upt_rec)
  from bgp_node_match_longest [OF ex_table_ok, of "ip4 10 1 2 3 32"] run
  have "1 \<in> reach (heap ex_table) (t_top ex_table) \<and> covering (heap ex_table) (ip4 10 1 2 3 32) 1 \<and>
        (\<forall>d\<in>reach (heap ex_table) (t_top ex_table).
            covering (heap ex_table) (ip4 10 1 2 3 32) d \<and> d \<noteq> 1 \<longrightarrow>
            plen_at (heap ex_table) d < plen_at (heap ex_table) 1)"
    by auto
  moreover have "0 \<in> reach (heap ex_table) (t_top ex_table)"
    by (rule reach_root) (simp add: ex_table_def)
  ultimately show ?thesis using run c0 ex_table_ok by auto
qed

theorem bgp_node_lookup_exact_witness:
  "table_ok ex_table \<and>
   bgp_node_lookup ex_table (ip4 10 1 0 0 16) = Some (Inr (locked ex_table (Some 1), Some 1)) \<and>
   1 \<in> reach (heap ex_table) (t_top ex_table) \<and>
   exact (heap ex_table) (ip4 10 1 0 0 16) 1 \<and>
   prefix_check (ip4 10 1 0 0 16) \<and>
   map_option pfx (heap ex_table 1) = Some (ip4 10 1 0 0 16)"
proof -
  have run: "bgp_node_lookup ex_table (ip4 10 1 0 0 16) = Some (Inr (locked ex_table (Some 1), Some 1))"
    by (simp add: bgp_node_lookup_def lookup_walk.simps ex_table_def ex_node_def link_def
        bgp_lock_node_def locked_def ip4_def prefix_match_def prefix_bit_def byte_at_def upt_rec)
  have chk: "prefix_check (ip4 10 1 0 0 16)"
    by (simp add: prefix_check_def ip4_def prefix_bit_def byte_at_def upt_rec)
  have h1: "heap ex_table 1 = Some (ex_node (ip4 10 1 0 0 16) (Some 0) None None 1 (Some 2))"
    by (simp add: ex_table_def)
  from bgp_node_lookup_exact [OF ex_table_ok, of "ip4 10 1 0 0 16"] run
  have "(\<exists>c\<in>reach (heap ex_table) (t_top ex_table). exact (heap ex_table) (ip4 10 1 0 0 16) c) \<and>
        1 \<in> reach (heap ex_table) (t_top ex_table) \<and>
        (\<exists>n. heap ex_table 1 = Some n \<and> (prefix_check (pfx n) \<and> prefix_check (ip4 10 1 0 0 16) \<and>
                     length (u_prefix (pfx n)) = length (u_prefix (ip4 10 1 0 0 16)) \<and>
                     family (pfx n) = family (ip4 10 1 0 0 16) \<longrightarrow> pfx n = ip4 10 1 0 0 16))"
    by auto
  moreover have "exact (heap ex_table) (ip4 10 1 0 0 16) 1"
    by (simp add: exact_def ex_table_def ex_node_def ip4_def prefix_match_def upt_rec)
  ultimately show ?thesis using run chk ex_table_ok h1 by (auto simp: ex_node_def)
qed

text \<open>
  The node returned need not carry the input prefix: \<^verbatim>\<open>prefix_match\<close> compares the bits
  below the length only, so the lookup of \<open>10.1.2.3/16\<close> returns the node of
  \<open>10.1.0.0/16\<close>.
\<close>

theorem bgp_node_lookup_prefix_counterexample:
  "table_ok ex_table \<and>
   bgp_node_lookup ex_table (ip4 10 1 2 3 16) = Some (Inr (locked ex_table (Some 1), Some 1)) \<and>
   map_option pfx (heap (locked ex_table (Some 1)) 1) = Some (ip4 10 1 0 0 16) \<and>
   ip4 10 1 0 0 16 \<noteq> ip4 10 1 2 3 16"
proof -
  have run: "bgp_node_lookup ex_table (ip4 10 1 2 3 16) = Some (Inr (locked ex_table (Some 1), Some 1))"
    by (simp add: bgp_node_lookup_def lookup_walk.simps ex_table_def ex_node_def link_def
        bgp_lock_node_def locked_def ip4_def prefix_match_def prefix_bit_def byte_at_def upt_rec)
  have p: "map_option pfx (heap (locked ex_table (Some 1)) 1) = Some (ip4 10 1 0 0 16)"
    by (simp add: locked_def node_upd_def ex_table_def ex_node_def)
  have ne: "ip4 10 1 0 0 16 \<noteq> ip4 10 1 2 3 16" by (simp add: ip4_def)
  from ex_table_ok run p ne show ?thesis by blast
qed

lemma lock_only_locked:
  "valid_ptr s r \<Longrightarrow> lock_only s (locked s r) r"
  by (cases r) (auto simp: lock_only_def locked_def node_upd_def valid_ptr_def split: option.splits)

lemma bgp_node_match_locked:
  assumes "bgp_node_match s q = Some (Inr (s', r))"
  shows "s' = locked s r \<and> valid_ptr s r"
  using assms
  by (auto simp: bgp_node_match_def bgp_lock_node_def locked_def valid_ptr_def
      split: option.splits sum.splits if_splits)

lemma bgp_node_lookup_locked:
  assumes "bgp_node_lookup s q = Some (Inr (s', r))"
  shows "s' = locked s r \<and> valid_ptr s r"
  using assms
  by (auto simp: bgp_node_lookup_def bgp_lock_node_def locked_def valid_ptr_def
      split: option.splits sum.splits if_splits)

text \<open>
  C9.  Whenever \<^verbatim>\<open>bgp_node_lookup\<close>, \<^verbatim>\<open>bgp_node_match\<close> or one of its address
  variants returns, the table is as before (\<^verbatim>\<open>top\<close>, \<^verbatim>\<open>count\<close>, the pool, and the
  prefix, parent, children, payload and \<^verbatim>\<open>prn\<close> of every node), but for the lock of the
  node returned, which is one higher; \<^verbatim>\<open>bgp_table_count\<close> only reads \<^verbatim>\<open>count\<close>.
\<close>

theorem read_only_frame:
  assumes "bgp_node_lookup s q = Some (Inr (s', r)) \<or>
           bgp_node_match s q = Some (Inr (s', r)) \<or>
           bgp_node_match_ipv4 s ad = Some (Inr (s', r)) \<or>
           bgp_node_match_ipv6 s ad = Some (Inr (s', r))"
  shows "lock_only s s' r \<and> bgp_table_count s' = bgp_table_count s \<and>
         bgp_table_count s = t_count s"
proof -
  from assms have "s' = locked s r \<and> valid_ptr s r"
    unfolding bgp_node_match_ipv4_def bgp_node_match_ipv6_def
    using bgp_node_match_locked bgp_node_lookup_locked by blast
  then have lo: "lock_only s s' r" by (simp add: lock_only_locked)
  have "t_count s' = t_count (s'\<lparr>heap := heap s\<rparr>)" by simp
  also have "\<dots> = t_count s" using lo by (simp add: lock_only_def)
  finally show ?thesis using lo by (simp add: bgp_table_count_def)
qed

theorem read_only_frame_witness:
  "bgp_node_lookup ex_table (ip4 10 1 0 0 16) = Some (Inr (locked ex_table (Some 1), Some 1)) \<and>
   lock_only ex_table (locked ex_table (Some 1)) (Some 1) \<and>
   bgp_table_count (locked ex_table (Some 1)) = 2 \<and>
   map_option lock (heap ex_table 1) = Some 1 \<and>
   map_option lock (heap (locked ex_table (Some 1)) 1) = Some 2"
proof -
  have run: "bgp_node_lookup ex_table (ip4 10 1 0 0 16) = Some (Inr (locked ex_table (Some 1), Some 1))"
    by (simp add: bgp_node_lookup_def lookup_walk.simps ex_table_def ex_node_def link_def
        bgp_lock_node_def locked_def ip4_def prefix_match_def prefix_bit_def byte_at_def upt_rec)
  have "bgp_table_count ex_table = 2" by (simp add: bgp_table_count_def ex_table_def)
  moreover have "map_option lock (heap ex_table 1) = Some 1"
    "map_option lock (heap (locked ex_table (Some 1)) 1) = Some 2"
    by (simp_all add: ex_table_def ex_node_def locked_def node_upd_def)
  ultimately show ?thesis
    using read_only_frame [of ex_table "ip4 10 1 0 0 16" "locked ex_table (Some 1)" "Some 1"] run
    by simp
qed

section \<open>Replacing a subtree\<close>

lemma distinct_preorder_Node:
  "distinct (preorder (Node l a r)) =
     (a \<notin> set_tree l \<and> a \<notin> set_tree r \<and> distinct (preorder l) \<and> distinct (preorder r) \<and>
      set_tree l \<inter> set_tree r = {})"
  by auto

lemma heap_tree_frame:
  "(\<And>y. y \<in> set_tree t \<Longrightarrow> h' y = h y) \<Longrightarrow> heap_tree h' par x t = heap_tree h par x t"
proof (induction t arbitrary: par x)
  case Leaf
  then show ?case by simp
next
  case (Node l a r)
  have a: "h' a = h a" by (rule Node.prems) simp
  have l: "\<And>p y. heap_tree h' p y l = heap_tree h p y l"
    by (rule Node.IH(1)) (simp add: Node.prems)
  have r: "\<And>p y. heap_tree h' p y r = heap_tree h p y r"
    by (rule Node.IH(2)) (simp add: Node.prems)
  show ?case by (simp add: a l r cong: option.case_cong)
qed

lemma trie_ok_frame:
  "(\<And>y. y \<in> set_tree t \<Longrightarrow> map_option pfx (h' y) = map_option pfx (h y)) \<Longrightarrow>
   trie_ok h' t = trie_ok h t"
proof (induction t)
  case Leaf
  then show ?case by simp
next
  case (Node l a r)
  have l: "trie_ok h' l = trie_ok h l" by (rule Node.IH(1)) (simp add: Node.prems)
  have r: "trie_ok h' r = trie_ok h r" by (rule Node.IH(2)) (simp add: Node.prems)
  have e: "edge_ok h' a side (root_of u) = edge_ok h a side (root_of u)"
    if "u = l \<or> u = r" for side u
  proof (cases u)
    case Leaf
    then show ?thesis by (simp add: edge_ok_def)
  next
    case (Node ul b ur)
    with that have "b \<in> set_tree (Node l a r)" by auto
    from Node.prems [OF this] Node.prems [of a]
    show ?thesis unfolding Node
      by (auto simp: edge_ok_def child_ok_def split: option.splits)
  qed
  show ?case by (simp add: l r e)
qed

lemma root_of_graft [simp]: "root_of (graft t m side u) = root_of t"
  by (cases t) auto

lemma graft_notin [simp]: "m \<notin> set_tree t \<Longrightarrow> graft t m side u = t"
  by (induction t) auto

lemma subtree_notin [simp]: "a \<notin> set_tree t \<Longrightarrow> subtree t a = Leaf"
  by (induction t) auto

lemma subtree_subset: "set_tree (subtree t a) \<subseteq> set_tree t"
  by (induction t) auto

lemma child_tree_subset: "set_tree (child_tree t m side) \<subseteq> set_tree t"
  using subtree_subset [of t m]
  by (auto simp: child_tree_def split: tree.splits)

lemma child_tree_Node:
  "distinct (preorder (Node l a r)) \<Longrightarrow>
   child_tree (Node l a r) m side =
     (if m = a then (if side then r else l)
      else if m \<in> set_tree l then child_tree l m side else child_tree r m side)"
  by (auto simp: child_tree_def)

lemma child_tree_notin [simp]: "m \<notin> set_tree t \<Longrightarrow> child_tree t m side = Leaf"
  by (simp add: child_tree_def)

lemma m_notin_child_tree:
  "distinct (preorder t) \<Longrightarrow> m \<notin> set_tree (child_tree t m side)"
proof (induction t)
  case Leaf
  then show ?case by (simp add: child_tree_def)
next
  case (Node l a r)
  then show ?case
    using child_tree_subset [of l m side] child_tree_subset [of r m side]
    by (auto simp: child_tree_Node)
qed

lemma set_tree_graft:
  "distinct (preorder t) \<Longrightarrow> m \<in> set_tree t \<Longrightarrow>
   set_tree (graft t m side u) = (set_tree t - set_tree (child_tree t m side)) \<union> set_tree u"
proof (induction t)
  case Leaf
  then show ?case by simp
next
  case (Node l a r)
  note d = Node.prems(1) [unfolded distinct_preorder_Node]
  show ?case
  proof (cases "a = m")
    case True
    with d show ?thesis by (auto simp: child_tree_Node)
  next
    case False
    with Node.prems(2) consider "m \<in> set_tree l" "m \<notin> set_tree r" | "m \<in> set_tree r" "m \<notin> set_tree l"
      using d by auto
    then show ?thesis
    proof cases
      case 1
      with d Node.IH(1) have "set_tree (graft l m side u) =
          (set_tree l - set_tree (child_tree l m side)) \<union> set_tree u" by simp
      with 1 False d child_tree_subset [of l m side] show ?thesis
        by (auto simp: child_tree_Node)
    next
      case 2
      with d Node.IH(2) have "set_tree (graft r m side u) =
          (set_tree r - set_tree (child_tree r m side)) \<union> set_tree u" by simp
      with 2 False d child_tree_subset [of r m side] show ?thesis
        by (auto simp: child_tree_Node)
    qed
  qed
qed


lemma size_graft:
  "distinct (preorder t) \<Longrightarrow> m \<in> set_tree t \<Longrightarrow>
   size (graft t m side u) + size (child_tree t m side) = size t + size u"
proof (induction t)
  case Leaf
  then show ?case by simp
next
  case (Node l a r)
  note d = Node.prems(1) [unfolded distinct_preorder_Node]
  show ?case
  proof (cases "a = m")
    case True
    with d show ?thesis by (auto simp: child_tree_Node)
  next
    case False
    with Node.prems(2) consider "m \<in> set_tree l" "m \<notin> set_tree r" | "m \<in> set_tree r" "m \<notin> set_tree l"
      using d by auto
    then show ?thesis
    proof cases
      case 1
      with d Node.IH(1) have "size (graft l m side u) + size (child_tree l m side) = size l + size u"
        by simp
      with 1 False d show ?thesis by (simp add: child_tree_Node)
    next
      case 2
      with d Node.IH(2) have "size (graft r m side u) + size (child_tree r m side) = size r + size u"
        by simp
      with 2 False d show ?thesis by (simp add: child_tree_Node)
    qed
  qed
qed

lemma distinct_graft:
  "distinct (preorder t) \<Longrightarrow> m \<in> set_tree t \<Longrightarrow> distinct (preorder u) \<Longrightarrow>
   set_tree u \<inter> (set_tree t - set_tree (child_tree t m side)) = {} \<Longrightarrow>
   distinct (preorder (graft t m side u))"
proof (induction t)
  case Leaf
  then show ?case by simp
next
  case (Node l a r)
  note d = Node.prems(1) [unfolded distinct_preorder_Node]
  show ?case
  proof (cases "a = m")
    case True
    with d Node.prems(3,4) show ?thesis
      by (cases side) (auto simp: child_tree_Node)
  next
    case False
    with Node.prems(2) consider "m \<in> set_tree l" "m \<notin> set_tree r" | "m \<in> set_tree r" "m \<notin> set_tree l"
      using d by auto
    then show ?thesis
    proof cases
      case 1
      have ct: "child_tree (Node l a r) m side = child_tree l m side"
        using 1 False d by (simp add: child_tree_Node)
      have sub: "set_tree (child_tree l m side) \<subseteq> set_tree l" by (rule child_tree_subset)
      from Node.prems(4) have disj: "set_tree u \<inter> (set_tree l - set_tree (child_tree l m side)) = {}"
        unfolding ct by auto
      have dl: "distinct (preorder (graft l m side u))"
        by (rule Node.IH(1) [OF _ 1(1) Node.prems(3) disj]) (simp add: d)
      have sl: "set_tree (graft l m side u) = (set_tree l - set_tree (child_tree l m side)) \<union> set_tree u"
        by (rule set_tree_graft [OF _ 1(1)]) (simp add: d)
      have ua: "a \<notin> set_tree u" "set_tree u \<inter> set_tree r = {}"
        using Node.prems(4) sub d unfolding ct by auto
      show ?thesis
        using 1 False d dl ua sl by auto
    next
      case 2
      have ct: "child_tree (Node l a r) m side = child_tree r m side"
        using 2 False d by (simp add: child_tree_Node)
      have sub: "set_tree (child_tree r m side) \<subseteq> set_tree r" by (rule child_tree_subset)
      from Node.prems(4) have disj: "set_tree u \<inter> (set_tree r - set_tree (child_tree r m side)) = {}"
        unfolding ct by auto
      have dr: "distinct (preorder (graft r m side u))"
        by (rule Node.IH(2) [OF _ 2(1) Node.prems(3) disj]) (simp add: d)
      have sr: "set_tree (graft r m side u) = (set_tree r - set_tree (child_tree r m side)) \<union> set_tree u"
        by (rule set_tree_graft [OF _ 2(1)]) (simp add: d)
      have ua: "a \<notin> set_tree u" "set_tree u \<inter> set_tree l = {}"
        using Node.prems(4) sub d unfolding ct by auto
      show ?thesis
        using 2 False d dr ua sr by auto
    qed
  qed
qed

lemma link_update_simps [simp]:
  "parent (link_update side v n) = parent n"
  "pfx (link_update side v n) = pfx n"
  "lock (link_update side v n) = lock n"
  "info (link_update side v n) = info n"
  "prn (link_update side v n) = prn n"
  "on_wq (link_update side v n) = on_wq n"
  "adj_ins (link_update side v n) = adj_ins n"
  "adj_outs (link_update side v n) = adj_outs n"
  "l_left (link_update side v n) = (if side then l_left n else v)"
  "l_right (link_update side v n) = (if side then v else l_right n)"
  "link (link_update side v n) b = (if b = side then v else link n b)"
  by (auto simp: link_update_def link_def)

lemma heap_tree_graft:
  assumes "heap_tree h par x t" "distinct (preorder t)" "m \<in> set_tree t" "h m = Some mn"
    and "h' m = Some (link_update side (root_of u) mn)"
    and "heap_tree h' (Some m) (root_of u) u"
    and "\<And>y. y \<in> set_tree t \<Longrightarrow> y \<notin> set_tree (child_tree t m side) \<Longrightarrow> y \<noteq> m \<Longrightarrow> h' y = h y"
  shows "heap_tree h' par x (graft t m side u)"
  using assms(1,2,3,7)
proof (induction t arbitrary: par x)
  case Leaf
  then show ?case by simp
next
  case (Node l a r)
  note d = Node.prems(2) [unfolded distinct_preorder_Node]
  from heap_tree_NodeD [OF Node.prems(1)] obtain n where x: "x = Some a" and n: "h a = Some n"
    "parent n = par" and tl: "heap_tree h (Some a) (l_left n) l"
    and tr: "heap_tree h (Some a) (l_right n) r" by blast
  show ?case
  proof (cases "a = m")
    case True
    with n assms(4) have nm: "n = mn" by simp
    have ct: "child_tree (Node l a r) m side = (if side then r else l)"
      using True Node.prems(2) by (simp add: child_tree_Node)
    show ?thesis
    proof (cases side)
      case True
      have "heap_tree h' (Some m) (l_left mn) l = heap_tree h (Some m) (l_left mn) l"
        by (rule heap_tree_frame, rule Node.prems(4)) (use d \<open>a = m\<close> True ct in auto)
      with tl show ?thesis
        using \<open>a = m\<close> True x n nm assms(5,6) by simp
    next
      case False
      have "heap_tree h' (Some m) (l_right mn) r = heap_tree h (Some m) (l_right mn) r"
        by (rule heap_tree_frame, rule Node.prems(4)) (use d \<open>a = m\<close> False ct in auto)
      with tr show ?thesis
        using \<open>a = m\<close> False x n nm assms(5,6) by simp
    qed
  next
    case False
    with Node.prems(3) consider "m \<in> set_tree l" "m \<notin> set_tree r" | "m \<in> set_tree r" "m \<notin> set_tree l"
      using d by auto
    then show ?thesis
    proof cases
      case 1
      have ct: "child_tree (Node l a r) m side = child_tree l m side"
        using 1 False Node.prems(2) by (simp add: child_tree_Node)
      have sub: "set_tree (child_tree l m side) \<subseteq> set_tree l" by (rule child_tree_subset)
      have ha: "h' a = h a"
        by (rule Node.prems(4)) (use d False sub ct in auto)
      have l': "heap_tree h' (Some a) (l_left n) (graft l m side u)"
        by (rule Node.IH(1) [OF tl _ 1(1)]) (use d ct Node.prems(4) in auto)
      have "heap_tree h' (Some a) (l_right n) r = heap_tree h (Some a) (l_right n) r"
        by (rule heap_tree_frame, rule Node.prems(4)) (use d 1 sub ct in auto)
      with tr l' show ?thesis using False 1 x n ha by simp
    next
      case 2
      have ct: "child_tree (Node l a r) m side = child_tree r m side"
        using 2 False Node.prems(2) by (simp add: child_tree_Node)
      have sub: "set_tree (child_tree r m side) \<subseteq> set_tree r" by (rule child_tree_subset)
      have ha: "h' a = h a"
        by (rule Node.prems(4)) (use d False sub ct in auto)
      have r': "heap_tree h' (Some a) (l_right n) (graft r m side u)"
        by (rule Node.IH(2) [OF tr _ 2(1)]) (use d ct Node.prems(4) in auto)
      have "heap_tree h' (Some a) (l_left n) l = heap_tree h (Some a) (l_left n) l"
        by (rule heap_tree_frame, rule Node.prems(4)) (use d 2 sub ct in auto)
      with tl r' show ?thesis using False 2 x n ha by simp
    qed
  qed
qed


lemma edge_ok_frame:
  "map_option pfx (h' a) = map_option pfx (h a) \<Longrightarrow>
   (\<And>b. c = Some b \<Longrightarrow> map_option pfx (h' b) = map_option pfx (h b)) \<Longrightarrow>
   edge_ok h' a side c = edge_ok h a side c"
  by (cases c) (auto simp: edge_ok_def child_ok_def split: option.splits)

lemma root_notin_child_tree:
  assumes "distinct (preorder t)" "root_of t = Some b"
  shows "b \<notin> set_tree (child_tree t m side)"
proof (cases t)
  case Leaf
  with assms show ?thesis by simp
next
  case (Node l a r)
  with assms have d: "b \<notin> set_tree l" "b \<notin> set_tree r" "a = b" by auto
  have "set_tree (child_tree t m side) \<subseteq> set_tree l \<union> set_tree r"
    using child_tree_subset [of l m side] child_tree_subset [of r m side] assms(1)
    unfolding Node by (auto simp: child_tree_Node)
  with d show ?thesis by auto
qed

lemma root_in_set: "root_of t = Some b \<Longrightarrow> b \<in> set_tree t"
  by (cases t) auto

lemma trie_ok_graft:
  assumes "trie_ok h t" "distinct (preorder t)" "m \<in> set_tree t" "trie_ok h' u"
    and "edge_ok h' m side (root_of u)"
    and "\<And>y. y \<in> set_tree t \<Longrightarrow> y \<notin> set_tree (child_tree t m side) \<Longrightarrow>
            map_option pfx (h' y) = map_option pfx (h y)"
  shows "trie_ok h' (graft t m side u)"
  using assms(1,2,3,6)
proof (induction t)
  case Leaf
  then show ?case by simp
next
  case (Node l a r)
  note d = Node.prems(2) [unfolded distinct_preorder_Node]
  from Node.prems(1) have ok: "trie_ok h l" "trie_ok h r"
    "edge_ok h a False (root_of l)" "edge_ok h a True (root_of r)" by simp_all
  have keep: "edge_ok h' a sd (root_of v) = edge_ok h a sd (root_of v)"
    if "v = l \<or> v = r" "set_tree v \<inter> set_tree (child_tree (Node l a r) m side) = {} \<or>
        (distinct (preorder v) \<and> child_tree (Node l a r) m side = child_tree v m side)" for v sd
  proof (rule edge_ok_frame)
    have "a \<notin> set_tree (child_tree (Node l a r) m side)"
      by (rule root_notin_child_tree [OF Node.prems(2)]) simp
    then show "map_option pfx (h' a) = map_option pfx (h a)"
      by (intro Node.prems(4)) simp_all
  next
    fix b assume b: "root_of v = Some b"
    then have bv: "b \<in> set_tree v" by (rule root_in_set)
    from that(2) have "b \<notin> set_tree (child_tree (Node l a r) m side)"
    proof
      assume "set_tree v \<inter> set_tree (child_tree (Node l a r) m side) = {}"
      with bv show ?thesis by auto
    next
      assume "distinct (preorder v) \<and> child_tree (Node l a r) m side = child_tree v m side"
      with root_notin_child_tree [of v b m side] b show ?thesis by simp
    qed
    with bv that(1) show "map_option pfx (h' b) = map_option pfx (h b)"
      by (intro Node.prems(4)) auto
  qed
  show ?case
  proof (cases "a = m")
    case True
    have ct: "child_tree (Node l a r) m side = (if side then r else l)"
      using True Node.prems(2) by (simp add: child_tree_Node)
    show ?thesis
    proof (cases side)
      case True
      have "trie_ok h' l = trie_ok h l"
        by (rule trie_ok_frame, rule Node.prems(4)) (use d ct True in auto)
      moreover have "edge_ok h' a False (root_of l) = edge_ok h a False (root_of l)"
        by (rule keep) (use d ct True in auto)
      ultimately show ?thesis using \<open>a = m\<close> True ok assms(4,5) by simp
    next
      case False
      have "trie_ok h' r = trie_ok h r"
        by (rule trie_ok_frame, rule Node.prems(4)) (use d ct False in auto)
      moreover have "edge_ok h' a True (root_of r) = edge_ok h a True (root_of r)"
        by (rule keep) (use d ct False in auto)
      ultimately show ?thesis using \<open>a = m\<close> False ok assms(4,5) by simp
    qed
  next
    case False
    with Node.prems(3) consider "m \<in> set_tree l" "m \<notin> set_tree r" | "m \<in> set_tree r" "m \<notin> set_tree l"
      using d by auto
    then show ?thesis
    proof cases
      case 1
      have ct: "child_tree (Node l a r) m side = child_tree l m side"
        using 1 False Node.prems(2) by (simp add: child_tree_Node)
      have sub: "set_tree (child_tree l m side) \<subseteq> set_tree l" by (rule child_tree_subset)
      have l': "trie_ok h' (graft l m side u)"
        by (rule Node.IH(1) [OF ok(1) _ 1(1)]) (use d ct Node.prems(4) in auto)
      have r': "trie_ok h' r = trie_ok h r"
        by (rule trie_ok_frame, rule Node.prems(4)) (use d sub ct in auto)
      have e1: "edge_ok h' a False (root_of l) = edge_ok h a False (root_of l)"
        by (rule keep) (use d ct in auto)
      have e2: "edge_ok h' a True (root_of r) = edge_ok h a True (root_of r)"
        by (rule keep) (use d ct sub in auto)
      show ?thesis using False 1 ok l' r' e1 e2 by simp
    next
      case 2
      have ct: "child_tree (Node l a r) m side = child_tree r m side"
        using 2 False Node.prems(2) by (simp add: child_tree_Node)
      have sub: "set_tree (child_tree r m side) \<subseteq> set_tree r" by (rule child_tree_subset)
      have r': "trie_ok h' (graft r m side u)"
        by (rule Node.IH(2) [OF ok(2) _ 2(1)]) (use d ct Node.prems(4) in auto)
      have l': "trie_ok h' l = trie_ok h l"
        by (rule trie_ok_frame, rule Node.prems(4)) (use d sub ct in auto)
      have e1: "edge_ok h' a False (root_of l) = edge_ok h a False (root_of l)"
        by (rule keep) (use d ct sub in auto)
      have e2: "edge_ok h' a True (root_of r) = edge_ok h a True (root_of r)"
        by (rule keep) (use d ct in auto)
      show ?thesis using False 2 ok l' r' e1 e2 by simp
    qed
  qed
qed

lemma heap_tree_subtree:
  assumes "heap_tree h par x t" "distinct (preorder t)" "a \<in> set_tree t" "h a = Some n"
  shows "heap_tree h (parent n) (Some a) (subtree t a) \<and>
         ((x = Some a \<and> parent n = par \<and> subtree t a = t) \<or>
          (\<exists>m mn side. parent n = Some m \<and> m \<in> set_tree t \<and> h m = Some mn \<and>
             link mn side = Some a \<and> link mn (\<not> side) \<noteq> Some a \<and>
             child_tree t m side = subtree t a))"
  using assms(1,2,3)
proof (induction t arbitrary: par x)
  case Leaf
  then show ?case by simp
next
  case (Node l b r)
  note d = Node.prems(2) [unfolded distinct_preorder_Node]
  from heap_tree_NodeD [OF Node.prems(1)] obtain nb where x: "x = Some b" and nb: "h b = Some nb"
    "parent nb = par" and tl: "heap_tree h (Some b) (l_left nb) l"
    and tr: "heap_tree h (Some b) (l_right nb) r"
    and roots: "l_left nb = root_of l" "l_right nb = root_of r" by blast
  show ?case
  proof (cases "a = b")
    case True
    with nb assms(4) have "nb = n" by simp
    with True Node.prems(1) x nb show ?thesis by simp
  next
    case False
    with Node.prems(3) consider "a \<in> set_tree l" "a \<notin> set_tree r" | "a \<in> set_tree r" "a \<notin> set_tree l"
      using d by auto
    then show ?thesis
    proof cases
      case 1
      from Node.IH(1) [OF tl _ 1(1)] d have IH:
        "heap_tree h (parent n) (Some a) (subtree l a) \<and>
         ((l_left nb = Some a \<and> parent n = Some b \<and> subtree l a = l) \<or>
          (\<exists>m mn side. parent n = Some m \<and> m \<in> set_tree l \<and> h m = Some mn \<and>
             link mn side = Some a \<and> link mn (\<not> side) \<noteq> Some a \<and>
             child_tree l m side = subtree l a))" by simp
      have st: "subtree (Node l b r) a = subtree l a" using False 1 by simp
      from IH have h: "heap_tree h (parent n) (Some a) (subtree l a)" by blast
      from IH consider
        (top) "l_left nb = Some a \<and> parent n = Some b \<and> subtree l a = l"
        | (deep) "\<exists>m mn side. parent n = Some m \<and> m \<in> set_tree l \<and> h m = Some mn \<and>
             link mn side = Some a \<and> link mn (\<not> side) \<noteq> Some a \<and>
             child_tree l m side = subtree l a" by blast
      then show ?thesis
      proof cases
        case top
        note p = top
        have "link nb True \<noteq> Some a"
          using roots 1 by (auto simp: link_def dest: root_in_set)
        moreover have "child_tree (Node l b r) b False = subtree (Node l b r) a"
          using p st by (simp add: child_tree_def)
        ultimately show ?thesis
          using h p nb st by (intro conjI disjI2 exI [of _ b] exI [of _ nb] exI [of _ False])
            (auto simp: link_def)
      next
        case deep
        then obtain m mn side where m: "parent n = Some m" "m \<in> set_tree l" "h m = Some mn"
          "link mn side = Some a" "link mn (\<not> side) \<noteq> Some a"
          "child_tree l m side = subtree l a" by blast
        have "child_tree (Node l b r) m side = subtree (Node l b r) a"
          using m(2,6) d st by (auto simp: child_tree_Node)
        with h m show ?thesis unfolding st
          by (intro conjI disjI2 exI [of _ m] exI [of _ mn] exI [of _ side]) auto
      qed
    next
      case 2
      from Node.IH(2) [OF tr _ 2(1)] d have IH:
        "heap_tree h (parent n) (Some a) (subtree r a) \<and>
         ((l_right nb = Some a \<and> parent n = Some b \<and> subtree r a = r) \<or>
          (\<exists>m mn side. parent n = Some m \<and> m \<in> set_tree r \<and> h m = Some mn \<and>
             link mn side = Some a \<and> link mn (\<not> side) \<noteq> Some a \<and>
             child_tree r m side = subtree r a))" by simp
      have st: "subtree (Node l b r) a = subtree r a" using False 2 by simp
      from IH have h: "heap_tree h (parent n) (Some a) (subtree r a)" by blast
      from IH consider
        (top) "l_right nb = Some a \<and> parent n = Some b \<and> subtree r a = r"
        | (deep) "\<exists>m mn side. parent n = Some m \<and> m \<in> set_tree r \<and> h m = Some mn \<and>
             link mn side = Some a \<and> link mn (\<not> side) \<noteq> Some a \<and>
             child_tree r m side = subtree r a" by blast
      then show ?thesis
      proof cases
        case top
        note p = top
        have "link nb False \<noteq> Some a"
          using roots 2 by (auto simp: link_def dest: root_in_set)
        moreover have "child_tree (Node l b r) b True = subtree (Node l b r) a"
          using p st by (simp add: child_tree_def)
        ultimately show ?thesis
          using h p nb st by (intro conjI disjI2 exI [of _ b] exI [of _ nb] exI [of _ True])
            (auto simp: link_def)
      next
        case deep
        then obtain m mn side where m: "parent n = Some m" "m \<in> set_tree r" "h m = Some mn"
          "link mn side = Some a" "link mn (\<not> side) \<noteq> Some a"
          "child_tree r m side = subtree r a" by blast
        have "child_tree (Node l b r) m side = subtree (Node l b r) a"
          using m(2,6) d st by (auto simp: child_tree_Node)
        with h m show ?thesis unfolding st
          by (intro conjI disjI2 exI [of _ m] exI [of _ mn] exI [of _ side]) auto
      qed
    qed
  qed
qed


lemma subtree_in: "a \<in> set_tree t \<Longrightarrow> \<exists>l r. subtree t a = Node l a r"
  by (induction t) auto

lemma heap_tree_child:
  assumes "heap_tree h par x t" "distinct (preorder t)" "m \<in> set_tree t" "h m = Some mn"
  shows "heap_tree h (Some m) (link mn side) (child_tree t m side)"
proof -
  from subtree_in [OF assms(3)] obtain l r where st: "subtree t m = Node l m r" by blast
  from heap_tree_subtree [OF assms] have "heap_tree h (parent mn) (Some m) (Node l m r)"
    unfolding st by blast
  with assms(4) show ?thesis
    by (cases side) (simp_all add: child_tree_def st link_def)
qed

lemma trie_ok_subtree: "trie_ok h t \<Longrightarrow> trie_ok h (subtree t a)"
  by (induction t) auto

lemma trie_ok_child:
  assumes "trie_ok h t" "m \<in> set_tree t"
  shows "trie_ok h (child_tree t m side) \<and> edge_ok h m side (root_of (child_tree t m side))"
proof -
  from subtree_in [OF assms(2)] obtain l r where st: "subtree t m = Node l m r" by blast
  from trie_ok_subtree [OF assms(1), of m] have "trie_ok h (Node l m r)" unfolding st .
  then show ?thesis by (cases side) (simp_all add: child_tree_def st)
qed

lemma walk_spec_step:
  assumes "walk_spec h q N (Some a) (link n (prefix_bit (u_prefix q) (prefixlen (pfx n)))) w"
    and "h a = Some n" "prefix_match (pfx n) q" "prefixlen (pfx n) < prefixlen q"
    and "N \<subseteq> N'" "a \<in> N'"
  shows "walk_spec h q N' par x w"
proof (cases w)
  case (Exact a')
  with assms(1,5) show ?thesis by (auto simp: walk_spec_def)
next
  case (Stop nd mo)
  with assms(1) have nc: "\<forall>c. nd = Some c \<longrightarrow> (\<exists>cn. h c = Some cn \<and> \<not> prefix_match (pfx cn) q)"
    and d: "mo = Some a \<and> nd = link n (prefix_bit (u_prefix q) (prefixlen (pfx n))) \<or>
           (\<exists>m mn. mo = Some m \<and> m \<in> N \<and> h m = Some mn \<and> prefix_match (pfx mn) q \<and>
              prefixlen (pfx mn) < prefixlen q \<and>
              nd = link mn (prefix_bit (u_prefix q) (prefixlen (pfx mn))))"
    by (simp_all add: walk_spec_def)
  from d have "\<exists>m mn. mo = Some m \<and> m \<in> N' \<and> h m = Some mn \<and> prefix_match (pfx mn) q \<and>
              prefixlen (pfx mn) < prefixlen q \<and>
              nd = link mn (prefix_bit (u_prefix q) (prefixlen (pfx mn)))"
  proof
    assume "mo = Some a \<and> nd = link n (prefix_bit (u_prefix q) (prefixlen (pfx n)))"
    with assms(2,3,4,6) show ?thesis by blast
  next
    assume "\<exists>m mn. mo = Some m \<and> m \<in> N \<and> h m = Some mn \<and> prefix_match (pfx mn) q \<and>
              prefixlen (pfx mn) < prefixlen q \<and>
              nd = link mn (prefix_bit (u_prefix q) (prefixlen (pfx mn)))"
    with assms(5) show ?thesis by blast
  qed
  with nc Stop show ?thesis by (simp add: walk_spec_def)
qed

lemma get_walk_tree:
  "heap_tree h par x t \<Longrightarrow>
   \<exists>w. get_walk h q x par = Some (Inr w) \<and> walk_spec h q (set_tree t) par x w"
proof (induction t arbitrary: par x)
  case Leaf
  then show ?case by (simp add: get_walk.simps walk_spec_def)
next
  case (Node l a r)
  from heap_tree_NodeD [OF Node.prems(1)] obtain n where x: "x = Some a" and n: "h a = Some n"
    "parent n = par" and tl: "heap_tree h (Some a) (l_left n) l"
    and tr: "heap_tree h (Some a) (l_right n) r" by blast
  show ?case
  proof (cases "prefix_match (pfx n) q")
    case False
    have "get_walk h q x par = Some (Inr (Stop (Some a) par))"
      using x n False by (subst get_walk.simps) simp
    with x n False show ?thesis by (simp add: walk_spec_def)
  next
    case True
    note pm = True
    show ?thesis
    proof (cases "prefixlen (pfx n) = prefixlen q")
      case True
      have "get_walk h q x par = Some (Inr (Exact a))"
        using x n pm True by (subst get_walk.simps) simp
      with n pm True show ?thesis by (simp add: walk_spec_def)
    next
      case False
      with pm have lt: "prefixlen (pfx n) < prefixlen q" by (simp add: prefix_match_iff)
      define side where "side = prefix_bit (u_prefix q) (prefixlen (pfx n))"
      define ts where "ts = (if side then r else l)"
      have step: "get_walk h q x par = get_walk h q (link n side) (Some a)"
        using x n pm False by (subst get_walk.simps) (simp add: side_def prefix_match_iff)
      have sub: "set_tree ts \<subseteq> set_tree (Node l a r)" by (auto simp: ts_def)
      have "\<exists>w. get_walk h q (link n side) (Some a) = Some (Inr w) \<and>
              walk_spec h q (set_tree ts) (Some a) (link n side) w"
      proof (cases side)
        case True
        then have e: "ts = r" "link n side = l_right n" by (simp_all add: link_def ts_def)
        show ?thesis unfolding e by (rule Node.IH(2) [OF tr])
      next
        case False
        then have e: "ts = l" "link n side = l_left n" by (simp_all add: link_def ts_def)
        show ?thesis unfolding e by (rule Node.IH(1) [OF tl])
      qed
      then obtain w where w: "get_walk h q (link n side) (Some a) = Some (Inr w)" and
        spec: "walk_spec h q (set_tree ts) (Some a) (link n side) w" by blast
      have "walk_spec h q (set_tree (Node l a r)) par x w"
        by (rule walk_spec_step [OF spec [unfolded side_def] n(1) pm lt sub]) simp
      with step w show ?thesis by simp
    qed
  qed
qed

lemma slot_of_walk_spec:
  "walk_spec h q N None tp (Stop nd mo) \<Longrightarrow> slot h tp N q mo nd"
  by (cases mo; cases nd) (auto simp: walk_spec_def slot_def)

section \<open>The effect of \<^verbatim>\<open>bgp_node_get\<close>\<close>

lemma calloc_props:
  assumes "pool_ok s N" "bgp_node_calloc s = (a, s1)"
  shows "a \<notin> N \<and> heap s1 a = Some zero_node \<and> (\<forall>y. y \<in> N \<longrightarrow> heap s1 y = heap s y) \<and>
      pool_ok s1 (insert a N) \<and> t_top s1 = t_top s \<and> t_count s1 = t_count s \<and>
      qdebug s1 = qdebug s \<and> t_mpls_vpn s1 = t_mpls_vpn s"
proof (cases "rn_frees s")
  case Nil
  with assms(2) have a: "a = rn_next s + 1023"
    and s1: "s1 = s\<lparr>heap := (\<lambda>x. if rn_next s \<le> x \<and> x < rn_next s + 1024 then Some zero_node
                            else heap s x),
              rn_frees := rev [rn_next s..<rn_next s + 1023],
              rn_next := rn_next s + 1024\<rparr>"
    by (auto simp: bgp_node_calloc_def rn_pool_size_def Let_def)
  from assms(1) have lt: "\<And>y. y \<in> N \<Longrightarrow> y < rn_next s" by (simp add: pool_ok_def)
  show ?thesis
    unfolding a s1 using lt by (fastforce simp: pool_ok_def)
next
  case (Cons b fs)
  with assms(2) have a: "a = b"
    and s1: "s1 = s\<lparr>heap := (heap s)(b \<mapsto> zero_node), rn_frees := fs\<rparr>"
    by (auto simp: bgp_node_calloc_def)
  show ?thesis
    unfolding a s1 using assms(1) Cons by (auto simp: pool_ok_def)
qed

lemma set_link_eq:
  "heap s a = Some n \<Longrightarrow> heap s b = Some m \<Longrightarrow> a \<noteq> b \<Longrightarrow>
   set_link a b s =
     Inr (s\<lparr>heap := (heap s)
           (a \<mapsto> link_update (prefix_bit (u_prefix (pfx m)) (prefixlen (pfx n))) (Some b) n,
            b \<mapsto> m\<lparr>parent := Some a\<rparr>)\<rparr>)"
  by (simp add: set_link_def node_upd_def)

lemma get_finish_eq:
  "heap s a = Some n \<Longrightarrow>
   get_finish s a prn0 =
     Inr (s\<lparr>heap := (heap s)(a \<mapsto> n\<lparr>prn := prn0, lock := lock n + 1\<rparr>),
            t_count := t_count s + 1\<rparr>, a)"
  by (simp add: get_finish_def node_upd_def bgp_lock_node_def Let_def)


lemma distinct_subtree: "distinct (preorder t) \<Longrightarrow> distinct (preorder (subtree t a))"
  by (induction t) auto

lemma distinct_child_tree: "distinct (preorder t) \<Longrightarrow> distinct (preorder (child_tree t m side))"
  using distinct_subtree [of t m]
  by (auto simp: child_tree_def split: tree.splits)

lemma table_tree_install:
  assumes T: "table_tree s T"
    and u: "u = hang_at T mo side"
    and mo: "case mo of
               None \<Rightarrow> t_top s' = root_of u'
             | Some m \<Rightarrow> m \<in> set_tree T \<and> t_top s' = t_top s \<and>
                 (\<exists>mn. heap s m = Some mn \<and> heap s' m = Some (link_update side (root_of u') mn)) \<and>
                 edge_ok (heap s') m side (root_of u')"
    and frame: "\<And>y. y \<in> set_tree T \<Longrightarrow> y \<notin> set_tree u \<Longrightarrow> Some y \<noteq> mo \<Longrightarrow> heap s' y = heap s y"
    and sub: "heap_tree (heap s') mo (root_of u') u'" "trie_ok (heap s') u'" "distinct (preorder u')"
    and disj: "set_tree u' \<inter> (set_tree T - set_tree u) = {}"
    and count: "t_count s' + of_nat (size u) = t_count s + of_nat (size u')"
    and pool: "pool_ok s' ((set_tree T - set_tree u) \<union> set_tree u')"
  shows "table_tree s' (graft_at T mo side u') \<and>
         set_tree (graft_at T mo side u') = (set_tree T - set_tree u) \<union> set_tree u'"
proof (cases mo)
  case None
  with u have uT: "u = T" by (simp add: hang_at_def)
  from T have c: "t_count s = of_nat (size T)" by (simp add: table_tree_def)
  from count have "t_count s' = of_nat (size u')" unfolding uT c by simp
  with None mo sub pool uT show ?thesis
    by (simp add: table_tree_def graft_at_def)
next
  case (Some m)
  from T have ht: "heap_tree (heap s) None (t_top s) T" and ok: "trie_ok (heap s) T"
    and d: "distinct (preorder T)" and c: "t_count s = of_nat (size T)"
    by (simp_all add: table_tree_def)
  from Some u have u': "u = child_tree T m side" by (simp add: hang_at_def)
  from Some mo obtain mn where m: "m \<in> set_tree T" "t_top s' = t_top s" "heap s m = Some mn"
    "heap s' m = Some (link_update side (root_of u') mn)" "edge_ok (heap s') m side (root_of u')"
    by auto
  have mu: "m \<notin> set_tree u" unfolding u' by (rule m_notin_child_tree [OF d])
  have 1: "heap_tree (heap s') None (t_top s') (graft T m side u')"
    unfolding m(2)
    by (rule heap_tree_graft [where h' = "heap s'" and h = "heap s", OF ht d m(1) m(3) m(4)])
      (use sub(1) Some frame u' in auto)
  have 2: "trie_ok (heap s') (graft T m side u')"
  proof (rule trie_ok_graft [where h' = "heap s'" and h = "heap s", OF ok d m(1) sub(2) m(5)])
    fix y assume y: "y \<in> set_tree T" "y \<notin> set_tree (child_tree T m side)"
    show "map_option pfx (heap s' y) = map_option pfx (heap s y)"
    proof (cases "y = m")
      case True
      with m(3,4) show ?thesis by simp
    next
      case False
      with frame [OF y(1)] y(2) Some u' show ?thesis by simp
    qed
  qed
  have 3: "distinct (preorder (graft T m side u'))"
    by (rule distinct_graft [OF d m(1) sub(3)]) (use disj u' in auto)
  have 4: "set_tree (graft T m side u') = (set_tree T - set_tree u) \<union> set_tree u'"
    unfolding u' by (rule set_tree_graft [OF d m(1)])
  from size_graft [OF d m(1), of side u'] have
    "(of_nat (size (graft T m side u')) :: 64 word) + of_nat (size u) = of_nat (size T) + of_nat (size u')"
    unfolding u' by (metis of_nat_add)
  with count c have "t_count s' + of_nat (size u) = of_nat (size (graft T m side u')) + of_nat (size u)"
    by simp
  then have 5: "t_count s' = of_nat (size (graft T m side u'))"
    by (simp only: add_right_cancel)
  from 1 2 3 4 5 pool Some show ?thesis
    by (simp add: table_tree_def graft_at_def)
qed

lemma slot_inner:
  assumes T: "table_tree s T" and m: "m \<in> set_tree T"
  shows "\<exists>mn. heap s m = Some mn \<and>
           (\<forall>side. heap_tree (heap s) (Some m) (link mn side) (child_tree T m side) \<and>
             trie_ok (heap s) (child_tree T m side) \<and>
             distinct (preorder (child_tree T m side)) \<and>
             set_tree (child_tree T m side) \<subseteq> set_tree T \<and>
             m \<notin> set_tree (child_tree T m side) \<and>
             edge_ok (heap s) m side (link mn side))"
proof -
  from T have ht: "heap_tree (heap s) None (t_top s) T" and ok: "trie_ok (heap s) T"
    and d: "distinct (preorder T)" by (simp_all add: table_tree_def)
  from heap_tree_valid [OF ht m] obtain mn where mn: "heap s m = Some mn" by blast
  have "heap_tree (heap s) (Some m) (link mn side) (child_tree T m side) \<and>
             trie_ok (heap s) (child_tree T m side) \<and>
             distinct (preorder (child_tree T m side)) \<and>
             set_tree (child_tree T m side) \<subseteq> set_tree T \<and>
             m \<notin> set_tree (child_tree T m side) \<and>
             edge_ok (heap s) m side (link mn side)" for side
  proof -
    note h = heap_tree_child [OF ht d m mn, of side]
    from heap_tree_root [OF h] trie_ok_child [OF ok m, of side]
    show ?thesis
      using h distinct_child_tree [OF d] child_tree_subset m_notin_child_tree [OF d]
      by simp
  qed
  with mn show ?thesis by blast
qed


lemma heap_tree_None_Leaf: "heap_tree h par None t \<Longrightarrow> t = Leaf"
  by (cases t) auto

lemma only_links_I:
  assumes "\<And>y. y \<in> N \<Longrightarrow> \<exists>n n'. heap s y = Some n \<and> heap s' y = Some n' \<and>
             n'\<lparr>parent := parent n, l_left := l_left n, l_right := l_right n\<rparr> = n"
  shows "only_links s s' N"
  unfolding only_links_def
proof
  fix y assume "y \<in> N"
  from assms [OF this] show "case heap s y of None \<Rightarrow> False
     | Some n \<Rightarrow> (case heap s' y of None \<Rightarrow> False
        | Some n' \<Rightarrow> n'\<lparr>parent := parent n, l_left := l_left n, l_right := l_right n\<rparr> = n)"
    by auto
qed

lemma link_update_only_links:
  "(link_update side v n)\<lparr>parent := parent n, l_left := l_left n, l_right := l_right n\<rparr> = n"
  by (simp add: link_update_def)

lemma get_insert_leaf:
  assumes T: "table_tree s T" and sl: "slot (heap s) (t_top s) (set_tree T) q mo None"
  shows "\<exists>s' a side. get_insert s q prn0 None mo = Inr (s', a) \<and> a \<notin> set_tree T \<and>
        heap s' a = Some (zero_node\<lparr>pfx := q, parent := mo, prn := prn0, lock := 1\<rparr>) \<and>
        t_count s' = t_count s + 1 \<and>
        table_tree s' (graft_at T mo side (Node Leaf a Leaf)) \<and>
        set_tree (graft_at T mo side (Node Leaf a Leaf)) = insert a (set_tree T) \<and>
        only_links s s' (set_tree T) \<and> qdebug s' = qdebug s \<and> t_mpls_vpn s' = t_mpls_vpn s \<and>
        (case mo of
           None \<Rightarrow> t_top s' = Some a
         | Some m \<Rightarrow> t_top s' = t_top s \<and>
             (\<exists>mn. heap s m = Some mn \<and>
                heap s' m = Some (link_update (prefix_bit (u_prefix q) (prefixlen (pfx mn)))
                                   (Some a) mn))) \<and>
        (\<forall>y\<in>set_tree T. Some y \<noteq> mo \<longrightarrow> heap s' y = heap s y)"
proof -
  from T have ht: "heap_tree (heap s) None (t_top s) T" and pool: "pool_ok s (set_tree T)"
    by (simp_all add: table_tree_def)
  obtain a s1 where calloc: "bgp_node_calloc s = (a, s1)" by (cases "bgp_node_calloc s")
  from calloc_props [OF pool calloc] have
    fresh: "a \<notin> set_tree T" and za: "heap s1 a = Some zero_node" and
    keep: "\<And>y. y \<in> set_tree T \<Longrightarrow> heap s1 y = heap s y" and
    pool1: "pool_ok s1 (insert a (set_tree T))" and
    same: "t_top s1 = t_top s" "t_count s1 = t_count s" "qdebug s1 = qdebug s"
      "t_mpls_vpn s1 = t_mpls_vpn s"
    by blast+
  define A where "A = zero_node\<lparr>pfx := q, parent := mo, prn := prn0, lock := 1\<rparr>"
  show ?thesis
  proof (cases mo)
    case None
    with sl have top: "t_top s = None" by (simp add: slot_def)
    with ht have TL: "T = Leaf" by (auto dest: heap_tree_None_Leaf)
    define s' where "s' = s1\<lparr>heap := (heap s1)(a \<mapsto> A), t_top := Some a, t_count := t_count s1 + 1\<rparr>"
    have run: "get_insert s q prn0 None mo = Inr (s', a)"
      using None za
      by (simp add: get_insert_def bgp_node_set_def calloc link_under_def get_finish_def
          node_upd_def bgp_lock_node_def s'_def A_def zero_node_def)
    have inst: "table_tree s' (graft_at T mo False (Node Leaf a Leaf)) \<and>
         set_tree (graft_at T mo False (Node Leaf a Leaf)) =
           (set_tree T - set_tree T) \<union> set_tree (Node Leaf a Leaf)"
    proof (rule table_tree_install [OF T])
      show "T = hang_at T mo False" using None by (simp add: hang_at_def)
      show "case mo of None \<Rightarrow> t_top s' = root_of (Node Leaf a Leaf)
        | Some m \<Rightarrow> m \<in> set_tree T \<and> t_top s' = t_top s \<and>
              (\<exists>mn. heap s m = Some mn \<and>
                  heap s' m = Some (link_update False (root_of (Node Leaf a Leaf)) mn)) \<and>
                 edge_ok (heap s') m False (root_of (Node Leaf a Leaf))"
        using None by (simp add: s'_def)
      show "heap_tree (heap s') mo (root_of (Node Leaf a Leaf)) (Node Leaf a Leaf)"
        using None by (simp add: s'_def A_def zero_node_def)
      show "trie_ok (heap s') (Node Leaf a Leaf)" by (simp add: edge_ok_def)
      show "distinct (preorder (Node Leaf a Leaf))" by simp
      show "set_tree (Node Leaf a Leaf) \<inter> (set_tree T - set_tree T) = {}" by simp
      show "t_count s' + of_nat (size T) = t_count s + of_nat (size (Node Leaf a Leaf))"
        using same TL by (simp add: s'_def)
      show "pool_ok s' (set_tree T - set_tree T \<union> set_tree (Node Leaf a Leaf))"
        using pool1 TL by (simp add: s'_def pool_ok_def)
    qed (use TL in simp_all)
    have ol: "only_links s s' (set_tree T)" using TL by (simp add: only_links_def)
    have ha: "heap s' a = Some A" by (simp add: s'_def)
    have fields: "t_count s' = t_count s + 1" "qdebug s' = qdebug s" "t_mpls_vpn s' = t_mpls_vpn s"
      using same by (simp_all add: s'_def)
    have tp: "t_top s' = Some a" by (simp add: s'_def)
    from run inst fresh ol ha fields TL tp None show ?thesis
      unfolding A_def
      by (intro exI [of _ s'] exI [of _ a] exI [of _ False]) simp
  next
    case (Some m)
    with sl obtain mn where m: "m \<in> set_tree T" "heap s m = Some mn" "prefix_match (pfx mn) q"
      "prefixlen (pfx mn) < prefixlen q"
      "link mn (prefix_bit (u_prefix q) (prefixlen (pfx mn))) = None"
      by (auto simp: slot_def split: option.splits)
    define side where "side = prefix_bit (u_prefix q) (prefixlen (pfx mn))"
    from slot_inner [OF T m(1)] m(2) have
      hu: "heap_tree (heap s) (Some m) (link mn side) (child_tree T m side)" by auto
    with m(5) have uL: "child_tree T m side = Leaf"
      unfolding side_def by (auto dest: heap_tree_None_Leaf)
    from fresh m(1) have am: "a \<noteq> m" by auto
    have m1: "heap s1 m = Some mn" using keep [OF m(1)] m(2) by simp
    define s' where "s' = s1\<lparr>heap := (heap s1)(a \<mapsto> A, m \<mapsto> link_update side (Some a) mn),
      t_count := t_count s1 + 1\<rparr>"
    have run: "get_insert s q prn0 None mo = Inr (s', a)"
      using Some za m1 am
      by (simp add: get_insert_def bgp_node_set_def calloc link_under_def get_finish_def
          set_link_def node_upd_def bgp_lock_node_def s'_def A_def zero_node_def side_def
          fun_upd_twist)
    have ha: "heap s' a = Some A" using am by (simp add: s'_def)
    have hm: "heap s' m = Some (link_update side (Some a) mn)" by (simp add: s'_def)
    have hy: "\<And>y. y \<in> set_tree T \<Longrightarrow> y \<noteq> m \<Longrightarrow> heap s' y = heap s y"
      using fresh keep by (auto simp: s'_def)
    have inst: "table_tree s' (graft_at T mo side (Node Leaf a Leaf)) \<and>
         set_tree (graft_at T mo side (Node Leaf a Leaf)) =
           (set_tree T - set_tree (Leaf :: addr tree)) \<union> set_tree (Node Leaf a Leaf)"
    proof (rule table_tree_install [OF T])
      show "Leaf = hang_at T mo side" using Some uL by (simp add: hang_at_def)
      have "edge_ok (heap s') m side (Some a)"
        using ha hm m(3,4) by (simp add: edge_ok_def child_ok_def A_def side_def)
      then show "case mo of None \<Rightarrow> t_top s' = root_of (Node Leaf a Leaf)
        | Some m \<Rightarrow> m \<in> set_tree T \<and> t_top s' = t_top s \<and>
              (\<exists>mn. heap s m = Some mn \<and>
                  heap s' m = Some (link_update side (root_of (Node Leaf a Leaf)) mn)) \<and>
                 edge_ok (heap s') m side (root_of (Node Leaf a Leaf))"
        using Some m(1,2) hm same by (simp add: s'_def)
      show "heap_tree (heap s') mo (root_of (Node Leaf a Leaf)) (Node Leaf a Leaf)"
        using Some ha by (simp add: A_def zero_node_def)
      show "trie_ok (heap s') (Node Leaf a Leaf)" by (simp add: edge_ok_def)
      show "distinct (preorder (Node Leaf a Leaf))" by simp
      show "set_tree (Node Leaf a Leaf) \<inter> (set_tree T - set_tree (Leaf :: addr tree)) = {}"
        using fresh by simp
      show "t_count s' + of_nat (size (Leaf :: addr tree)) = t_count s + of_nat (size (Node Leaf a Leaf))"
        using same by (simp add: s'_def)
      show "pool_ok s' (set_tree T - set_tree (Leaf :: addr tree) \<union> set_tree (Node Leaf a Leaf))"
        using pool1 by (simp add: s'_def pool_ok_def Un_commute)
      show "\<And>y. y \<in> set_tree T \<Longrightarrow> y \<notin> set_tree (Leaf :: addr tree) \<Longrightarrow> Some y \<noteq> mo \<Longrightarrow>
          heap s' y = heap s y"
        using hy Some by simp
    qed
    have ol: "only_links s s' (set_tree T)"
    proof (rule only_links_I)
      fix y assume y: "y \<in> set_tree T"
      from heap_tree_valid [OF ht y] obtain n where n: "heap s y = Some n" by blast
      show "\<exists>n n'. heap s y = Some n \<and> heap s' y = Some n' \<and>
             n'\<lparr>parent := parent n, l_left := l_left n, l_right := l_right n\<rparr> = n"
      proof (cases "y = m")
        case True
        with m(2) hm show ?thesis by (simp add: link_update_only_links)
      next
        case False
        with hy [OF y] n show ?thesis by simp
      qed
    qed
    have fields: "t_count s' = t_count s + 1" "qdebug s' = qdebug s" "t_mpls_vpn s' = t_mpls_vpn s"
      using same by (simp_all add: s'_def)
    have tp: "t_top s' = t_top s" using same by (simp add: s'_def)
    have hm': "\<exists>mn. heap s m = Some mn \<and>
                heap s' m = Some (link_update (prefix_bit (u_prefix q) (prefixlen (pfx mn)))
                                   (Some a) mn)"
      using m(2) hm by (simp add: side_def)
    have hy': "\<forall>y\<in>set_tree T. Some y \<noteq> mo \<longrightarrow> heap s' y = heap s y"
      using hy Some by auto
    from run inst fresh ol ha fields tp hm' hy' Some show ?thesis
      unfolding A_def
      by (intro exI [of _ s'] exI [of _ a] exI [of _ side]) simp
  qed
qed


lemma heap_tree_reparent:
  assumes "heap_tree h par (Some c) u" "distinct (preorder u)" "h c = Some cn"
    and "h' c = Some (cn\<lparr>parent := par'\<rparr>)"
    and "\<And>y. y \<in> set_tree u \<Longrightarrow> y \<noteq> c \<Longrightarrow> h' y = h y"
  shows "heap_tree h' par' (Some c) u"
proof (cases u)
  case Leaf
  with assms(1) show ?thesis by simp
next
  case (Node l a r)
  with assms(1,3) have a: "a = c" and tl: "heap_tree h (Some c) (l_left cn) l"
    and tr: "heap_tree h (Some c) (l_right cn) r" by auto
  from assms(2) Node a have d: "c \<notin> set_tree l" "c \<notin> set_tree r" by auto
  have "heap_tree h' (Some c) (l_left cn) l = heap_tree h (Some c) (l_left cn) l"
    by (rule heap_tree_frame, rule assms(5)) (use d Node in auto)
  moreover have "heap_tree h' (Some c) (l_right cn) r = heap_tree h (Some c) (l_right cn) r"
    by (rule heap_tree_frame, rule assms(5)) (use d Node in auto)
  ultimately show ?thesis using tl tr Node a assms(4) by simp
qed

lemma glue_prefix_props:
  assumes "prefixlen q \<le> 128"
  shows "prefixlen (glue_prefix n q) \<le> prefixlen q"
    and "\<And>k. k < prefixlen (glue_prefix n q) \<Longrightarrow>
           prefix_bit (u_prefix (glue_prefix n q)) k = prefix_bit (u_prefix q) k \<and>
           prefix_bit (u_prefix n) k = prefix_bit (u_prefix q) k"
    and "prefixlen (glue_prefix n q) < prefixlen q \<Longrightarrow>
           prefix_bit (u_prefix n) (prefixlen (glue_prefix n q)) \<noteq>
           prefix_bit (u_prefix q) (prefixlen (glue_prefix n q))"
    and "prefix_check (glue_prefix n q)"
    and "family (glue_prefix n q) = family q"
proof -
  note P = route_common_props [OF assms, of n]
  show "prefixlen (glue_prefix n q) \<le> prefixlen q" using P by (simp add: glue_prefix_def)
  show "prefix_bit (u_prefix (glue_prefix n q)) k = prefix_bit (u_prefix q) k \<and>
           prefix_bit (u_prefix n) k = prefix_bit (u_prefix q) k"
    if "k < prefixlen (glue_prefix n q)" for k
    using P that by (simp add: glue_prefix_def)
  show "prefix_bit (u_prefix n) (prefixlen (glue_prefix n q)) \<noteq>
           prefix_bit (u_prefix q) (prefixlen (glue_prefix n q))"
    if "prefixlen (glue_prefix n q) < prefixlen q"
    using P that by (simp add: glue_prefix_def)
  show "prefix_check (glue_prefix n q)" using P by (simp add: glue_prefix_def prefix_check_iff)
  show "family (glue_prefix n q) = family q" by (simp add: glue_prefix_def)
qed

lemma glue_covers_input:
  assumes "prefixlen q \<le> 128"
  shows "prefix_match (glue_prefix n q) q"
  using glue_prefix_props(1,2) [OF assms, where n = n] by (simp add: prefix_match_iff)

lemma glue_above:
  assumes q: "prefixlen q \<le> 128" and nm: "\<not> prefix_match (pfx cn) q"
    and g: "pfx G = glue_prefix (pfx cn) q"
  shows "child_ok G (glue_side cn q) cn"
proof -
  note P = glue_prefix_props [OF q, where n = "pfx cn"]
  have short: "prefixlen (glue_prefix (pfx cn) q) < prefixlen (pfx cn)"
  proof (cases "prefixlen (pfx cn) \<le> prefixlen q")
    case True
    with nm obtain j where j: "j < prefixlen (pfx cn)"
      "prefix_bit (u_prefix (pfx cn)) j \<noteq> prefix_bit (u_prefix q) j"
      by (auto simp: prefix_match_iff)
    with P(2) [of j] have "\<not> j < prefixlen (glue_prefix (pfx cn) q)" by blast
    with j show ?thesis by simp
  next
    case False
    with P(1) show ?thesis by simp
  qed
  moreover have "prefix_match (glue_prefix (pfx cn) q) (pfx cn)"
    using short P(2) by (simp add: prefix_match_iff)
  ultimately show ?thesis by (simp add: child_ok_def g glue_side_def)
qed

lemma glue_below:
  assumes q: "prefixlen q \<le> 128" and e: "child_ok mn side cn"
    and m: "prefix_match (pfx mn) q" "prefixlen (pfx mn) < prefixlen q"
      "side = prefix_bit (u_prefix q) (prefixlen (pfx mn))"
  shows "\<And>G. pfx G = glue_prefix (pfx cn) q \<Longrightarrow> child_ok mn side G"
    and "prefix_bit (u_prefix (glue_prefix (pfx cn) q)) (prefixlen (pfx mn)) = side"
proof -
  note P = glue_prefix_props [OF q, where n = "pfx cn"]
  from e have e': "prefixlen (pfx mn) < prefixlen (pfx cn)"
    "\<And>k. k < prefixlen (pfx mn) \<Longrightarrow> prefix_bit (u_prefix (pfx mn)) k = prefix_bit (u_prefix (pfx cn)) k"
    "side = prefix_bit (u_prefix (pfx cn)) (prefixlen (pfx mn))"
    by (simp_all add: child_ok_def prefix_match_iff)
  from m(1) have mq: "\<And>k. k < prefixlen (pfx mn) \<Longrightarrow>
     prefix_bit (u_prefix (pfx mn)) k = prefix_bit (u_prefix q) k"
    by (simp add: prefix_match_iff)
  have long: "prefixlen (pfx mn) < prefixlen (glue_prefix (pfx cn) q)"
  proof (rule ccontr)
    assume "\<not> prefixlen (pfx mn) < prefixlen (glue_prefix (pfx cn) q)"
    then have le: "prefixlen (glue_prefix (pfx cn) q) \<le> prefixlen (pfx mn)" by simp
    with m(2) have "prefixlen (glue_prefix (pfx cn) q) < prefixlen q" by simp
    from P(3) [OF this] have ne: "prefix_bit (u_prefix (pfx cn)) (prefixlen (glue_prefix (pfx cn) q)) \<noteq>
           prefix_bit (u_prefix q) (prefixlen (glue_prefix (pfx cn) q))" .
    show False
    proof (cases "prefixlen (glue_prefix (pfx cn) q) = prefixlen (pfx mn)")
      case True
      with ne e'(3) m(3) show False by simp
    next
      case False
      with le have "prefixlen (glue_prefix (pfx cn) q) < prefixlen (pfx mn)" by simp
      from e'(2) [OF this] mq [OF this] ne show False by simp
    qed
  qed
  have cov: "prefix_match (pfx mn) (glue_prefix (pfx cn) q)"
    using long mq P(2) by (simp add: prefix_match_iff)
  have bit: "prefix_bit (u_prefix (glue_prefix (pfx cn) q)) (prefixlen (pfx mn)) = side"
    using P(2) [OF long] m(3) by simp
  from long cov bit show "child_ok mn side G" if "pfx G = glue_prefix (pfx cn) q" for G
    using that by (simp add: child_ok_def)
  from bit show "prefix_bit (u_prefix (glue_prefix (pfx cn) q)) (prefixlen (pfx mn)) = side" .
qed

lemma glue_node_fields [simp]:
  "pfx (glue_node cn q c mo) = glue_prefix (pfx cn) q"
  "parent (glue_node cn q c mo) = mo"
  "lock (glue_node cn q c mo) = 0"
  "info (glue_node cn q c mo) = None"
  "prn (glue_node cn q c mo) = None"
  "on_wq (glue_node cn q c mo) = False"
  "adj_ins (glue_node cn q c mo) = None"
  "adj_outs (glue_node cn q c mo) = None"
  "link (glue_node cn q c mo) b = (if b = glue_side cn q then Some c else None)"
  "l_left (glue_node cn q c mo) = (if glue_side cn q then None else Some c)"
  "l_right (glue_node cn q c mo) = (if glue_side cn q then Some c else None)"
  by (simp_all add: glue_node_def zero_node_def link_def)

lemma heap_tree_root_in: "heap_tree h par (Some c) t \<Longrightarrow> c \<in> set_tree t"
  by (cases t) auto

lemma glue_facts:
  assumes T: "table_tree s T" and sl: "slot (heap s) (t_top s) (set_tree T) q mo (Some c)"
    and vq: "prefixlen q \<le> 128"
  shows "\<exists>s4 g side cn.
      get_glue s q c mo = Inr (s4, g) \<and> g \<notin> set_tree T \<and> heap s c = Some cn \<and>
      \<not> prefix_match (pfx cn) q \<and>
      heap s4 g = Some (glue_node cn q c mo) \<and>
      heap s4 c = Some (cn\<lparr>parent := Some g\<rparr>) \<and>
      (case mo of
         None \<Rightarrow> t_top s4 = Some g \<and> t_top s = Some c
       | Some m \<Rightarrow> t_top s4 = t_top s \<and> m \<in> set_tree T \<and>
           (\<exists>mn. heap s m = Some mn \<and> side = prefix_bit (u_prefix q) (prefixlen (pfx mn)) \<and>
              prefix_match (pfx mn) q \<and> prefixlen (pfx mn) < prefixlen q \<and>
              link mn side = Some c \<and> heap s4 m = Some (link_update side (Some g) mn))) \<and>
      (\<forall>y\<in>set_tree T. y \<noteq> c \<longrightarrow> Some y \<noteq> mo \<longrightarrow> heap s4 y = heap s y) \<and>
      t_count s4 = t_count s \<and> pool_ok s4 (insert g (set_tree T)) \<and>
      qdebug s4 = qdebug s \<and> t_mpls_vpn s4 = t_mpls_vpn s"
proof -
  from T have ht: "heap_tree (heap s) None (t_top s) T" and pool: "pool_ok s (set_tree T)"
    by (simp_all add: table_tree_def)
  from sl obtain cn where cn: "heap s c = Some cn" "\<not> prefix_match (pfx cn) q"
    by (auto simp: slot_def split: option.splits)
  obtain g s1 where calloc: "bgp_node_calloc s = (g, s1)" by (cases "bgp_node_calloc s")
  from calloc_props [OF pool calloc] have
    fresh: "g \<notin> set_tree T" and zg: "heap s1 g = Some zero_node" and
    keep: "\<And>y. y \<in> set_tree T \<Longrightarrow> heap s1 y = heap s y" and
    pool1: "pool_ok s1 (insert g (set_tree T))" and
    same: "t_top s1 = t_top s" "t_count s1 = t_count s" "qdebug s1 = qdebug s"
      "t_mpls_vpn s1 = t_mpls_vpn s"
    by blast+
  have gn: "(link_update sc v n)\<lparr>parent := p\<rparr> = link_update sc v (n\<lparr>parent := p\<rparr>)" for sc v n p
    by (simp add: link_update_def)
  show ?thesis
  proof (cases mo)
    case None
    with sl have top: "t_top s = Some c" by (simp add: slot_def)
    with ht have cT: "c \<in> set_tree T" by (auto dest: heap_tree_root_in)
    with fresh have gc: "g \<noteq> c" by auto
    have c1: "heap s1 c = Some cn" using keep [OF cT] cn by simp
    define s4 where "s4 = s1\<lparr>heap := (heap s1)(c \<mapsto> cn\<lparr>parent := Some g\<rparr>,
        g \<mapsto> glue_node cn q c None), t_top := Some g\<rparr>"
    have run: "get_glue s q c mo = Inr (s4, g)"
      using None zg c1 gc
      by (simp add: get_glue_def calloc link_under_def set_link_def node_upd_def Let_def s4_def
          gn glue_node_def glue_side_def glue_prefix_def zero_node_def fun_upd_twist)
    have "heap s4 g = Some (glue_node cn q c mo)" "heap s4 c = Some (cn\<lparr>parent := Some g\<rparr>)"
      "t_top s4 = Some g" "\<forall>y\<in>set_tree T. y \<noteq> c \<longrightarrow> Some y \<noteq> mo \<longrightarrow> heap s4 y = heap s y"
      "t_count s4 = t_count s" "pool_ok s4 (insert g (set_tree T))"
      "qdebug s4 = qdebug s" "t_mpls_vpn s4 = t_mpls_vpn s"
      using None gc fresh keep same pool1 by (auto simp: s4_def pool_ok_def)
    with run fresh cn top None show ?thesis
      by (intro exI [of _ s4] exI [of _ g] exI [of _ False] exI [of _ cn]) simp
  next
    case (Some m)
    with sl cn obtain mn where m: "m \<in> set_tree T" "heap s m = Some mn" "prefix_match (pfx mn) q"
      "prefixlen (pfx mn) < prefixlen q"
      "link mn (prefix_bit (u_prefix q) (prefixlen (pfx mn))) = Some c"
      by (auto simp: slot_def split: option.splits)
    define side where "side = prefix_bit (u_prefix q) (prefixlen (pfx mn))"
    from slot_inner [OF T m(1)] m(2) have
      hu: "heap_tree (heap s) (Some m) (link mn side) (child_tree T m side)"
      and sub: "set_tree (child_tree T m side) \<subseteq> set_tree T"
      and mu: "m \<notin> set_tree (child_tree T m side)"
      and e: "edge_ok (heap s) m side (link mn side)" by auto
    from hu m(5) have cu: "c \<in> set_tree (child_tree T m side)"
      unfolding side_def by (auto dest: heap_tree_root_in)
    with sub mu have cT: "c \<in> set_tree T" and cm: "c \<noteq> m" by auto
    from fresh cT m(1) have gc: "g \<noteq> c" and gm: "g \<noteq> m" by auto
    have c1: "heap s1 c = Some cn" using keep [OF cT] cn by simp
    have m1: "heap s1 m = Some mn" using keep [OF m(1)] m(2) by simp
    from e m(2,5) cn have ce: "child_ok mn side cn" by (simp add: edge_ok_def side_def)
    have bit: "prefix_bit (u_prefix (glue_prefix (pfx cn) q)) (prefixlen (pfx mn)) = side"
      by (rule glue_below(2) [OF vq ce m(3,4) side_def])
    define s4 where "s4 = s1\<lparr>heap := (heap s1)(c \<mapsto> cn\<lparr>parent := Some g\<rparr>,
        m \<mapsto> link_update side (Some g) mn, g \<mapsto> glue_node cn q c (Some m))\<rparr>"
    have run: "get_glue s q c mo = Inr (s4, g)"
      using Some zg c1 m1 gc gm cm bit
      by (simp add: get_glue_def calloc link_under_def set_link_def node_upd_def Let_def s4_def
          gn glue_node_def glue_side_def glue_prefix_def zero_node_def fun_upd_twist)
    have "heap s4 g = Some (glue_node cn q c mo)" "heap s4 c = Some (cn\<lparr>parent := Some g\<rparr>)"
      "t_top s4 = t_top s" "heap s4 m = Some (link_update side (Some g) mn)"
      "\<forall>y\<in>set_tree T. y \<noteq> c \<longrightarrow> Some y \<noteq> mo \<longrightarrow> heap s4 y = heap s y"
      "t_count s4 = t_count s" "pool_ok s4 (insert g (set_tree T))"
      "qdebug s4 = qdebug s" "t_mpls_vpn s4 = t_mpls_vpn s"
      using Some gc gm cm fresh keep same pool1 by (auto simp: s4_def pool_ok_def)
    with run fresh cn m Some show ?thesis
      unfolding side_def [symmetric]
      by (intro exI [of _ s4] exI [of _ g] exI [of _ side] exI [of _ cn]) (simp add: side_def)
  qed
qed


lemma slot_hang:
  assumes T: "table_tree s T" and sl: "slot (heap s) (t_top s) (set_tree T) q mo nd"
    and side: "\<And>m mn. mo = Some m \<Longrightarrow> heap s m = Some mn \<Longrightarrow>
                 side = prefix_bit (u_prefix q) (prefixlen (pfx mn))"
  shows "heap_tree (heap s) mo nd (hang_at T mo side) \<and>
         trie_ok (heap s) (hang_at T mo side) \<and>
         distinct (preorder (hang_at T mo side)) \<and>
         set_tree (hang_at T mo side) \<subseteq> set_tree T \<and>
         (\<forall>m. mo = Some m \<longrightarrow> m \<notin> set_tree (hang_at T mo side) \<and> edge_ok (heap s) m side nd)"
proof (cases mo)
  case None
  with sl have "nd = t_top s" by (simp add: slot_def)
  with T None show ?thesis by (simp add: table_tree_def hang_at_def)
next
  case (Some m)
  with sl obtain mn where m: "m \<in> set_tree T" "heap s m = Some mn"
    "nd = link mn (prefix_bit (u_prefix q) (prefixlen (pfx mn)))"
    by (auto simp: slot_def split: option.splits)
  from side [OF Some m(2)] m(3) have nd: "nd = link mn side" by simp
  from slot_inner [OF T m(1)] m(2) nd Some show ?thesis
    by (auto simp: hang_at_def)
qed

lemma glue_tree_step:
  assumes T: "table_tree s T" and sl: "slot (heap s) (t_top s) (set_tree T) q mo (Some c)"
    and vq: "prefixlen q \<le> 128"
    and run: "get_glue s q c mo = Inr (s4, g)"
    and g: "g \<notin> set_tree T" "heap s c = Some cn" "\<not> prefix_match (pfx cn) q"
      "heap s4 g = Some (glue_node cn q c mo)" "heap s4 c = Some (cn\<lparr>parent := Some g\<rparr>)"
    and mo: "case mo of
         None \<Rightarrow> t_top s4 = Some g \<and> t_top s = Some c
       | Some m \<Rightarrow> t_top s4 = t_top s \<and> m \<in> set_tree T \<and>
           (\<exists>mn. heap s m = Some mn \<and> side = prefix_bit (u_prefix q) (prefixlen (pfx mn)) \<and>
              prefix_match (pfx mn) q \<and> prefixlen (pfx mn) < prefixlen q \<and>
              link mn side = Some c \<and> heap s4 m = Some (link_update side (Some g) mn))"
    and frame: "\<forall>y\<in>set_tree T. y \<noteq> c \<longrightarrow> Some y \<noteq> mo \<longrightarrow> heap s4 y = heap s y"
    and rest: "t_count s4 = t_count s" "pool_ok s4 (insert g (set_tree T))"
  shows "table_tree (s4\<lparr>t_count := t_count s4 + 1\<rparr>)
           (graft_at T mo side (glue_tree (glue_side cn q) g (hang_at T mo side) Leaf)) \<and>
         set_tree (graft_at T mo side (glue_tree (glue_side cn q) g (hang_at T mo side) Leaf)) =
           insert g (set_tree T) \<and>
         only_links s s4 (set_tree T) \<and> c \<in> set_tree T"
proof -
  define u where "u = hang_at T mo side"
  define u' where "u' = glue_tree (glue_side cn q) g u Leaf"
  define s4' where "s4' = s4\<lparr>t_count := t_count s4 + 1\<rparr>"
  have sd: "side = prefix_bit (u_prefix q) (prefixlen (pfx mn))"
    if "mo = Some m" "heap s m = Some mn" for m mn
    using mo that by auto
  have "heap_tree (heap s) mo (Some c) (hang_at T mo side) \<and>
         trie_ok (heap s) (hang_at T mo side) \<and>
         distinct (preorder (hang_at T mo side)) \<and>
         set_tree (hang_at T mo side) \<subseteq> set_tree T \<and>
         (\<forall>m. mo = Some m \<longrightarrow> m \<notin> set_tree (hang_at T mo side) \<and>
              edge_ok (heap s) m side (Some c))"
    by (rule slot_hang [OF T sl]) (rule sd)
  then have
    hu: "heap_tree (heap s) mo (Some c) u" and tu: "trie_ok (heap s) u"
    and du: "distinct (preorder u)" and sub: "set_tree u \<subseteq> set_tree T"
    and mu: "\<And>m. mo = Some m \<Longrightarrow> m \<notin> set_tree u"
    and eu: "\<And>m. mo = Some m \<Longrightarrow> edge_ok (heap s) m side (Some c)"
    unfolding u_def by blast+
  from hu have cu: "c \<in> set_tree u" by (rule heap_tree_root_in)
  with sub have cT: "c \<in> set_tree T" by auto
  from g(1) sub have gu: "g \<notin> set_tree u" by auto
  have fu: "heap s4 y = heap s y" if "y \<in> set_tree u" "y \<noteq> c" for y
    using frame that sub mu by (cases mo) auto
  have ru: "root_of u' = Some g" by (simp add: u'_def glue_tree_def)
  have h4: "heap_tree (heap s4) (Some g) (Some c) u"
    by (rule heap_tree_reparent [OF hu du g(2) g(5) fu])
  have ht': "heap_tree (heap s4') mo (root_of u') u'"
    using h4 g(4) by (simp add: u'_def glue_tree_def s4'_def)
  have "trie_ok (heap s4) u = trie_ok (heap s) u"
  proof (rule trie_ok_frame)
    fix y assume "y \<in> set_tree u"
    with fu [of y] g(2,5) show "map_option pfx (heap s4 y) = map_option pfx (heap s y)"
      by (cases "y = c") simp_all
  qed
  with tu have tu4: "trie_ok (heap s4) u" by simp
  have ru': "root_of u = Some c" using hu by (auto dest: heap_tree_root)
  have "child_ok (glue_node cn q c mo) (glue_side cn q) (cn\<lparr>parent := Some g\<rparr>)"
    using glue_above [OF vq g(3), of "glue_node cn q c mo"] by (simp add: child_ok_def)
  then have eg: "edge_ok (heap s4) g (glue_side cn q) (Some c)"
    using g(4,5) by (simp add: edge_ok_def)
  have en: "\<And>h a sd. edge_ok h a sd None" by (simp add: edge_ok_def)
  have tr': "trie_ok (heap s4') u'"
    using tu4 eg ru' en by (cases "glue_side cn q") (simp_all add: u'_def glue_tree_def s4'_def)
  have d': "distinct (preorder u')" using du gu by (simp add: u'_def glue_tree_def)
  have su': "set_tree u' = insert g (set_tree u)" by (auto simp: u'_def glue_tree_def)
  have sz: "size u' = size u + 1" by (simp add: u'_def glue_tree_def)
  have inst: "table_tree s4' (graft_at T mo side u') \<and>
         set_tree (graft_at T mo side u') = (set_tree T - set_tree u) \<union> set_tree u'"
  proof (rule table_tree_install [OF T u_def _ _ ht' tr' d'])
    show "case mo of None \<Rightarrow> t_top s4' = root_of u'
        | Some m \<Rightarrow> m \<in> set_tree T \<and> t_top s4' = t_top s \<and>
            (\<exists>mn. heap s m = Some mn \<and> heap s4' m = Some (link_update side (root_of u') mn)) \<and>
            edge_ok (heap s4') m side (root_of u')"
    proof (cases mo)
      case None
      with mo ru show ?thesis by (simp add: s4'_def)
    next
      case (Some m)
      with mo obtain mn where m: "t_top s4 = t_top s" "m \<in> set_tree T" "heap s m = Some mn"
        "side = prefix_bit (u_prefix q) (prefixlen (pfx mn))" "prefix_match (pfx mn) q"
        "prefixlen (pfx mn) < prefixlen q" "link mn side = Some c"
        "heap s4 m = Some (link_update side (Some g) mn)" by auto
      from eu [OF Some] m(3) g(2) have ce: "child_ok mn side cn" by (simp add: edge_ok_def)
      have "child_ok mn side (glue_node cn q c mo)"
        by (rule glue_below(1) [OF vq ce m(5,6,4)]) simp
      then have "edge_ok (heap s4) m side (Some g)"
        using m(8) g(4) by (simp add: edge_ok_def child_ok_def)
      with Some m ru show ?thesis by (simp add: s4'_def)
    qed
    show "\<And>y. y \<in> set_tree T \<Longrightarrow> y \<notin> set_tree u \<Longrightarrow> Some y \<noteq> mo \<Longrightarrow> heap s4' y = heap s y"
      using frame cu by (auto simp: s4'_def)
    show "set_tree u' \<inter> (set_tree T - set_tree u) = {}" using g(1) su' by auto
    show "t_count s4' + of_nat (size u) = t_count s + of_nat (size u')"
      using rest(1) sz by (simp add: s4'_def)
    have "set_tree T - set_tree u \<union> set_tree u' = insert g (set_tree T)"
      using sub su' by auto
    then show "pool_ok s4' (set_tree T - set_tree u \<union> set_tree u')"
      using rest(2) by (simp add: s4'_def pool_ok_def)
  qed
  have st: "(set_tree T - set_tree u) \<union> set_tree u' = insert g (set_tree T)"
    using sub su' by auto
  have ol: "only_links s s4 (set_tree T)"
  proof (rule only_links_I)
    fix y assume y: "y \<in> set_tree T"
    from T have ht: "heap_tree (heap s) None (t_top s) T" by (simp add: table_tree_def)
    from heap_tree_valid [OF ht y] obtain n where n: "heap s y = Some n" by blast
    show "\<exists>n n'. heap s y = Some n \<and> heap s4 y = Some n' \<and>
             n'\<lparr>parent := parent n, l_left := l_left n, l_right := l_right n\<rparr> = n"
    proof (cases "y = c")
      case True
      with g(2,5) show ?thesis by simp
    next
      case False
      show ?thesis
      proof (cases "Some y = mo")
        case True
        with mo n show ?thesis by (auto simp: link_update_only_links)
      next
        case False
        with frame y \<open>y \<noteq> c\<close> n show ?thesis by simp
      qed
    qed
  qed
  from inst st ol cT show ?thesis unfolding u'_def u_def s4'_def by simp
qed


lemma heap_tree_links:
  "(\<And>y. y \<in> set_tree t \<Longrightarrow>
      (case h y of
         None \<Rightarrow> h' y = None
       | Some n \<Rightarrow> (case h' y of None \<Rightarrow> False
                    | Some n' \<Rightarrow> parent n' = parent n \<and> l_left n' = l_left n \<and>
                                 l_right n' = l_right n))) \<Longrightarrow>
   heap_tree h' par x t = heap_tree h par x t"
proof (induction t arbitrary: par x)
  case Leaf
  then show ?case by simp
next
  case (Node l a r)
  have l: "\<And>p y. heap_tree h' p y l = heap_tree h p y l"
    by (rule Node.IH(1)) (simp add: Node.prems)
  have r: "\<And>p y. heap_tree h' p y r = heap_tree h p y r"
    by (rule Node.IH(2)) (simp add: Node.prems)
  from Node.prems [of a] show ?case
    by (auto simp: l r split: option.splits)
qed

lemma table_tree_payload:
  assumes "table_tree s T" "heap s a = Some n"
    and "pfx n' = pfx n" "parent n' = parent n" "l_left n' = l_left n" "l_right n' = l_right n"
  shows "table_tree (s\<lparr>heap := (heap s)(a \<mapsto> n')\<rparr>) T"
proof -
  have "heap_tree ((heap s)(a \<mapsto> n')) par x T = heap_tree (heap s) par x T" for par x
    by (rule heap_tree_links) (use assms(2-) in \<open>auto split: option.splits\<close>)
  moreover have "trie_ok ((heap s)(a \<mapsto> n')) T = trie_ok (heap s) T"
    by (rule trie_ok_frame) (use assms(2,3) in auto)
  ultimately show ?thesis using assms(1) by (simp add: table_tree_def pool_ok_def)
qed

lemma node_upd_count:
  "node_upd f a (s\<lparr>t_count := k\<rparr>) = (node_upd f a s)\<lparr>t_count := k\<rparr>"
  by (simp add: node_upd_def split: option.splits)

lemma node_upd_t_count [simp]: "t_count (node_upd f a s) = t_count s"
  by (simp add: node_upd_def split: option.splits)

lemma calloc_count:
  "bgp_node_calloc s = (a, s1) \<Longrightarrow>
   bgp_node_calloc (s\<lparr>t_count := k\<rparr>) = (a, s1\<lparr>t_count := k\<rparr>) \<and> t_count s1 = t_count s"
  by (cases "rn_frees s") (auto simp: bgp_node_calloc_def Let_def cong: if_cong)

lemma bgp_node_set_count:
  "bgp_node_set s q = (a, s1) \<Longrightarrow>
   bgp_node_set (s\<lparr>t_count := k\<rparr>) q = (a, s1\<lparr>t_count := k\<rparr>) \<and> t_count s1 = t_count s"
proof -
  assume set: "bgp_node_set s q = (a, s1)"
  obtain b s0 where c: "bgp_node_calloc s = (b, s0)" by (cases "bgp_node_calloc s")
  from calloc_count [OF c, of k] set c show ?thesis
    by (auto simp: bgp_node_set_def node_upd_count)
qed

lemma set_link_count:
  "set_link a b (s\<lparr>t_count := k\<rparr>) =
     (case set_link a b s of Inl e \<Rightarrow> Inl e | Inr s' \<Rightarrow> Inr (s'\<lparr>t_count := k\<rparr>))"
  by (simp add: set_link_def node_upd_count Let_def split: option.splits)

lemma set_link_t_count: "set_link a b s = Inr s' \<Longrightarrow> t_count s' = t_count s"
  by (auto simp: set_link_def Let_def split: option.splits)

lemma get_tail_eq:
  "(case bgp_node_set s4 q of
      (n2, s5) \<Rightarrow>
        (case set_link g n2 s5 of
           Inl e \<Rightarrow> Inl e
         | Inr s6 \<Rightarrow> get_finish (s6\<lparr>t_count := t_count s6 + 1\<rparr>) n2 prn0)) =
   get_insert (s4\<lparr>t_count := t_count s4 + 1\<rparr>) q prn0 None (Some g)"
proof -
  obtain n2 s5 where set: "bgp_node_set s4 q = (n2, s5)" by (cases "bgp_node_set s4 q")
  note set' = bgp_node_set_count [OF set, of "t_count s4 + 1"]
  show ?thesis
  proof (cases "set_link g n2 s5")
    case (Inl e)
    then show ?thesis
      using set set' by (simp add: get_insert_def link_under_def set_link_count)
  next
    case (Inr s6)
    from set_link_t_count [OF Inr] set' have "t_count s6 = t_count s4" by simp
    with Inr show ?thesis
      using set set' by (simp add: get_insert_def link_under_def set_link_count)
  qed
qed


lemma only_links_eq:
  "only_links s s4 N \<Longrightarrow> (\<And>y. y \<in> N \<Longrightarrow> heap s' y = heap s4 y) \<Longrightarrow> only_links s s' N"
  unfolding only_links_def by (intro ballI) (auto split: option.splits)

lemma get_insert_glue:
  assumes T: "table_tree s T" and sl: "slot (heap s) (t_top s) (set_tree T) q mo (Some c)"
    and vq: "prefixlen q \<le> 128"
  shows "\<exists>s' ret g side cn G T'.
      get_insert s q prn0 (Some c) mo = Inr (s', ret) \<and>
      g \<notin> set_tree T \<and> c \<in> set_tree T \<and> heap s c = Some cn \<and> \<not> prefix_match (pfx cn) q \<and>
      heap s' g = Some G \<and> pfx G = glue_prefix (pfx cn) q \<and> parent G = mo \<and>
      link G (glue_side cn q) = Some c \<and> info G = None \<and> \<not> on_wq G \<and>
      heap s' c = Some (cn\<lparr>parent := Some g\<rparr>) \<and>
      (case mo of
         None \<Rightarrow> t_top s' = Some g \<and> t_top s = Some c
       | Some m \<Rightarrow> t_top s' = t_top s \<and> m \<in> set_tree T \<and>
           (\<exists>mn. heap s m = Some mn \<and> side = prefix_bit (u_prefix q) (prefixlen (pfx mn)) \<and>
              link mn side = Some c \<and> heap s' m = Some (link_update side (Some g) mn))) \<and>
      (if prefixlen (glue_prefix (pfx cn) q) = prefixlen q
       then ret = g \<and> lock G = 1 \<and> prn G = prn0 \<and> link G (\<not> glue_side cn q) = None \<and>
            t_count s' = t_count s + 1 \<and> set_tree T' = insert g (set_tree T)
       else ret \<noteq> g \<and> ret \<notin> set_tree T \<and>
            heap s' ret = Some (zero_node\<lparr>pfx := q, parent := Some g, prn := prn0, lock := 1\<rparr>) \<and>
            link G (\<not> glue_side cn q) = Some ret \<and> lock G = 0 \<and> prn G = None \<and>
            t_count s' = t_count s + 2 \<and> set_tree T' = insert ret (insert g (set_tree T))) \<and>
      table_tree s' T' \<and> only_links s s' (set_tree T) \<and>
      qdebug s' = qdebug s \<and> t_mpls_vpn s' = t_mpls_vpn s \<and>
      (\<forall>y\<in>set_tree T. y \<noteq> c \<longrightarrow> Some y \<noteq> mo \<longrightarrow> heap s' y = heap s y)"
proof -
  from glue_facts [OF T sl vq] obtain s4 g side cn where
    run: "get_glue s q c mo = Inr (s4, g)" and
    g: "g \<notin> set_tree T" "heap s c = Some cn" "\<not> prefix_match (pfx cn) q"
      "heap s4 g = Some (glue_node cn q c mo)" "heap s4 c = Some (cn\<lparr>parent := Some g\<rparr>)" and
    mo: "case mo of
         None \<Rightarrow> t_top s4 = Some g \<and> t_top s = Some c
       | Some m \<Rightarrow> t_top s4 = t_top s \<and> m \<in> set_tree T \<and>
           (\<exists>mn. heap s m = Some mn \<and> side = prefix_bit (u_prefix q) (prefixlen (pfx mn)) \<and>
              prefix_match (pfx mn) q \<and> prefixlen (pfx mn) < prefixlen q \<and>
              link mn side = Some c \<and> heap s4 m = Some (link_update side (Some g) mn))" and
    frame: "\<forall>y\<in>set_tree T. y \<noteq> c \<longrightarrow> Some y \<noteq> mo \<longrightarrow> heap s4 y = heap s y" and
    rest: "t_count s4 = t_count s" "pool_ok s4 (insert g (set_tree T))" and
    flags: "qdebug s4 = qdebug s" "t_mpls_vpn s4 = t_mpls_vpn s"
    by blast
  define T4 where "T4 = graft_at T mo side (glue_tree (glue_side cn q) g (hang_at T mo side) Leaf)"
  define s4' where "s4' = s4\<lparr>t_count := t_count s4 + 1\<rparr>"
  from glue_tree_step [OF T sl vq run g mo frame rest] have
    T4: "table_tree s4' T4" and set4: "set_tree T4 = insert g (set_tree T)" and
    ol4: "only_links s s4 (set_tree T)" and cT: "c \<in> set_tree T"
    unfolding T4_def s4'_def by blast+
  from g(1) cT have gc: "g \<noteq> c" by auto
  have gm: "Some g \<noteq> mo" using mo g(1) by (cases mo) auto
  define GN where "GN = glue_node cn q c mo"
  have mo_weak: "case mo of
         None \<Rightarrow> t_top s4 = Some g \<and> t_top s = Some c
       | Some m \<Rightarrow> t_top s4 = t_top s \<and> m \<in> set_tree T \<and>
           (\<exists>mn. heap s m = Some mn \<and> side = prefix_bit (u_prefix q) (prefixlen (pfx mn)) \<and>
              link mn side = Some c \<and> heap s4 m = Some (link_update side (Some g) mn))"
    using mo by (cases mo) auto
  show ?thesis
  proof (cases "prefixlen (glue_prefix (pfx cn) q) = prefixlen q")
    case True
    define G where "G = GN\<lparr>prn := prn0, lock := lock GN + 1\<rparr>"
    define s' where "s' = s4'\<lparr>heap := (heap s4')(g \<mapsto> G)\<rparr>"
    have "get_insert s q prn0 (Some c) mo = get_finish s4 g prn0"
      using run g(4) True by (simp add: get_insert_def)
    also have "\<dots> = Inr (s', g)"
      using g(4) by (simp add: get_finish_eq s'_def s4'_def G_def GN_def)
    finally have r: "get_insert s q prn0 (Some c) mo = Inr (s', g)" .
    have hg4: "heap s4' g = Some GN" using g(4) by (simp add: s4'_def GN_def)
    have T': "table_tree s' T4"
      unfolding s'_def by (rule table_tree_payload [OF T4 hg4]) (simp_all add: G_def)
    have ol: "only_links s s' (set_tree T)"
      by (rule only_links_eq [OF ol4]) (use g(1) in \<open>auto simp: s'_def s4'_def\<close>)
    have hg: "heap s' g = Some G" by (simp add: s'_def)
    have hc: "heap s' c = Some (cn\<lparr>parent := Some g\<rparr>)" using gc g(5) by (simp add: s'_def s4'_def)
    have mo': "case mo of
         None \<Rightarrow> t_top s' = Some g \<and> t_top s = Some c
       | Some m \<Rightarrow> t_top s' = t_top s \<and> m \<in> set_tree T \<and>
           (\<exists>mn. heap s m = Some mn \<and> side = prefix_bit (u_prefix q) (prefixlen (pfx mn)) \<and>
              link mn side = Some c \<and> heap s' m = Some (link_update side (Some g) mn))"
      using mo_weak gm by (cases mo) (auto simp: s'_def s4'_def)
    have Gf: "pfx G = glue_prefix (pfx cn) q" "parent G = mo" "link G (glue_side cn q) = Some c"
      "info G = None" "\<not> on_wq G" "lock G = 1" "prn G = prn0" "link G (\<not> glue_side cn q) = None"
      by (simp_all add: G_def GN_def link_def)
    have cnt: "t_count s' = t_count s + 1" using rest(1) by (simp add: s'_def s4'_def)
    have fl: "qdebug s' = qdebug s" "t_mpls_vpn s' = t_mpls_vpn s"
      using flags by (simp_all add: s'_def s4'_def)
    have fr0: "\<forall>y\<in>set_tree T. y \<noteq> c \<longrightarrow> Some y \<noteq> mo \<longrightarrow> heap s' y = heap s y"
      using frame g(1) by (auto simp: s'_def s4'_def)
    from r g(1,2,3) cT hg Gf hc mo' True cnt set4 T' ol fl fr0 show ?thesis
      by (intro exI [of _ s'] exI [of _ g] exI [of _ side] exI [of _ cn] exI [of _ G]
          exI [of _ T4]) simp
  next
    case False
    note P = glue_prefix_props [OF vq, where n = "pfx cn"]
    from False P(1) have lt: "prefixlen (glue_prefix (pfx cn) q) < prefixlen q" by simp
    from P(3) [OF lt] have ne: "prefix_bit (u_prefix q) (prefixlen (glue_prefix (pfx cn) q)) \<noteq>
       glue_side cn q" by (auto simp: glue_side_def)
    have "get_insert s q prn0 (Some c) mo = get_insert s4' q prn0 None (Some g)"
      using run g(4) False by (simp add: get_insert_def get_tail_eq s4'_def)
    moreover have sl': "slot (heap s4') (t_top s4') (set_tree T4) q (Some g) None"
      using g(4) set4 glue_covers_input [OF vq, of "pfx cn"] lt ne
      by (simp add: slot_def s4'_def)
    from get_insert_leaf [OF T4 sl', of prn0] obtain s' ret side2 where
      r2: "get_insert s4' q prn0 None (Some g) = Inr (s', ret)" and
      ret: "ret \<notin> set_tree T4"
        "heap s' ret = Some (zero_node\<lparr>pfx := q, parent := Some g, prn := prn0, lock := 1\<rparr>)"
        "t_count s' = t_count s4' + 1"
        "table_tree s' (graft_at T4 (Some g) side2 (Node Leaf ret Leaf))"
        "set_tree (graft_at T4 (Some g) side2 (Node Leaf ret Leaf)) = insert ret (set_tree T4)"
        "qdebug s' = qdebug s4'" "t_mpls_vpn s' = t_mpls_vpn s4'" and
      mg: "t_top s' = t_top s4'"
        "\<exists>mn. heap s4' g = Some mn \<and>
             heap s' g = Some (link_update (prefix_bit (u_prefix q) (prefixlen (pfx mn)))
                                   (Some ret) mn)" and
      fr: "\<forall>y\<in>set_tree T4. Some y \<noteq> Some g \<longrightarrow> heap s' y = heap s4' y"
      by auto
    ultimately have r: "get_insert s q prn0 (Some c) mo = Inr (s', ret)" by simp
    define G where "G = link_update (prefix_bit (u_prefix q) (prefixlen (glue_prefix (pfx cn) q)))
       (Some ret) GN"
    have hg: "heap s' g = Some G" using mg(2) g(4) by (simp add: s4'_def G_def GN_def)
    have fr': "heap s' y = heap s4 y" if "y \<in> set_tree T" for y
      using fr that set4 g(1) by (auto simp: s4'_def)
    have hc: "heap s' c = Some (cn\<lparr>parent := Some g\<rparr>)" using fr' [OF cT] g(5) by simp
    have ol: "only_links s s' (set_tree T)"
      by (rule only_links_eq [OF ol4]) (rule fr')
    have mo': "case mo of
         None \<Rightarrow> t_top s' = Some g \<and> t_top s = Some c
       | Some m \<Rightarrow> t_top s' = t_top s \<and> m \<in> set_tree T \<and>
           (\<exists>mn. heap s m = Some mn \<and> side = prefix_bit (u_prefix q) (prefixlen (pfx mn)) \<and>
              link mn side = Some c \<and> heap s' m = Some (link_update side (Some g) mn))"
    proof (cases mo)
      case None
      with mo_weak mg(1) show ?thesis by (simp add: s4'_def)
    next
      case (Some m)
      with mo_weak have "m \<in> set_tree T" by simp
      from fr' [OF this] mo_weak mg(1) Some show ?thesis by (simp add: s4'_def)
    qed
    have Gf: "pfx G = glue_prefix (pfx cn) q" "parent G = mo" "link G (glue_side cn q) = Some c"
      "info G = None" "\<not> on_wq G" "lock G = 0" "prn G = None"
      "link G (\<not> glue_side cn q) = Some ret"
      using ne by (auto simp: G_def GN_def)
    have cnt: "t_count s' = t_count s + 2" using ret(3) rest(1) by (simp add: s4'_def)
    have fl: "qdebug s' = qdebug s" "t_mpls_vpn s' = t_mpls_vpn s"
      using flags ret(6,7) by (simp_all add: s4'_def)
    have rg: "ret \<noteq> g" "ret \<notin> set_tree T" using ret(1) set4 by auto
    have set': "set_tree (graft_at T4 (Some g) side2 (Node Leaf ret Leaf)) =
        insert ret (insert g (set_tree T))" using ret(5) set4 by simp
    have fr0: "\<forall>y\<in>set_tree T. y \<noteq> c \<longrightarrow> Some y \<noteq> mo \<longrightarrow> heap s' y = heap s y"
      using frame fr' by simp
    from r g(1,2,3) cT hg Gf hc mo' False cnt set' ret(2,4) rg ol fl fr0 show ?thesis
      by (intro exI [of _ s'] exI [of _ ret] exI [of _ g] exI [of _ side] exI [of _ cn]
          exI [of _ G] exI [of _ "graft_at T4 (Some g) side2 (Node Leaf ret Leaf)"]) simp
  qed
qed

section \<open>The whole of bgp_node_get\<close>

lemma get_walk_table:
  assumes "table_tree s T"
  shows "\<exists>w. get_walk (heap s) q (t_top s) None = Some (Inr w) \<and>
             walk_spec (heap s) q (set_tree T) None (t_top s) w"
  using assms by (auto simp: table_tree_def intro: get_walk_tree)

lemma prefix_match_refl [simp]: "prefix_match n n"
  by (simp add: prefix_match_iff)

lemma get_walk_finds:
  "heap_tree h par x t \<Longrightarrow> trie_ok h t \<Longrightarrow> a \<in> set_tree t \<Longrightarrow> h a = Some n \<Longrightarrow>
   get_walk h (pfx n) x par = Some (Inr (Exact a))"
proof (induction t arbitrary: par x)
  case Leaf
  then show ?case by simp
next
  case (Node l b r)
  from heap_tree_NodeD [OF Node.prems(1)] obtain nb where x: "x = Some b" and nb: "h b = Some nb"
    and tl: "heap_tree h (Some b) (l_left nb) l" and tr: "heap_tree h (Some b) (l_right nb) r"
    by blast
  from Node.prems(2) have ok: "trie_ok h l" "trie_ok h r" by simp_all
  note u = under_children [OF Node.prems(1,2) nb]
  show ?case
  proof (cases "a = b")
    case True
    with nb Node.prems(4) have "nb = n" by simp
    with x nb True show ?thesis by (subst get_walk.simps) simp
  next
    case False
    with Node.prems(3) consider "a \<in> set_tree l" | "a \<in> set_tree r" by auto
    then show ?thesis
    proof cases
      case 1
      with u(1) Node.prems(4) have c: "child_ok nb False n" by (auto simp: under_def)
      then have "get_walk h (pfx n) x par = get_walk h (pfx n) (l_left nb) (Some b)"
        using x nb by (subst get_walk.simps) (auto simp: child_ok_def link_def prefix_match_iff)
      with Node.IH(1) [OF tl ok(1) 1 Node.prems(4)] show ?thesis by simp
    next
      case 2
      with u(2) Node.prems(4) have c: "child_ok nb True n" by (auto simp: under_def)
      then have "get_walk h (pfx n) x par = get_walk h (pfx n) (l_right nb) (Some b)"
        using x nb by (subst get_walk.simps) (auto simp: child_ok_def link_def prefix_match_iff)
      with Node.IH(2) [OF tr ok(2) 2 Node.prems(4)] show ?thesis by simp
    qed
  qed
qed

text \<open>What \<^verbatim>\<open>bgp_node_get\<close> does on a well-formed table, by the way its loop ends.\<close>

lemma bgp_node_get_exact:
  assumes T: "table_tree s T" and pre: "\<not> qdebug s \<or> prn0 = None \<or> t_mpls_vpn s"
    and w: "get_walk (heap s) q (t_top s) None = Some (Inr (Exact a))"
  shows "\<exists>n. a \<in> set_tree T \<and> heap s a = Some n \<and> prefix_match (pfx n) q \<and>
             prefixlen (pfx n) = prefixlen q \<and>
             bgp_node_get s q prn0 =
               (if qdebug s \<and> prn n \<noteq> prn0 then Some (Inl AssertFailed)
                else Some (Inr (locked s (Some a), a))) \<and>
             table_tree (locked s (Some a)) T"
proof -
  from get_walk_table [OF T, of q] w have "walk_spec (heap s) q (set_tree T) None (t_top s) (Exact a)"
    by simp
  then obtain n where n: "a \<in> set_tree T" "heap s a = Some n" "prefix_match (pfx n) q"
    "prefixlen (pfx n) = prefixlen q" by (auto simp: walk_spec_def)
  have "bgp_node_get s q prn0 =
               (if qdebug s \<and> prn n \<noteq> prn0 then Some (Inl AssertFailed)
                else Some (Inr (locked s (Some a), a)))"
    using pre w n(2) by (auto simp: bgp_node_get_def bgp_lock_node_def locked_def)
  moreover have "table_tree (locked s (Some a)) T"
    using table_tree_payload [OF T n(2), of "n\<lparr>lock := lock n + 1\<rparr>"] n(2)
    by (simp add: locked_def node_upd_def)
  ultimately show ?thesis using n by blast
qed

lemma bgp_node_get_stop:
  assumes T: "table_tree s T" and pre: "\<not> qdebug s \<or> prn0 = None \<or> t_mpls_vpn s"
    and w: "get_walk (heap s) q (t_top s) None = Some (Inr (Stop nd mo))"
  shows "bgp_node_get s q prn0 = Some (get_insert s q prn0 nd mo) \<and>
         slot (heap s) (t_top s) (set_tree T) q mo nd"
proof -
  from get_walk_table [OF T, of q] w have "walk_spec (heap s) q (set_tree T) None (t_top s) (Stop nd mo)"
    by simp
  then have "slot (heap s) (t_top s) (set_tree T) q mo nd" by (rule slot_of_walk_spec)
  moreover have "bgp_node_get s q prn0 = Some (get_insert s q prn0 nd mo)"
    using pre w by (auto simp: bgp_node_get_def)
  ultimately show ?thesis by simp
qed

lemma bgp_node_get_preserves:
  assumes ok: "table_ok s" and vq: "prefixlen q \<le> 128"
    and run: "bgp_node_get s q prn0 = Some (Inr (s', ret))"
  shows "table_ok s'"
proof -
  from ok obtain T where T: "table_tree s T" by (auto simp: table_ok_def)
  from run have pre: "\<not> qdebug s \<or> prn0 = None \<or> t_mpls_vpn s"
    by (auto simp: bgp_node_get_def split: if_splits)
  from get_walk_table [OF T, of q] obtain w where
    w: "get_walk (heap s) q (t_top s) None = Some (Inr w)" by blast
  show ?thesis
  proof (cases w)
    case (Exact a)
    from bgp_node_get_exact [OF T pre w [unfolded Exact], of ] run show ?thesis
      by (auto simp: table_ok_def split: if_splits)
  next
    case (Stop nd mo)
    from bgp_node_get_stop [OF T pre w [unfolded Stop]] run have
      gi: "get_insert s q prn0 nd mo = Inr (s', ret)" and
      sl: "slot (heap s) (t_top s) (set_tree T) q mo nd" by simp_all
    show ?thesis
    proof (cases nd)
      case None
      from get_insert_leaf [OF T sl [unfolded None], of prn0] gi None show ?thesis
        by (auto simp: table_ok_def)
    next
      case (Some c)
      from get_insert_glue [OF T sl [unfolded Some] vq, of prn0] gi Some show ?thesis
        by (auto simp: table_ok_def)
    qed
  qed
qed

lemma bgp_node_get_returns:
  assumes ok: "table_ok s" and vq: "prefixlen q \<le> 128"
  shows "\<exists>r. bgp_node_get s q prn0 = Some r \<and>
           ((\<exists>s' ret. r = Inr (s', ret)) \<or> r = Inl AssertFailed \<and> qdebug s)"
proof -
  from ok obtain T where T: "table_tree s T" by (auto simp: table_ok_def)
  show ?thesis
  proof (cases "\<not> qdebug s \<or> prn0 = None \<or> t_mpls_vpn s")
    case False
    then show ?thesis by (auto simp: bgp_node_get_def)
  next
    case True
    from get_walk_table [OF T, of q] obtain w where
      w: "get_walk (heap s) q (t_top s) None = Some (Inr w)" by blast
    show ?thesis
    proof (cases w)
      case (Exact a)
      from bgp_node_get_exact [OF T True w [unfolded Exact]] show ?thesis by auto
    next
      case (Stop nd mo)
      from bgp_node_get_stop [OF T True w [unfolded Stop]] have
        gi: "bgp_node_get s q prn0 = Some (get_insert s q prn0 nd mo)" and
        sl: "slot (heap s) (t_top s) (set_tree T) q mo nd" by simp_all
      show ?thesis
      proof (cases nd)
        case None
        from get_insert_leaf [OF T sl [unfolded None], of prn0] gi None show ?thesis by auto
      next
        case (Some c)
        from get_insert_glue [OF T sl [unfolded Some] vq, of prn0] gi Some show ?thesis by auto
      qed
    qed
  qed
qed


text \<open>
  C2.  On a well-formed table, when the loop of \<^verbatim>\<open>bgp_node_get\<close> ends at a node \<open>c\<close> that
  does not cover the (valid) input, with \<^verbatim>\<open>match\<close> equal to \<open>mo\<close>, the call returns and
  a fresh node \<open>g\<close> whose prefix is the common prefix of \<open>c\<close>'s prefix and the input
  stands where \<open>c\<close> stood: its parent is \<open>mo\<close>, and \<open>mo\<close>'s link to \<open>c\<close> (or \<^verbatim>\<open>top\<close>) now
  leads to \<open>g\<close>; \<open>c\<close> hangs below \<open>g\<close> on the side of its bit at \<open>g\<close>'s length and
  points back at \<open>g\<close>.  If \<open>g\<close>'s length is the input's, \<open>g\<close> is returned with one
  lock, its other side is empty and \<^verbatim>\<open>count\<close> went up by 1; otherwise a second fresh node
  with the input prefix, one lock and no children hangs on \<open>g\<close>'s other side, it is the
  node returned, and \<^verbatim>\<open>count\<close> went up by 2.  The table is well formed afterwards.
\<close>

theorem bgp_node_get_divergence:
  assumes ok: "table_ok s" and vq: "valid_prefix q"
    and pre: "\<not> qdebug s \<or> prn0 = None \<or> t_mpls_vpn s"
    and w: "get_walk (heap s) q (t_top s) None = Some (Inr (Stop (Some c) mo))"
  shows "\<exists>s' ret g cn G.
     bgp_node_get s q prn0 = Some (Inr (s', ret)) \<and>
     heap s c = Some cn \<and> \<not> prefix_match (pfx cn) q \<and>
     g \<notin> reach (heap s) (t_top s) \<and> heap s' g = Some G \<and>
     pfx G = glue_prefix (pfx cn) q \<and> parent G = mo \<and>
     (case mo of
        None \<Rightarrow> t_top s = Some c \<and> t_top s' = Some g
      | Some m \<Rightarrow> t_top s' = t_top s \<and>
          (\<exists>mn side. heap s m = Some mn \<and> link mn side = Some c \<and>
             heap s' m = Some (link_update side (Some g) mn))) \<and>
     link G (prefix_bit (u_prefix (pfx cn)) (prefixlen (pfx G))) = Some c \<and>
     heap s' c = Some (cn\<lparr>parent := Some g\<rparr>) \<and>
     (if prefixlen (pfx G) = prefixlen q
      then ret = g \<and> lock G = 1 \<and> t_count s' = t_count s + 1 \<and>
           link G (\<not> prefix_bit (u_prefix (pfx cn)) (prefixlen (pfx G))) = None \<and>
           reach (heap s') (t_top s') = insert g (reach (heap s) (t_top s))
      else ret \<noteq> g \<and> ret \<notin> reach (heap s) (t_top s) \<and>
           heap s' ret = Some (zero_node\<lparr>pfx := q, parent := Some g, prn := prn0, lock := 1\<rparr>) \<and>
           link G (\<not> prefix_bit (u_prefix (pfx cn)) (prefixlen (pfx G))) = Some ret \<and>
           lock G = 0 \<and> t_count s' = t_count s + 2 \<and>
           reach (heap s') (t_top s') = insert ret (insert g (reach (heap s) (t_top s)))) \<and>
     table_ok s'"
proof -
  from ok obtain T where T: "table_tree s T" by (auto simp: table_ok_def)
  from vq have v: "prefixlen q \<le> 128" by (simp add: valid_prefix_def)
  note R = table_tree_reach [OF T]
  from bgp_node_get_stop [OF T pre w] have
    gi: "bgp_node_get s q prn0 = Some (get_insert s q prn0 (Some c) mo)" and
    sl: "slot (heap s) (t_top s) (set_tree T) q mo (Some c)" by simp_all
  from get_insert_glue [OF T sl v, of prn0] obtain s' ret g side cn G T' where
    r: "get_insert s q prn0 (Some c) mo = Inr (s', ret)" and
    f: "g \<notin> set_tree T" "heap s c = Some cn" "\<not> prefix_match (pfx cn) q"
      "heap s' g = Some G" "pfx G = glue_prefix (pfx cn) q" "parent G = mo"
      "link G (glue_side cn q) = Some c" "heap s' c = Some (cn\<lparr>parent := Some g\<rparr>)" and
    mo: "case mo of
         None \<Rightarrow> t_top s' = Some g \<and> t_top s = Some c
       | Some m \<Rightarrow> t_top s' = t_top s \<and> m \<in> set_tree T \<and>
           (\<exists>mn. heap s m = Some mn \<and> side = prefix_bit (u_prefix q) (prefixlen (pfx mn)) \<and>
              link mn side = Some c \<and> heap s' m = Some (link_update side (Some g) mn))" and
    tail: "if prefixlen (glue_prefix (pfx cn) q) = prefixlen q
       then ret = g \<and> lock G = 1 \<and> prn G = prn0 \<and> link G (\<not> glue_side cn q) = None \<and>
            t_count s' = t_count s + 1 \<and> set_tree T' = insert g (set_tree T)
       else ret \<noteq> g \<and> ret \<notin> set_tree T \<and>
            heap s' ret = Some (zero_node\<lparr>pfx := q, parent := Some g, prn := prn0, lock := 1\<rparr>) \<and>
            link G (\<not> glue_side cn q) = Some ret \<and> lock G = 0 \<and> prn G = None \<and>
            t_count s' = t_count s + 2 \<and> set_tree T' = insert ret (insert g (set_tree T))" and
    T': "table_tree s' T'"
    by blast
  note R' = table_tree_reach [OF T']
  have gs: "glue_side cn q = prefix_bit (u_prefix (pfx cn)) (prefixlen (pfx G))"
    by (simp add: glue_side_def f(5))
  have mo': "case mo of
        None \<Rightarrow> t_top s = Some c \<and> t_top s' = Some g
      | Some m \<Rightarrow> t_top s' = t_top s \<and>
          (\<exists>mn side. heap s m = Some mn \<and> link mn side = Some c \<and>
             heap s' m = Some (link_update side (Some g) mn))"
    using mo by (cases mo) auto
  have tail': "if prefixlen (pfx G) = prefixlen q
      then ret = g \<and> lock G = 1 \<and> t_count s' = t_count s + 1 \<and>
           link G (\<not> prefix_bit (u_prefix (pfx cn)) (prefixlen (pfx G))) = None \<and>
           reach (heap s') (t_top s') = insert g (reach (heap s) (t_top s))
      else ret \<noteq> g \<and> ret \<notin> reach (heap s) (t_top s) \<and>
           heap s' ret = Some (zero_node\<lparr>pfx := q, parent := Some g, prn := prn0, lock := 1\<rparr>) \<and>
           link G (\<not> prefix_bit (u_prefix (pfx cn)) (prefixlen (pfx G))) = Some ret \<and>
           lock G = 0 \<and> t_count s' = t_count s + 2 \<and>
           reach (heap s') (t_top s') = insert ret (insert g (reach (heap s) (t_top s)))"
    using tail by (simp add: R R' gs f(5) split: if_splits)
  have ok': "table_ok s'" using T' by (auto simp: table_ok_def)
  have fl: "link G (prefix_bit (u_prefix (pfx cn)) (prefixlen (pfx G))) = Some c"
    using f(7) by (simp add: gs)
  have gr: "g \<notin> reach (heap s) (t_top s)" using f(1) by (simp add: R)
  have g1: "bgp_node_get s q prn0 = Some (Inr (s', ret))" using gi r by simp
  show ?thesis
    apply (rule exI [of _ s'], rule exI [of _ ret], rule exI [of _ g], rule exI [of _ cn],
        rule exI [of _ G])
    using g1 f(2-6) f(8) gr fl mo' tail' ok' by blast
qed

lemma ex_walk_11:
  "get_walk (heap ex_table) (ip4 11 0 0 0 8) (t_top ex_table) None = Some (Inr (Stop (Some 0) None))"
  by (simp add: get_walk.simps ex_table_def ex_node_def ip4_def prefix_match_def prefix_bit_def
      byte_at_def upt_rec)

lemma ex_glue_len: "prefixlen (glue_prefix (ip4 10 0 0 0 8) (ip4 11 0 0 0 8)) = 7"
  by (simp add: glue_prefix_def route_common_def ip4_def zero_prefix_def common_bytes.simps
      common_bits.simps byte_at_def maskbit_def)

theorem bgp_node_get_divergence_witness:
  "table_ok ex_table \<and> valid_prefix (ip4 11 0 0 0 8) \<and>
   get_walk (heap ex_table) (ip4 11 0 0 0 8) (t_top ex_table) None =
     Some (Inr (Stop (Some 0) None)) \<and>
   (\<exists>s' ret g. bgp_node_get ex_table (ip4 11 0 0 0 8) None = Some (Inr (s', ret)) \<and>
      t_top s' = Some g \<and> ret \<noteq> g \<and> map_option parent (heap s' 0) = Some (Some g) \<and>
      map_option parent (heap s' ret) = Some (Some g) \<and> t_count s' = 4 \<and> table_ok s')"
proof -
  have v: "valid_prefix (ip4 11 0 0 0 8)" by (simp add: valid_prefix_def ip4_def)
  have pre: "\<not> qdebug ex_table \<or> (None :: addr option) = None \<or> t_mpls_vpn ex_table" by simp
  have h0: "heap ex_table 0 = Some (ex_node (ip4 10 0 0 0 8) None (Some 1) None 1 (Some 1))"
    by (simp add: ex_table_def)
  have c: "t_count ex_table = 2" by (simp add: ex_table_def)
  from bgp_node_get_divergence [OF ex_table_ok v pre ex_walk_11] obtain s' ret g cn G where
    r: "bgp_node_get ex_table (ip4 11 0 0 0 8) None = Some (Inr (s', ret))" and
    f: "heap ex_table 0 = Some cn" "heap s' g = Some G" "pfx G = glue_prefix (pfx cn) (ip4 11 0 0 0 8)"
      "t_top s' = Some g" "heap s' 0 = Some (cn\<lparr>parent := Some g\<rparr>)" and
    tail: "if prefixlen (pfx G) = prefixlen (ip4 11 0 0 0 8)
      then ret = g \<and> lock G = 1 \<and> t_count s' = t_count ex_table + 1 \<and>
           link G (\<not> prefix_bit (u_prefix (pfx cn)) (prefixlen (pfx G))) = None \<and>
           reach (heap s') (t_top s') = insert g (reach (heap ex_table) (t_top ex_table))
      else ret \<noteq> g \<and> ret \<notin> reach (heap ex_table) (t_top ex_table) \<and>
           heap s' ret = Some (zero_node\<lparr>pfx := ip4 11 0 0 0 8, parent := Some g, prn := None, lock := 1\<rparr>) \<and>
           link G (\<not> prefix_bit (u_prefix (pfx cn)) (prefixlen (pfx G))) = Some ret \<and>
           lock G = 0 \<and> t_count s' = t_count ex_table + 2 \<and>
           reach (heap s') (t_top s') = insert ret (insert g (reach (heap ex_table) (t_top ex_table)))" and
    ok': "table_ok s'"
    by auto
  from f(1) h0 have cn: "pfx cn = ip4 10 0 0 0 8" by (auto simp: ex_node_def)
  have "prefixlen (pfx G) \<noteq> prefixlen (ip4 11 0 0 0 8)"
    unfolding f(3) cn ex_glue_len by (simp add: ip4_def)
  with tail have t: "ret \<noteq> g" "t_count s' = t_count ex_table + 2"
    "heap s' ret = Some (zero_node\<lparr>pfx := ip4 11 0 0 0 8, parent := Some g, prn := None, lock := 1\<rparr>)"
    by simp_all
  from r f(4,5) t c ok' have "\<exists>s' ret g. bgp_node_get ex_table (ip4 11 0 0 0 8) None = Some (Inr (s', ret)) \<and>
      t_top s' = Some g \<and> ret \<noteq> g \<and> map_option parent (heap s' 0) = Some (Some g) \<and>
      map_option parent (heap s' ret) = Some (Some g) \<and> t_count s' = 4 \<and> table_ok s'"
    by (intro exI [of _ s'] exI [of _ ret] exI [of _ g]) simp
  with ex_table_ok v ex_walk_11 show ?thesis by simp
qed

lemma only_links_prn:
  assumes "only_links s s' N" "y \<in> N" "heap s y = Some n"
  shows "\<exists>n'. heap s' y = Some n' \<and> prn n' = prn n \<and> info n' = info n \<and> pfx n' = pfx n"
proof -
  from assms obtain n' where n': "heap s' y = Some n'"
    "n'\<lparr>parent := parent n, l_left := l_left n, l_right := l_right n\<rparr> = n"
    by (auto simp: only_links_def split: option.splits)
  from n'(2) have "prn n' = prn n \<and> info n' = info n \<and> pfx n' = pfx n"
    by (cases n', cases n) auto
  with n'(1) show ?thesis by simp
qed

text \<open>
  C10.  When the divergence case of \<^verbatim>\<open>bgp_node_get\<close> makes both a glue node \<open>g\<close> and a
  new leaf, the \<^verbatim>\<open>prn\<close> supplied is stored on the leaf returned and nowhere else: the
  glue's \<^verbatim>\<open>prn\<close> is NULL and every node that was in the table keeps its own.  A later
  \<^verbatim>\<open>bgp_node_get\<close> of the glue's own prefix ends its descent at \<open>g\<close>; with a non-NULL
  \<^verbatim>\<open>prn\<close> on an MPLS-VPN table it fails the \<^verbatim>\<open>qassert\<close> on \<^verbatim>\<open>node->prn\<close> in a debug
  build and returns \<open>g\<close>, locked, otherwise.
\<close>

theorem bgp_node_get_glue_prn:
  assumes ok: "table_ok s" and vq: "valid_prefix q"
    and pre: "\<not> qdebug s \<or> prn0 = None \<or> t_mpls_vpn s"
    and w: "get_walk (heap s) q (t_top s) None = Some (Inr (Stop (Some c) mo))"
    and c: "heap s c = Some cn"
    and ne: "prefixlen (glue_prefix (pfx cn) q) \<noteq> prefixlen q"
  shows "\<exists>s' ret g G N.
     bgp_node_get s q prn0 = Some (Inr (s', ret)) \<and> ret \<noteq> g \<and>
     g \<notin> reach (heap s) (t_top s) \<and> ret \<notin> reach (heap s) (t_top s) \<and>
     reach (heap s') (t_top s') = insert ret (insert g (reach (heap s) (t_top s))) \<and>
     heap s' g = Some G \<and> pfx G = glue_prefix (pfx cn) q \<and>
     heap s' ret = Some N \<and> pfx N = q \<and> parent N = Some g \<and>
     prn N = prn0 \<and> prn G = None \<and>
     (\<forall>y\<in>reach (heap s) (t_top s).
        map_option prn (heap s' y) = map_option prn (heap s y)) \<and>
     get_walk (heap s') (pfx G) (t_top s') None = Some (Inr (Exact g)) \<and>
     (\<forall>p1. p1 \<noteq> None \<and> t_mpls_vpn s \<longrightarrow>
        bgp_node_get s' (pfx G) p1 =
          (if qdebug s then Some (Inl AssertFailed)
           else Some (Inr (locked s' (Some g), g))))"
proof -
  from ok obtain T where T: "table_tree s T" by (auto simp: table_ok_def)
  from vq have v: "prefixlen q \<le> 128" by (simp add: valid_prefix_def)
  note R = table_tree_reach [OF T]
  from bgp_node_get_stop [OF T pre w] have
    gi: "bgp_node_get s q prn0 = Some (get_insert s q prn0 (Some c) mo)" and
    sl: "slot (heap s) (t_top s) (set_tree T) q mo (Some c)" by simp_all
  from get_insert_glue [OF T sl v, of prn0] obtain s' ret g cn' G T' where
    r: "get_insert s q prn0 (Some c) mo = Inr (s', ret)" and
    f: "g \<notin> set_tree T" "heap s c = Some cn'"
      "heap s' g = Some G" "pfx G = glue_prefix (pfx cn') q" and
    tail: "if prefixlen (glue_prefix (pfx cn') q) = prefixlen q
       then ret = g \<and> lock G = 1 \<and> prn G = prn0 \<and> link G (\<not> glue_side cn' q) = None \<and>
            t_count s' = t_count s + 1 \<and> set_tree T' = insert g (set_tree T)
       else ret \<noteq> g \<and> ret \<notin> set_tree T \<and>
            heap s' ret = Some (zero_node\<lparr>pfx := q, parent := Some g, prn := prn0, lock := 1\<rparr>) \<and>
            link G (\<not> glue_side cn' q) = Some ret \<and> lock G = 0 \<and> prn G = None \<and>
            t_count s' = t_count s + 2 \<and> set_tree T' = insert ret (insert g (set_tree T))" and
    T': "table_tree s' T'" and ol: "only_links s s' (set_tree T)" and
    q': "qdebug s' = qdebug s" "t_mpls_vpn s' = t_mpls_vpn s"
    by blast
  from f(2) c have cn: "cn' = cn" by simp
  note R' = table_tree_reach [OF T']
  from tail ne have t: "ret \<noteq> g" "ret \<notin> set_tree T"
    "heap s' ret = Some (zero_node\<lparr>pfx := q, parent := Some g, prn := prn0, lock := 1\<rparr>)"
    "prn G = None" "set_tree T' = insert ret (insert g (set_tree T))"
    by (simp_all add: cn)
  define N where "N = zero_node\<lparr>pfx := q, parent := Some g, prn := prn0, lock := 1\<rparr>"
  have N: "heap s' ret = Some N" "pfx N = q" "parent N = Some g" "prn N = prn0"
    using t(3) by (simp_all add: N_def)
  have g1: "bgp_node_get s q prn0 = Some (Inr (s', ret))" using gi r by simp
  have old: "\<forall>y\<in>reach (heap s) (t_top s). map_option prn (heap s' y) = map_option prn (heap s y)"
  proof
    fix y assume "y \<in> reach (heap s) (t_top s)"
    then have y: "y \<in> set_tree T" by (simp add: R)
    with T obtain n where n: "heap s y = Some n"
      using ol by (auto simp: only_links_def split: option.splits)
    from only_links_prn [OF ol y n] n show "map_option prn (heap s' y) = map_option prn (heap s y)"
      by auto
  qed
  have gT: "g \<in> set_tree T'" by (simp add: t(5))
  from T' have ht: "heap_tree (heap s') None (t_top s') T'" "trie_ok (heap s') T'"
    by (simp_all add: table_tree_def)
  have wk: "get_walk (heap s') (pfx G) (t_top s') None = Some (Inr (Exact g))"
    by (rule get_walk_finds [OF ht gT f(3)])
  have later: "\<forall>p1. p1 \<noteq> None \<and> t_mpls_vpn s \<longrightarrow>
        bgp_node_get s' (pfx G) p1 =
          (if qdebug s then Some (Inl AssertFailed)
           else Some (Inr (locked s' (Some g), g)))"
  proof (intro allI impI)
    fix p1 :: "addr option" assume a: "p1 \<noteq> None \<and> t_mpls_vpn s"
    then have pre': "\<not> qdebug s' \<or> p1 = None \<or> t_mpls_vpn s'" by (simp add: q')
    from bgp_node_get_exact [OF T' pre' wk] obtain n where
      n: "heap s' g = Some n" "bgp_node_get s' (pfx G) p1 =
               (if qdebug s' \<and> prn n \<noteq> p1 then Some (Inl AssertFailed)
                else Some (Inr (locked s' (Some g), g)))" by blast
    from n(1) f(3) have "n = G" by simp
    with n(2) a t(4) show "bgp_node_get s' (pfx G) p1 =
          (if qdebug s then Some (Inl AssertFailed)
           else Some (Inr (locked s' (Some g), g)))"
      by (auto simp: q')
  qed
  have gr: "g \<notin> reach (heap s) (t_top s)" "ret \<notin> reach (heap s) (t_top s)"
    "reach (heap s') (t_top s') = insert ret (insert g (reach (heap s) (t_top s)))"
    using f(1) t(2,5) by (simp_all add: R R')
  have pg: "pfx G = glue_prefix (pfx cn) q" using f(4) cn by simp
  show ?thesis
    apply (rule exI [of _ s'], rule exI [of _ ret], rule exI [of _ g], rule exI [of _ G],
        rule exI [of _ N])
    using g1 t(1) gr f(3) pg N t(4) old wk later by blast
qed

lemma ex_vpn_ok: "table_ok ex_table_vpn"
proof -
  from ex_table_ok obtain T where "table_tree ex_table T" by (auto simp: table_ok_def)
  then have "table_tree ex_table_vpn T"
    by (simp add: table_tree_def ex_table_vpn_def pool_ok_def)
  then show ?thesis by (auto simp: table_ok_def)
qed

lemma ex_vpn_walk_11:
  "get_walk (heap ex_table_vpn) (ip4 11 0 0 0 8) (t_top ex_table_vpn) None =
     Some (Inr (Stop (Some 0) None))"
  using ex_walk_11 by (simp add: ex_table_vpn_def)

lemma replicate_16: "replicate 16 (0 :: u_char) = 0 # 0 # 0 # 0 # replicate 12 0"
proof -
  have "replicate (4 + 12) (0 :: u_char) = replicate 4 0 @ replicate 12 0"
    by (rule replicate_add)
  moreover have "replicate 4 (0 :: u_char) = [0, 0, 0, 0]" by (simp add: numeral_eq_Suc)
  ultimately show ?thesis by simp
qed

lemma ex_glue: "glue_prefix (ip4 10 0 0 0 8) (ip4 11 0 0 0 8) = ip4 10 0 0 0 7"
  apply (simp add: glue_prefix_def route_common_def ip4_def zero_prefix_def common_bytes.simps
      common_bits.simps byte_at_def maskbit_def)
  apply (simp add: replicate_16)
  done

theorem bgp_node_get_glue_prn_witness:
  "table_ok ex_table_vpn \<and> valid_prefix (ip4 11 0 0 0 8) \<and> qdebug ex_table_vpn \<and>
   get_walk (heap ex_table_vpn) (ip4 11 0 0 0 8) (t_top ex_table_vpn) None =
     Some (Inr (Stop (Some 0) None)) \<and>
   (\<exists>s' ret g. bgp_node_get ex_table_vpn (ip4 11 0 0 0 8) (Some 7) = Some (Inr (s', ret)) \<and>
      map_option prn (heap s' ret) = Some (Some 7) \<and>
      map_option prn (heap s' g) = Some None \<and>
      map_option pfx (heap s' g) = Some (ip4 10 0 0 0 7) \<and>
      map_option prn (heap s' 0) = Some None \<and>
      bgp_node_get s' (ip4 10 0 0 0 7) (Some 7) = Some (Inl AssertFailed))"
proof -
  have v: "valid_prefix (ip4 11 0 0 0 8)" by (simp add: valid_prefix_def ip4_def)
  have pre: "\<not> qdebug ex_table_vpn \<or> Some (7 :: addr) = None \<or> t_mpls_vpn ex_table_vpn"
    by (simp add: ex_table_vpn_def)
  have h0: "heap ex_table_vpn 0 = Some (ex_node (ip4 10 0 0 0 8) None (Some 1) None 1 (Some 1))"
    by (simp add: ex_table_vpn_def ex_table_def)
  have p0: "pfx (ex_node (ip4 10 0 0 0 8) None (Some 1) None 1 (Some 1)) = ip4 10 0 0 0 8"
    "prn (ex_node (ip4 10 0 0 0 8) None (Some 1) None 1 (Some 1)) = None"
    by (simp_all add: ex_node_def)
  have ne: "prefixlen (glue_prefix (pfx (ex_node (ip4 10 0 0 0 8) None (Some 1) None 1 (Some 1)))
      (ip4 11 0 0 0 8)) \<noteq> prefixlen (ip4 11 0 0 0 8)"
    unfolding p0 ex_glue by (simp add: ip4_def)
  have q: "qdebug ex_table_vpn" "t_mpls_vpn ex_table_vpn" by (simp_all add: ex_table_vpn_def)
  have t0: "0 \<in> reach (heap ex_table_vpn) (t_top ex_table_vpn)"
    by (rule reach_root) (simp add: ex_table_vpn_def ex_table_def)
  from bgp_node_get_glue_prn [OF ex_vpn_ok v pre ex_vpn_walk_11 h0 ne] obtain s' ret g G N where
    r: "bgp_node_get ex_table_vpn (ip4 11 0 0 0 8) (Some 7) = Some (Inr (s', ret))" and
    f: "heap s' g = Some G"
      "pfx G = glue_prefix (pfx (ex_node (ip4 10 0 0 0 8) None (Some 1) None 1 (Some 1))) (ip4 11 0 0 0 8)"
      "heap s' ret = Some N" "prn N = Some 7" "prn G = None" and
    old: "\<forall>y\<in>reach (heap ex_table_vpn) (t_top ex_table_vpn).
        map_option prn (heap s' y) = map_option prn (heap ex_table_vpn y)" and
    later: "\<forall>p1. p1 \<noteq> None \<and> t_mpls_vpn ex_table_vpn \<longrightarrow>
        bgp_node_get s' (pfx G) p1 =
          (if qdebug ex_table_vpn then Some (Inl AssertFailed)
           else Some (Inr (locked s' (Some g), g)))"
    by (elim exE conjE) (rule that)
  have pg: "pfx G = ip4 10 0 0 0 7" using f(2) by (simp only: p0 ex_glue)
  from old t0 have "map_option prn (heap s' 0) = map_option prn (heap ex_table_vpn 0)" by blast
  then have o0: "map_option prn (heap s' 0) = Some None" by (simp only: h0 p0 option.map)
  have "Some (7 :: addr) \<noteq> None \<and> t_mpls_vpn ex_table_vpn" using q by simp
  with later have "bgp_node_get s' (pfx G) (Some 7) =
          (if qdebug ex_table_vpn then Some (Inl AssertFailed)
           else Some (Inr (locked s' (Some g), g)))" by blast
  then have l: "bgp_node_get s' (ip4 10 0 0 0 7) (Some 7) = Some (Inl AssertFailed)"
    by (simp only: pg q if_True)
  have "\<exists>s' ret g. bgp_node_get ex_table_vpn (ip4 11 0 0 0 8) (Some 7) = Some (Inr (s', ret)) \<and>
      map_option prn (heap s' ret) = Some (Some 7) \<and>
      map_option prn (heap s' g) = Some None \<and>
      map_option pfx (heap s' g) = Some (ip4 10 0 0 0 7) \<and>
      map_option prn (heap s' 0) = Some None \<and>
      bgp_node_get s' (ip4 10 0 0 0 7) (Some 7) = Some (Inl AssertFailed)"
    apply (rule exI [of _ s'], rule exI [of _ ret], rule exI [of _ g])
    using r f(1,3,4,5) pg o0 l by simp
  with ex_vpn_ok v q(1) ex_vpn_walk_11 show ?thesis by blast
qed

section \<open>Deleting nodes\<close>

lemma edge_ok_trans:
  assumes "edge_ok h m side (Some a)" "edge_ok h a sd (Some c)"
  shows "edge_ok h m side (Some c)"
  using assms by (auto simp: edge_ok_def split: option.splits intro: child_ok_trans)

lemma pool_ok_free:
  assumes "pool_ok s N" "a \<in> N"
  shows "pool_ok (s\<lparr>rn_frees := a # rn_frees s\<rparr>) (N - {a})"
  using assms by (auto simp: pool_ok_def)

lemma pool_ok_cong:
  "rn_frees s' = rn_frees s \<Longrightarrow> rn_next s' = rn_next s \<Longrightarrow> pool_ok s' N = pool_ok s N"
  by (simp add: pool_ok_def)

text \<open>The node to unlink, its subtree and the place it hangs from.\<close>

lemma unlink_shape:
  assumes T: "table_tree s T" and a: "a \<in> set_tree T" and n: "heap s a = Some n"
    and one: "\<not> (l_left n \<noteq> None \<and> l_right n \<noteq> None)"
  shows "\<exists>u' side.
     subtree T a = (if l_left n \<noteq> None then Node u' a Leaf else Node Leaf a u') \<and>
     hang_at T (parent n) side = subtree T a \<and>
     heap_tree (heap s) (Some a) (sole_child n) u' \<and> trie_ok (heap s) u' \<and>
     distinct (preorder u') \<and> a \<notin> set_tree u' \<and> set_tree u' \<subseteq> set_tree T \<and>
     (\<forall>c. sole_child n = Some c \<longrightarrow> (\<exists>sd. edge_ok (heap s) a sd (Some c))) \<and>
     (case parent n of
        None \<Rightarrow> t_top s = Some a
      | Some m \<Rightarrow> m \<in> set_tree T \<and> m \<notin> set_tree (subtree T a) \<and>
          edge_ok (heap s) m side (Some a) \<and>
          (\<exists>mn. heap s m = Some mn \<and> link mn side = Some a \<and> link mn (\<not> side) \<noteq> Some a))"
proof -
  from T have ht: "heap_tree (heap s) None (t_top s) T" and ok: "trie_ok (heap s) T"
    and d: "distinct (preorder T)" by (simp_all add: table_tree_def)
  from subtree_in [OF a] obtain l r where sub: "subtree T a = Node l a r" by blast
  from heap_tree_subtree [OF ht d a n] have
    hs: "heap_tree (heap s) (parent n) (Some a) (Node l a r)" and
    pos: "(t_top s = Some a \<and> parent n = None \<and> subtree T a = T) \<or>
          (\<exists>m mn side. parent n = Some m \<and> m \<in> set_tree T \<and> heap s m = Some mn \<and>
             link mn side = Some a \<and> link mn (\<not> side) \<noteq> Some a \<and>
             child_tree T m side = subtree T a)"
    by (simp_all add: sub)
  from heap_tree_NodeD [OF hs] n have
    hl: "heap_tree (heap s) (Some a) (l_left n) l" and hr: "heap_tree (heap s) (Some a) (l_right n) r"
    and rl: "l_left n = root_of l" and rr: "l_right n = root_of r" by auto
  from trie_ok_subtree [OF ok, of a] have oks: "trie_ok (heap s) l" "trie_ok (heap s) r"
    "edge_ok (heap s) a False (root_of l)" "edge_ok (heap s) a True (root_of r)"
    by (simp_all add: sub)
  from distinct_subtree [OF d, of a] have ds: "a \<notin> set_tree l" "a \<notin> set_tree r"
    "distinct (preorder l)" "distinct (preorder r)"
    by (simp_all add: sub distinct_preorder_Node)
  from subtree_subset [of T a] have ss: "set_tree l \<subseteq> set_tree T" "set_tree r \<subseteq> set_tree T"
    by (auto simp: sub)
  define u' where "u' = (if l_left n \<noteq> None then l else r)"
  have shape: "subtree T a = (if l_left n \<noteq> None then Node u' a Leaf else Node Leaf a u')"
  proof (cases "l_left n \<noteq> None")
    case True
    with one have "l_right n = None" by simp
    with hr have "r = Leaf" by (auto dest: heap_tree_None_Leaf)
    with True show ?thesis by (simp add: sub u'_def)
  next
    case False
    with hl have "l = Leaf" by (auto dest: heap_tree_None_Leaf)
    with False show ?thesis by (simp add: sub u'_def)
  qed
  have hu: "heap_tree (heap s) (Some a) (sole_child n) u'"
    using hl hr by (simp add: u'_def sole_child_def)
  have e: "\<forall>c. sole_child n = Some c \<longrightarrow> (\<exists>sd. edge_ok (heap s) a sd (Some c))"
    using oks(3,4) rl rr by (auto simp: sole_child_def split: if_splits)
  have rest: "trie_ok (heap s) u'" "distinct (preorder u')" "a \<notin> set_tree u'"
    "set_tree u' \<subseteq> set_tree T"
    using oks ds ss by (auto simp: u'_def)
  from pos show ?thesis
  proof
    assume p: "t_top s = Some a \<and> parent n = None \<and> subtree T a = T"
    then have "hang_at T (parent n) False = subtree T a" by (simp add: hang_at_def)
    with shape hu rest e p show ?thesis by (intro exI [of _ u'] exI [of _ False]) simp
  next
    assume "\<exists>m mn side. parent n = Some m \<and> m \<in> set_tree T \<and> heap s m = Some mn \<and>
             link mn side = Some a \<and> link mn (\<not> side) \<noteq> Some a \<and>
             child_tree T m side = subtree T a"
    then obtain m mn side where m: "parent n = Some m" "m \<in> set_tree T" "heap s m = Some mn"
      "link mn side = Some a" "link mn (\<not> side) \<noteq> Some a" "child_tree T m side = subtree T a"
      by blast
    have h: "hang_at T (parent n) side = subtree T a" by (simp add: hang_at_def m)
    have mn: "m \<notin> set_tree (subtree T a)"
      using m_notin_child_tree [OF d, of m side] by (simp add: m(6))
    from trie_ok_child [OF ok m(2), of side] have "edge_ok (heap s) m side (Some a)"
      by (simp add: m(6) sub)
    with shape h hu rest e m mn show ?thesis
      by (intro exI [of _ u'] exI [of _ side]) auto
  qed
qed


lemma unlink_parent_upd:
  assumes "link mn side = Some a" "link mn (\<not> side) \<noteq> Some a"
  shows "(if l_left mn = Some a then mn\<lparr>l_left := child\<rparr> else mn\<lparr>l_right := child\<rparr>) =
         link_update side child mn"
  using assms by (cases side) (auto simp: link_def link_update_def)

lemma unlink_fields:
  "t_count (unlink s a n) = t_count s - 1"
  "rn_frees (unlink s a n) = a # rn_frees s"
  "rn_next (unlink s a n) = rn_next s"
  "qdebug (unlink s a n) = qdebug s"
  "t_mpls_vpn (unlink s a n) = t_mpls_vpn s"
  "t_lock (unlink s a n) = t_lock s"
  "t_owner (unlink s a n) = t_owner s"
  "t_freed (unlink s a n) = t_freed s"
  "peer_lock (unlink s a n) = peer_lock s"
  "t_top (unlink s a n) = (case parent n of None \<Rightarrow> sole_child n | Some m \<Rightarrow> t_top s)"
  by (simp_all add: unlink_def Let_def bgp_node_free_def node_upd_def
      split: option.splits)

lemma unlink_heap:
  assumes c: "\<And>c. sole_child n = Some c \<Longrightarrow> heap s c \<noteq> None \<and> Some c \<noteq> parent n"
    and m: "\<And>m. parent n = Some m \<Longrightarrow>
              \<exists>mn. heap s m = Some mn \<and> link mn side = Some a \<and> link mn (\<not> side) \<noteq> Some a"
  shows "heap (unlink s a n) y =
     (if Some y = parent n then map_option (link_update side (sole_child n)) (heap s y)
      else if Some y = sole_child n then map_option (\<lambda>x. x\<lparr>parent := parent n\<rparr>) (heap s y)
      else heap s y)"
proof (cases "parent n")
  case None
  show ?thesis
  proof (cases "sole_child n")
    case N: None
    with None show ?thesis by (simp add: unlink_def Let_def bgp_node_free_def)
  next
    case (Some c)
    with c obtain cn where "heap s c = Some cn" by auto
    with None Some show ?thesis
      by (auto simp: unlink_def Let_def bgp_node_free_def node_upd_def)
  qed
next
  case (Some pa)
  from m [OF Some] obtain mn where mn: "heap s pa = Some mn" "link mn side = Some a"
    "link mn (\<not> side) \<noteq> Some a" by blast
  note pu = unlink_parent_upd [OF mn(2,3)]
  show ?thesis
  proof (cases "sole_child n")
    case None
    with Some mn pu show ?thesis
      by (auto simp: unlink_def Let_def bgp_node_free_def node_upd_def)
  next
    case C: (Some c)
    with c obtain cn where cn: "heap s c = Some cn" "c \<noteq> pa" using Some by auto
    with Some C mn pu show ?thesis
      by (auto simp: unlink_def Let_def bgp_node_free_def node_upd_def)
  qed
qed


lemma size_card_tree: "distinct (preorder t) \<Longrightarrow> size t = card (set_tree t)"
  using distinct_card [of "preorder t"] by simp

lemma unlink_pfx:
  assumes "\<And>y. heap s' y =
     (if Some y = par then map_option (link_update side ch) (heap s y)
      else if Some y = ch then map_option (\<lambda>x. x\<lparr>parent := par\<rparr>) (heap s y)
      else heap s y)"
  shows "map_option pfx (heap s' y) = map_option pfx (heap s y)"
  unfolding assms by (cases "heap s y") auto

lemma unlink_tree:
  assumes T: "table_tree s T" and a: "a \<in> set_tree T" and n: "heap s a = Some n"
    and one: "\<not> (l_left n \<noteq> None \<and> l_right n \<noteq> None)"
  shows "valid_ptr s (sole_child n) \<and> valid_ptr s (parent n) \<and>
    (\<exists>T' side. table_tree (unlink s a n) T' \<and> set_tree T' = set_tree T - {a} \<and>
       size T' < size T \<and>
       (\<forall>y. heap (unlink s a n) y =
          (if Some y = parent n then map_option (link_update side (sole_child n)) (heap s y)
           else if Some y = sole_child n then map_option (\<lambda>x. x\<lparr>parent := parent n\<rparr>) (heap s y)
           else heap s y)) \<and>
       (case parent n of
          None \<Rightarrow> t_top s = Some a
        | Some m \<Rightarrow> m \<in> set_tree T \<and> m \<noteq> a \<and>
            (\<exists>mn. heap s m = Some mn \<and> link mn side = Some a)) \<and>
       (\<forall>c. sole_child n = Some c \<longrightarrow>
          c \<in> set_tree T \<and> c \<noteq> a \<and> Some c \<noteq> parent n \<and>
          (\<exists>cn. heap s c = Some cn \<and> parent cn = Some a)))"
proof -
  from T have ht: "heap_tree (heap s) None (t_top s) T" and ok: "trie_ok (heap s) T"
    and d: "distinct (preorder T)" and pool: "pool_ok s (set_tree T)"
    by (simp_all add: table_tree_def)
  define s' where "s' = unlink s a n"
  define u where "u = subtree T a"
  from unlink_shape [OF T a n one] obtain u' side where
    shape: "u = (if l_left n \<noteq> None then Node u' a Leaf else Node Leaf a u')" and
    hang: "hang_at T (parent n) side = u" and
    hu: "heap_tree (heap s) (Some a) (sole_child n) u'" and
    u': "trie_ok (heap s) u'" "distinct (preorder u')" "a \<notin> set_tree u'"
      "set_tree u' \<subseteq> set_tree T" and
    e: "\<forall>c. sole_child n = Some c \<longrightarrow> (\<exists>sd. edge_ok (heap s) a sd (Some c))" and
    par: "case parent n of
        None \<Rightarrow> t_top s = Some a
      | Some m \<Rightarrow> m \<in> set_tree T \<and> m \<notin> set_tree u \<and>
          edge_ok (heap s) m side (Some a) \<and>
          (\<exists>mn. heap s m = Some mn \<and> link mn side = Some a \<and> link mn (\<not> side) \<noteq> Some a)"
    unfolding u_def by blast
  have su: "set_tree u = insert a (set_tree u')" and zu: "size u = size u' + 1"
    by (simp_all add: shape)
  have ru: "root_of u' = sole_child n" using heap_tree_root [OF hu] by simp
  have child: "\<forall>c. sole_child n = Some c \<longrightarrow>
          c \<in> set_tree T \<and> c \<noteq> a \<and> c \<in> set_tree u' \<and> Some c \<noteq> parent n \<and>
          (\<exists>cn. heap s c = Some cn \<and> parent cn = Some a)"
  proof (intro allI impI)
    fix c assume c: "sole_child n = Some c"
    with hu have hc: "heap_tree (heap s) (Some a) (Some c) u'" by simp
    from heap_tree_root_in [OF hc] have cu: "c \<in> set_tree u'" .
    from hc obtain l r where "u' = Node l c r" by (cases u') auto
    with hc obtain cn where cn: "heap s c = Some cn" "parent cn = Some a"
      by (auto split: option.splits)
    have "Some c \<noteq> parent n"
    proof
      assume "Some c = parent n"
      with par have "c \<notin> set_tree u" by (auto split: option.splits)
      with cu su show False by simp
    qed
    with cu u' cn show "c \<in> set_tree T \<and> c \<noteq> a \<and> c \<in> set_tree u' \<and> Some c \<noteq> parent n \<and>
          (\<exists>cn. heap s c = Some cn \<and> parent cn = Some a)" by auto
  qed
  have vc: "valid_ptr s (sole_child n)" using child by (auto simp: valid_ptr_def split: option.splits)
  have vp: "valid_ptr s (parent n)" using par by (auto simp: valid_ptr_def split: option.splits)
  have hp: "\<And>y. heap s' y =
          (if Some y = parent n then map_option (link_update side (sole_child n)) (heap s y)
           else if Some y = sole_child n then map_option (\<lambda>x. x\<lparr>parent := parent n\<rparr>) (heap s y)
           else heap s y)"
    unfolding s'_def
  proof (rule unlink_heap)
    fix c assume "sole_child n = Some c"
    with child show "heap s c \<noteq> None \<and> Some c \<noteq> parent n" by auto
  next
    fix m assume "parent n = Some m"
    with par show "\<exists>mn. heap s m = Some mn \<and> link mn side = Some a \<and> link mn (\<not> side) \<noteq> Some a"
      by auto
  qed
  note px = unlink_pfx [of s' "parent n" side "sole_child n" s, OF hp]
  have top: "t_top s' = (case parent n of None \<Rightarrow> sole_child n | Some m \<Rightarrow> t_top s)"
    by (simp add: s'_def unlink_fields)
  have mu': "\<And>m. parent n = Some m \<Longrightarrow> m \<notin> set_tree u'"
    using par su by (auto split: option.splits)
  have sub1: "heap_tree (heap s') (parent n) (root_of u') u'"
  proof (cases "sole_child n")
    case None
    with hu have "u' = Leaf" by (auto dest: heap_tree_None_Leaf)
    then show ?thesis by simp
  next
    case (Some c)
    with child obtain cn where cn: "heap s c = Some cn" "Some c \<noteq> parent n" by auto
    from hu Some have hc: "heap_tree (heap s) (Some a) (Some c) u'" by simp
    have "heap_tree (heap s') (parent n) (Some c) u'"
    proof (rule heap_tree_reparent [OF hc u'(2) cn(1)])
      show "heap s' c = Some (cn\<lparr>parent := parent n\<rparr>)" using cn Some by (simp add: hp)
    next
      fix y assume "y \<in> set_tree u'" "y \<noteq> c"
      with mu' Some show "heap s' y = heap s y" by (auto simp: hp)
    qed
    with ru Some show ?thesis by simp
  qed
  have sub2: "trie_ok (heap s') u'"
    using u'(1) trie_ok_frame [of u' "heap s'" "heap s"] px by simp
  have mo: "case parent n of
               None \<Rightarrow> t_top s' = root_of u'
             | Some m \<Rightarrow> m \<in> set_tree T \<and> t_top s' = t_top s \<and>
                 (\<exists>mn. heap s m = Some mn \<and> heap s' m = Some (link_update side (root_of u') mn)) \<and>
                 edge_ok (heap s') m side (root_of u')"
  proof (cases "parent n")
    case None
    then show ?thesis by (simp add: top ru)
  next
    case (Some m)
    with par obtain mn where m: "m \<in> set_tree T" "edge_ok (heap s) m side (Some a)"
      "heap s m = Some mn" by auto
    have "edge_ok (heap s) m side (root_of u')"
    proof (cases "sole_child n")
      case None
      then show ?thesis by (simp add: ru edge_ok_def)
    next
      case C: (Some c)
      with e obtain sd where "edge_ok (heap s) a sd (Some c)" by blast
      from edge_ok_trans [OF m(2) this] show ?thesis by (simp add: ru C)
    qed
    then have "edge_ok (heap s') m side (root_of u')"
      using edge_ok_frame [of "heap s'" m "heap s" "root_of u'" side] px by simp
    with Some m show ?thesis by (simp add: top hp ru)
  qed
  have frame: "\<And>y. y \<in> set_tree T \<Longrightarrow> y \<notin> set_tree u \<Longrightarrow> Some y \<noteq> parent n \<Longrightarrow>
      heap s' y = heap s y"
    using child su by (auto simp: hp)
  have disj: "set_tree u' \<inter> (set_tree T - set_tree u) = {}" using su by auto
  have count: "t_count s' + of_nat (size u) = t_count s + of_nat (size u')"
    by (simp add: s'_def unlink_fields zu)
  have N': "(set_tree T - set_tree u) \<union> set_tree u' = set_tree T - {a}"
    using su u'(3,4) by auto
  have pool': "pool_ok s' ((set_tree T - set_tree u) \<union> set_tree u')"
    unfolding N' using pool a by (auto simp: pool_ok_def s'_def unlink_fields)
  from table_tree_install [OF T hang [symmetric] mo frame sub1 sub2 u'(2) disj count pool']
  have T': "table_tree s' (graft_at T (parent n) side u')"
    "set_tree (graft_at T (parent n) side u') = set_tree T - {a}"
    by (simp_all add: N')
  from T' have d': "distinct (preorder (graft_at T (parent n) side u'))"
    by (simp add: table_tree_def)
  have "finite (set_tree T)" by simp
  then have "card (set_tree T - {a}) < card (set_tree T)"
    using a by (intro card_Diff1_less) auto
  then have sz: "size (graft_at T (parent n) side u') < size T"
    by (simp add: size_card_tree [OF d] size_card_tree [OF d'] T'(2))
  have par': "case parent n of
          None \<Rightarrow> t_top s = Some a
        | Some m \<Rightarrow> m \<in> set_tree T \<and> m \<noteq> a \<and>
            (\<exists>mn. heap s m = Some mn \<and> link mn side = Some a)"
    using par su by (auto split: option.splits)
  have child': "\<forall>c. sole_child n = Some c \<longrightarrow>
          c \<in> set_tree T \<and> c \<noteq> a \<and> Some c \<noteq> parent n \<and>
          (\<exists>cn. heap s c = Some cn \<and> parent cn = Some a)"
    using child by blast
  have "\<exists>T' side. table_tree s' T' \<and> set_tree T' = set_tree T - {a} \<and>
       size T' < size T \<and>
       (\<forall>y. heap s' y =
          (if Some y = parent n then map_option (link_update side (sole_child n)) (heap s y)
           else if Some y = sole_child n then map_option (\<lambda>x. x\<lparr>parent := parent n\<rparr>) (heap s y)
           else heap s y)) \<and>
       (case parent n of
          None \<Rightarrow> t_top s = Some a
        | Some m \<Rightarrow> m \<in> set_tree T \<and> m \<noteq> a \<and>
            (\<exists>mn. heap s m = Some mn \<and> link mn side = Some a)) \<and>
       (\<forall>c. sole_child n = Some c \<longrightarrow>
          c \<in> set_tree T \<and> c \<noteq> a \<and> Some c \<noteq> parent n \<and>
          (\<exists>cn. heap s c = Some cn \<and> parent cn = Some a))"
    apply (rule exI [of _ "graft_at T (parent n) side u'"], rule exI [of _ side])
    using T' sz hp par' child' by blast
  with vc vp show ?thesis unfolding s'_def by blast
qed


lemma same_payload_refl [simp]: "same_payload n n"
  by (simp add: same_payload_def)

lemma same_payload_trans: "same_payload n n' \<Longrightarrow> same_payload n' n'' \<Longrightarrow> same_payload n n''"
  by (cases n, cases n', cases n'') (auto simp: same_payload_def)

lemma same_payload_fields:
  "same_payload n n' \<Longrightarrow>
   lock n' = lock n \<and> info n' = info n \<and> on_wq n' = on_wq n \<and> pfx n' = pfx n \<and>
   prn n' = prn n \<and> adj_ins n' = adj_ins n \<and> adj_outs n' = adj_outs n"
  by (cases n, cases n') (auto simp: same_payload_def)

lemma same_payload_link_update [simp]: "same_payload n (link_update side v n)"
  by (simp add: same_payload_def link_update_only_links)

lemma same_payload_parent [simp]: "same_payload n (n\<lparr>parent := p\<rparr>)"
  by (simp add: same_payload_def)

lemma rel_payload_trans:
  "rel_option same_payload x y \<Longrightarrow> rel_option same_payload y z \<Longrightarrow> rel_option same_payload x z"
  by (cases x; cases y; cases z) (auto intro: same_payload_trans)

lemma unlink_payload:
  assumes "\<And>y. heap s' y =
     (if Some y = par then map_option (link_update side ch) (heap s y)
      else if Some y = ch then map_option (\<lambda>x. x\<lparr>parent := par\<rparr>) (heap s y)
      else heap s y)"
  shows "rel_option same_payload (heap s y) (heap s' y)"
  unfolding assms by (cases "heap s y") (auto simp: option.rel_refl)

text \<open>
  A trie whose idle nodes are clean, for a shape: the discipline over the nodes of the
  shape.
\<close>

lemma delete_tree:
  "table_tree s T \<Longrightarrow> a \<in> set_tree T \<Longrightarrow>
   \<exists>r. bgp_node_delete s a = Some r \<and>
     (case r of
        Inl e \<Rightarrow> e = AssertFailed \<and>
           (\<exists>y\<in>set_tree T. \<exists>m. heap s y = Some m \<and>
              (lock m \<noteq> 0 \<and> y = a \<or> lock m = 0 \<and> (info m \<noteq> None \<or> on_wq m)))
      | Inr s' \<Rightarrow>
          (\<exists>T'. table_tree s' T' \<and> set_tree T' \<subseteq> set_tree T \<and>
             (\<forall>y\<in>set_tree T - set_tree T'. \<exists>m. heap s y = Some m \<and> lock m = 0)) \<and>
          (\<forall>y. rel_option same_payload (heap s y) (heap s' y)) \<and>
          qdebug s' = qdebug s \<and> t_mpls_vpn s' = t_mpls_vpn s)"
proof (induction "size T" arbitrary: s T a rule: less_induct)
  case less
  note T = less.prems(1) and a = less.prems(2)
  from T have ht: "heap_tree (heap s) None (t_top s) T" by (simp add: table_tree_def)
  from heap_tree_valid [OF ht a] obtain n where n: "heap s a = Some n" by blast
  show ?case
  proof (cases "lock n \<noteq> 0 \<or> info n \<noteq> None \<or> on_wq n")
    case True
    then have "bgp_node_delete s a = Some (Inl AssertFailed)"
      using n by (subst bgp_node_delete.simps) simp
    moreover have "\<exists>y\<in>set_tree T. \<exists>m. heap s y = Some m \<and>
              (lock m \<noteq> 0 \<and> y = a \<or> lock m = 0 \<and> (info m \<noteq> None \<or> on_wq m))"
      using True a n by (intro bexI [of _ a]) auto
    ultimately show ?thesis by simp
  next
    case ok: False
    show ?thesis
    proof (cases "l_left n \<noteq> None \<and> l_right n \<noteq> None")
      case True
      with ok have "bgp_node_delete s a = Some (Inr s)"
        using n by (subst bgp_node_delete.simps) simp
      moreover have "\<exists>T'. table_tree s T' \<and> set_tree T' \<subseteq> set_tree T \<and>
             (\<forall>y\<in>set_tree T - set_tree T'. \<exists>m. heap s y = Some m \<and> lock m = 0)"
        using T by (intro exI [of _ T]) simp
      ultimately show ?thesis by (simp add: option.rel_refl)
    next
      case one: False
      define s3 where "s3 = unlink s a n"
      from unlink_tree [OF T a n one] obtain T1 side where
        v: "valid_ptr s (sole_child n)" "valid_ptr s (parent n)" and
        T1: "table_tree s3 T1" "set_tree T1 = set_tree T - {a}" "size T1 < size T" and
        hp: "\<And>y. heap s3 y =
          (if Some y = parent n then map_option (link_update side (sole_child n)) (heap s y)
           else if Some y = sole_child n then map_option (\<lambda>x. x\<lparr>parent := parent n\<rparr>) (heap s y)
           else heap s y)" and
        par: "case parent n of
          None \<Rightarrow> t_top s = Some a
        | Some m \<Rightarrow> m \<in> set_tree T \<and> m \<noteq> a \<and>
            (\<exists>mn. heap s m = Some mn \<and> link mn side = Some a)"
        unfolding s3_def by blast
      note py = unlink_payload [of s3 "parent n" side "sole_child n" s, OF hp]
      have fl: "qdebug s3 = qdebug s" "t_mpls_vpn s3 = t_mpls_vpn s"
        by (simp_all add: s3_def unlink_fields)
      have step: "bgp_node_delete s a =
        (case parent n of
           None \<Rightarrow> Some (Inr s3)
         | Some pa \<Rightarrow>
            (case heap s3 pa of
               None \<Rightarrow> Some (Inl BadPointer)
             | Some pn \<Rightarrow> if lock pn = 0 then bgp_node_delete s3 pa else Some (Inr s3)))"
        using n ok one v unfolding s3_def
        by (subst bgp_node_delete.simps) (auto simp: Let_def)
      have here: "\<exists>T'. table_tree s3 T' \<and> set_tree T' \<subseteq> set_tree T \<and>
             (\<forall>y\<in>set_tree T - set_tree T'. \<exists>m. heap s y = Some m \<and> lock m = 0)"
        using T1 n ok by (intro exI [of _ T1]) auto
      show ?thesis
      proof (cases "parent n")
        case None
        with step here py fl show ?thesis by simp
      next
        case (Some pa)
        with par obtain mn where pa: "pa \<in> set_tree T" "pa \<noteq> a" "heap s pa = Some mn" by auto
        from hp [of pa] Some pa have h3: "heap s3 pa = Some (link_update side (sole_child n) mn)"
          by simp
        show ?thesis
        proof (cases "lock mn = 0")
          case False
          with step Some h3 here py fl show ?thesis by simp
        next
          case True
          with step Some h3 have eq: "bgp_node_delete s a = bgp_node_delete s3 pa" by simp
          have pa1: "pa \<in> set_tree T1" using pa T1(2) by simp
          from less.hyps [OF T1(3) T1(1) pa1] obtain r where
            r: "bgp_node_delete s3 pa = Some r" and
            c: "case r of
                Inl e \<Rightarrow> e = AssertFailed \<and>
                   (\<exists>y\<in>set_tree T1. \<exists>m. heap s3 y = Some m \<and>
                      (lock m \<noteq> 0 \<and> y = pa \<or> lock m = 0 \<and> (info m \<noteq> None \<or> on_wq m)))
              | Inr s' \<Rightarrow>
                  (\<exists>T'. table_tree s' T' \<and> set_tree T' \<subseteq> set_tree T1 \<and>
                     (\<forall>y\<in>set_tree T1 - set_tree T'. \<exists>m. heap s3 y = Some m \<and> lock m = 0)) \<and>
                  (\<forall>y. rel_option same_payload (heap s3 y) (heap s' y)) \<and>
                  qdebug s' = qdebug s3 \<and> t_mpls_vpn s' = t_mpls_vpn s3"
            by blast
          have bk: "\<And>y m. heap s3 y = Some m \<Longrightarrow>
              \<exists>m0. heap s y = Some m0 \<and> lock m0 = lock m \<and> info m0 = info m \<and> on_wq m0 = on_wq m"
          proof -
            fix y m assume "heap s3 y = Some m"
            with py [of y] obtain m0 where "heap s y = Some m0" "same_payload m0 m"
              by (cases "heap s y") auto
            with same_payload_fields [of m0 m] show
              "\<exists>m0. heap s y = Some m0 \<and> lock m0 = lock m \<and> info m0 = info m \<and> on_wq m0 = on_wq m"
              by simp
          qed
          show ?thesis
          proof (cases r)
            case (Inl e)
            with c obtain y m where y: "e = AssertFailed" "y \<in> set_tree T1" "heap s3 y = Some m"
              "lock m \<noteq> 0 \<and> y = pa \<or> lock m = 0 \<and> (info m \<noteq> None \<or> on_wq m)" by auto
            from bk [OF y(3)] obtain m0 where m0: "heap s y = Some m0" "lock m0 = lock m"
              "info m0 = info m" "on_wq m0 = on_wq m" by blast
            from y(4) h3 True y(3) have "lock m = 0 \<and> (info m \<noteq> None \<or> on_wq m)" by auto
            with m0 y(2) T1(2) have "\<exists>y\<in>set_tree T. \<exists>m. heap s y = Some m \<and>
              (lock m \<noteq> 0 \<and> y = a \<or> lock m = 0 \<and> (info m \<noteq> None \<or> on_wq m))"
              by (intro bexI [of _ y]) auto
            with eq r Inl y(1) show ?thesis by simp
          next
            case (Inr s')
            with c obtain T' where T': "table_tree s' T'" "set_tree T' \<subseteq> set_tree T1"
              "\<forall>y\<in>set_tree T1 - set_tree T'. \<exists>m. heap s3 y = Some m \<and> lock m = 0" and
              p': "\<forall>y. rel_option same_payload (heap s3 y) (heap s' y)" and
              f': "qdebug s' = qdebug s3" "t_mpls_vpn s' = t_mpls_vpn s3" by auto
            have gone: "\<forall>y\<in>set_tree T - set_tree T'. \<exists>m. heap s y = Some m \<and> lock m = 0"
            proof
              fix y assume y: "y \<in> set_tree T - set_tree T'"
              show "\<exists>m. heap s y = Some m \<and> lock m = 0"
              proof (cases "y = a")
                case True
                with n ok show ?thesis by simp
              next
                case False
                with y T1(2) have "y \<in> set_tree T1 - set_tree T'" by simp
                with T'(3) obtain m where "heap s3 y = Some m" "lock m = 0" by blast
                with bk [of y m] show ?thesis by auto
              qed
            qed
            have "\<exists>T'. table_tree s' T' \<and> set_tree T' \<subseteq> set_tree T \<and>
                (\<forall>y\<in>set_tree T - set_tree T'. \<exists>m. heap s y = Some m \<and> lock m = 0)"
              using T' T1(2) gone by (intro exI [of _ T']) auto
            moreover have "\<forall>y. rel_option same_payload (heap s y) (heap s' y)"
              using py p' by (blast intro: rel_payload_trans)
            ultimately show ?thesis using eq r Inr f' fl by simp
          qed
        qed
      qed
    qed
  qed
qed


lemma idle_clean_tree:
  "table_tree s T \<Longrightarrow>
   idle_clean s = (\<forall>y\<in>set_tree T. \<forall>m. heap s y = Some m \<longrightarrow> lock m = 0 \<longrightarrow>
                     info m = None \<and> \<not> on_wq m)"
  by (auto simp: idle_clean_def table_tree_reach split: option.splits)

lemma payload_back:
  assumes "\<forall>y. rel_option same_payload (heap s y) (heap s' y)" "heap s' y = Some m"
  shows "\<exists>m0. heap s y = Some m0 \<and> lock m0 = lock m \<and> info m0 = info m \<and> on_wq m0 = on_wq m"
proof -
  from assms obtain m0 where "heap s y = Some m0" "same_payload m0 m"
    by (cases "heap s y") (auto dest: spec [of _ y])
  with same_payload_fields [of m0 m] show ?thesis by simp
qed

lemma delete_clean:
  assumes T: "table_tree s T" and a: "a \<in> set_tree T" and n: "heap s a = Some n"
    and l: "lock n = 0" and c: "idle_clean s"
  shows "\<exists>s' T'. bgp_node_delete s a = Some (Inr s') \<and> table_tree s' T' \<and> idle_clean s' \<and>
           set_tree T' \<subseteq> set_tree T \<and>
           (\<forall>y\<in>set_tree T - set_tree T'. \<exists>m. heap s y = Some m \<and> lock m = 0) \<and>
           (\<forall>y. rel_option same_payload (heap s y) (heap s' y))"
proof -
  from delete_tree [OF T a] obtain r where r: "bgp_node_delete s a = Some r" and
    k: "case r of
        Inl e \<Rightarrow> e = AssertFailed \<and>
           (\<exists>y\<in>set_tree T. \<exists>m. heap s y = Some m \<and>
              (lock m \<noteq> 0 \<and> y = a \<or> lock m = 0 \<and> (info m \<noteq> None \<or> on_wq m)))
      | Inr s' \<Rightarrow>
          (\<exists>T'. table_tree s' T' \<and> set_tree T' \<subseteq> set_tree T \<and>
             (\<forall>y\<in>set_tree T - set_tree T'. \<exists>m. heap s y = Some m \<and> lock m = 0)) \<and>
          (\<forall>y. rel_option same_payload (heap s y) (heap s' y)) \<and>
          qdebug s' = qdebug s \<and> t_mpls_vpn s' = t_mpls_vpn s"
    by blast
  note cl = c [unfolded idle_clean_tree [OF T]]
  show ?thesis
  proof (cases r)
    case (Inl e)
    with k obtain y m where "y \<in> set_tree T" "heap s y = Some m"
      "lock m \<noteq> 0 \<and> y = a \<or> lock m = 0 \<and> (info m \<noteq> None \<or> on_wq m)" by auto
    with cl n l have False by auto
    then show ?thesis ..
  next
    case (Inr s')
    with k obtain T' where T': "table_tree s' T'" "set_tree T' \<subseteq> set_tree T"
      "\<forall>y\<in>set_tree T - set_tree T'. \<exists>m. heap s y = Some m \<and> lock m = 0" and
      p: "\<forall>y. rel_option same_payload (heap s y) (heap s' y)" by auto
    have "idle_clean s'"
      unfolding idle_clean_tree [OF T'(1)]
    proof (intro ballI allI impI)
      fix y m assume y: "y \<in> set_tree T'" "heap s' y = Some m" "lock m = 0"
      from payload_back [OF p y(2)] obtain m0 where "heap s y = Some m0" "lock m0 = lock m"
        "info m0 = info m" "on_wq m0 = on_wq m" by blast
      with cl y T'(2) show "info m = None \<and> \<not> on_wq m" by auto
    qed
    with r Inr T' p show ?thesis by blast
  qed
qed

text \<open>
  C3.  \<^verbatim>\<open>bgp_node_delete\<close> on a node \<open>a\<close> of a well-formed table, with no lock, no payload
  and off the work queue.  With two children it returns and nothing has changed.  Otherwise
  one step unlinks \<open>a\<close>: its sole child (the left link if set, else the right one, possibly
  \<^verbatim>\<open>NULL\<close>) gets \<open>a\<close>'s parent as its parent and takes \<open>a\<close>'s place in the parent's link or
  in \<^verbatim>\<open>top\<close>, \<^verbatim>\<open>count\<close> goes down by one and \<open>a\<close> heads the free list; no other node
  changes, the table stays well formed and has lost exactly \<open>a\<close>.  Then the call is over
  at the root and at a parent that holds a lock, and goes on as \<^verbatim>\<open>bgp_node_delete\<close> of the
  parent when the parent's lock is 0, which returns at once if the parent still has two
  children.  The call always ends; when every idle node of the table is clean it returns,
  leaving a well-formed table whose lost nodes all had lock 0.
\<close>

theorem bgp_node_delete_collapse:
  assumes ok: "table_ok s" and a: "a \<in> reach (heap s) (t_top s)" and n: "heap s a = Some n"
    and idle: "lock n = 0" "info n = None" "\<not> on_wq n"
  shows
   "(l_left n \<noteq> None \<and> l_right n \<noteq> None \<longrightarrow> bgp_node_delete s a = Some (Inr s)) \<and>
    (\<not> (l_left n \<noteq> None \<and> l_right n \<noteq> None) \<longrightarrow>
       (\<exists>s1. s1 = unlink s a n \<and> table_ok s1 \<and>
          reach (heap s1) (t_top s1) = reach (heap s) (t_top s) - {a} \<and>
          t_count s1 = t_count s - 1 \<and> rn_frees s1 = a # rn_frees s \<and>
          (\<forall>c. sole_child n = Some c \<longrightarrow>
             (\<exists>cn. heap s c = Some cn \<and> parent cn = Some a \<and>
                heap s1 c = Some (cn\<lparr>parent := parent n\<rparr>))) \<and>
          (case parent n of
             None \<Rightarrow> t_top s = Some a \<and> t_top s1 = sole_child n \<and>
               bgp_node_delete s a = Some (Inr s1)
           | Some pa \<Rightarrow> t_top s1 = t_top s \<and>
               (\<exists>pn side. heap s pa = Some pn \<and> link pn side = Some a \<and>
                  heap s1 pa = Some (link_update side (sole_child n) pn) \<and>
                  bgp_node_delete s a =
                    (if lock pn = 0 then bgp_node_delete s1 pa else Some (Inr s1)) \<and>
                  (lock pn = 0 \<and> info pn = None \<and> \<not> on_wq pn \<and>
                   sole_child n \<noteq> None \<and> link pn (\<not> side) \<noteq> None \<longrightarrow>
                     bgp_node_delete s a = Some (Inr s1)))) \<and>
          (\<forall>y. Some y \<noteq> sole_child n \<longrightarrow> Some y \<noteq> parent n \<longrightarrow> heap s1 y = heap s y))) \<and>
    (\<exists>r. bgp_node_delete s a = Some r) \<and>
    (idle_clean s \<longrightarrow>
       (\<exists>s'. bgp_node_delete s a = Some (Inr s') \<and> table_ok s' \<and> idle_clean s' \<and>
          reach (heap s') (t_top s') \<subseteq> reach (heap s) (t_top s) \<and>
          (\<forall>y\<in>reach (heap s) (t_top s) - reach (heap s') (t_top s').
             \<exists>m. heap s y = Some m \<and> lock m = 0)))"
proof -
  from ok obtain T where T: "table_tree s T" by (auto simp: table_ok_def)
  note R = table_tree_reach [OF T]
  from a have aT: "a \<in> set_tree T" by (simp add: R)
  have two: "l_left n \<noteq> None \<and> l_right n \<noteq> None \<longrightarrow> bgp_node_delete s a = Some (Inr s)"
    using n idle by (subst bgp_node_delete.simps) simp
  have tot: "\<exists>r. bgp_node_delete s a = Some r" using delete_tree [OF T aT] by blast
  have clean: "idle_clean s \<longrightarrow>
       (\<exists>s'. bgp_node_delete s a = Some (Inr s') \<and> table_ok s' \<and> idle_clean s' \<and>
          reach (heap s') (t_top s') \<subseteq> reach (heap s) (t_top s) \<and>
          (\<forall>y\<in>reach (heap s) (t_top s) - reach (heap s') (t_top s').
             \<exists>m. heap s y = Some m \<and> lock m = 0))"
  proof
    assume "idle_clean s"
    from delete_clean [OF T aT n idle(1) this] obtain s' T' where
      d: "bgp_node_delete s a = Some (Inr s')" "table_tree s' T'" "idle_clean s'"
        "set_tree T' \<subseteq> set_tree T"
        "\<forall>y\<in>set_tree T - set_tree T'. \<exists>m. heap s y = Some m \<and> lock m = 0" by blast
    note R' = table_tree_reach [OF d(2)]
    from d(2) have "table_ok s'" by (auto simp: table_ok_def)
    with d show "\<exists>s'. bgp_node_delete s a = Some (Inr s') \<and> table_ok s' \<and> idle_clean s' \<and>
          reach (heap s') (t_top s') \<subseteq> reach (heap s) (t_top s) \<and>
          (\<forall>y\<in>reach (heap s) (t_top s) - reach (heap s') (t_top s').
             \<exists>m. heap s y = Some m \<and> lock m = 0)"
      unfolding R by (intro exI [of _ s']) (simp add: R')
  qed
  have one: "\<not> (l_left n \<noteq> None \<and> l_right n \<noteq> None) \<longrightarrow>
       (\<exists>s1. s1 = unlink s a n \<and> table_ok s1 \<and>
          reach (heap s1) (t_top s1) = reach (heap s) (t_top s) - {a} \<and>
          t_count s1 = t_count s - 1 \<and> rn_frees s1 = a # rn_frees s \<and>
          (\<forall>c. sole_child n = Some c \<longrightarrow>
             (\<exists>cn. heap s c = Some cn \<and> parent cn = Some a \<and>
                heap s1 c = Some (cn\<lparr>parent := parent n\<rparr>))) \<and>
          (case parent n of
             None \<Rightarrow> t_top s = Some a \<and> t_top s1 = sole_child n \<and>
               bgp_node_delete s a = Some (Inr s1)
           | Some pa \<Rightarrow> t_top s1 = t_top s \<and>
               (\<exists>pn side. heap s pa = Some pn \<and> link pn side = Some a \<and>
                  heap s1 pa = Some (link_update side (sole_child n) pn) \<and>
                  bgp_node_delete s a =
                    (if lock pn = 0 then bgp_node_delete s1 pa else Some (Inr s1)) \<and>
                  (lock pn = 0 \<and> info pn = None \<and> \<not> on_wq pn \<and>
                   sole_child n \<noteq> None \<and> link pn (\<not> side) \<noteq> None \<longrightarrow>
                     bgp_node_delete s a = Some (Inr s1)))) \<and>
          (\<forall>y. Some y \<noteq> sole_child n \<longrightarrow> Some y \<noteq> parent n \<longrightarrow> heap s1 y = heap s y))"
  proof
    assume o: "\<not> (l_left n \<noteq> None \<and> l_right n \<noteq> None)"
    define s1 where "s1 = unlink s a n"
    from unlink_tree [OF T aT n o] obtain T1 side where
      v: "valid_ptr s (sole_child n)" "valid_ptr s (parent n)" and
      T1: "table_tree s1 T1" "set_tree T1 = set_tree T - {a}" and
      hp: "\<And>y. heap s1 y =
        (if Some y = parent n then map_option (link_update side (sole_child n)) (heap s y)
         else if Some y = sole_child n then map_option (\<lambda>x. x\<lparr>parent := parent n\<rparr>) (heap s y)
         else heap s y)" and
      par: "case parent n of
          None \<Rightarrow> t_top s = Some a
        | Some m \<Rightarrow> m \<in> set_tree T \<and> m \<noteq> a \<and>
            (\<exists>mn. heap s m = Some mn \<and> link mn side = Some a)" and
      ch: "\<forall>c. sole_child n = Some c \<longrightarrow>
          c \<in> set_tree T \<and> c \<noteq> a \<and> Some c \<noteq> parent n \<and>
          (\<exists>cn. heap s c = Some cn \<and> parent cn = Some a)"
      unfolding s1_def by blast
    note R1 = table_tree_reach [OF T1(1)]
    have ok1: "table_ok s1" using T1(1) by (auto simp: table_ok_def)
    have step: "bgp_node_delete s a =
        (case parent n of
           None \<Rightarrow> Some (Inr s1)
         | Some pa \<Rightarrow>
            (case heap s1 pa of
               None \<Rightarrow> Some (Inl BadPointer)
             | Some pn \<Rightarrow> if lock pn = 0 then bgp_node_delete s1 pa else Some (Inr s1)))"
      using n idle o v unfolding s1_def
      by (subst bgp_node_delete.simps) (auto simp: Let_def)
    have c1: "\<forall>c. sole_child n = Some c \<longrightarrow>
             (\<exists>cn. heap s c = Some cn \<and> parent cn = Some a \<and>
                heap s1 c = Some (cn\<lparr>parent := parent n\<rparr>))"
      using ch by (auto simp: hp)
    have c2: "case parent n of
             None \<Rightarrow> t_top s = Some a \<and> t_top s1 = sole_child n \<and>
               bgp_node_delete s a = Some (Inr s1)
           | Some pa \<Rightarrow> t_top s1 = t_top s \<and>
               (\<exists>pn side. heap s pa = Some pn \<and> link pn side = Some a \<and>
                  heap s1 pa = Some (link_update side (sole_child n) pn) \<and>
                  bgp_node_delete s a =
                    (if lock pn = 0 then bgp_node_delete s1 pa else Some (Inr s1)) \<and>
                  (lock pn = 0 \<and> info pn = None \<and> \<not> on_wq pn \<and>
                   sole_child n \<noteq> None \<and> link pn (\<not> side) \<noteq> None \<longrightarrow>
                     bgp_node_delete s a = Some (Inr s1)))"
    proof (cases "parent n")
      case None
      with par step show ?thesis by (simp add: s1_def unlink_fields)
    next
      case (Some pa)
      with par obtain pn where pn: "heap s pa = Some pn" "link pn side = Some a" by auto
      from hp [of pa] Some pn have h1: "heap s1 pa = Some (link_update side (sole_child n) pn)"
        by simp
      from step Some h1 have eq: "bgp_node_delete s a =
          (if lock pn = 0 then bgp_node_delete s1 pa else Some (Inr s1))" by simp
      have stop: "lock pn = 0 \<and> info pn = None \<and> \<not> on_wq pn \<and>
                   sole_child n \<noteq> None \<and> link pn (\<not> side) \<noteq> None \<longrightarrow>
                     bgp_node_delete s a = Some (Inr s1)"
      proof
        assume p: "lock pn = 0 \<and> info pn = None \<and> \<not> on_wq pn \<and>
                   sole_child n \<noteq> None \<and> link pn (\<not> side) \<noteq> None"
        then have "l_left (link_update side (sole_child n) pn) \<noteq> None \<and>
                   l_right (link_update side (sole_child n) pn) \<noteq> None"
          by (cases side) (auto simp: link_def)
        with p h1 have "bgp_node_delete s1 pa = Some (Inr s1)"
          by (subst bgp_node_delete.simps) simp
        with eq p show "bgp_node_delete s a = Some (Inr s1)" by simp
      qed
      have "t_top s1 = t_top s" using Some by (simp add: s1_def unlink_fields)
      with Some pn h1 eq stop show ?thesis by auto
    qed
    have c3: "\<forall>y. Some y \<noteq> sole_child n \<longrightarrow> Some y \<noteq> parent n \<longrightarrow> heap s1 y = heap s y"
      by (simp add: hp)
    have "table_ok s1 \<and>
          reach (heap s1) (t_top s1) = reach (heap s) (t_top s) - {a} \<and>
          t_count s1 = t_count s - 1 \<and> rn_frees s1 = a # rn_frees s"
      using ok1 T1(2) by (simp add: R R1) (simp add: s1_def unlink_fields)
    with c1 c2 c3 show "\<exists>s1. s1 = unlink s a n \<and> table_ok s1 \<and>
          reach (heap s1) (t_top s1) = reach (heap s) (t_top s) - {a} \<and>
          t_count s1 = t_count s - 1 \<and> rn_frees s1 = a # rn_frees s \<and>
          (\<forall>c. sole_child n = Some c \<longrightarrow>
             (\<exists>cn. heap s c = Some cn \<and> parent cn = Some a \<and>
                heap s1 c = Some (cn\<lparr>parent := parent n\<rparr>))) \<and>
          (case parent n of
             None \<Rightarrow> t_top s = Some a \<and> t_top s1 = sole_child n \<and>
               bgp_node_delete s a = Some (Inr s1)
           | Some pa \<Rightarrow> t_top s1 = t_top s \<and>
               (\<exists>pn side. heap s pa = Some pn \<and> link pn side = Some a \<and>
                  heap s1 pa = Some (link_update side (sole_child n) pn) \<and>
                  bgp_node_delete s a =
                    (if lock pn = 0 then bgp_node_delete s1 pa else Some (Inr s1)) \<and>
                  (lock pn = 0 \<and> info pn = None \<and> \<not> on_wq pn \<and>
                   sole_child n \<noteq> None \<and> link pn (\<not> side) \<noteq> None \<longrightarrow>
                     bgp_node_delete s a = Some (Inr s1)))) \<and>
          (\<forall>y. Some y \<noteq> sole_child n \<longrightarrow> Some y \<noteq> parent n \<longrightarrow> heap s1 y = heap s y)"
      unfolding s1_def [symmetric] by (intro exI [of _ s1]) (simp add: s1_def)
  qed
  from two one tot clean show ?thesis by blast
qed


lemma ex_glue_tree: "table_tree ex_glue_table (Node (Node Leaf 0 Leaf) 2 (Node Leaf 1 Leaf))"
  by (simp add: table_tree_def ex_glue_table_def ex_node_def edge_ok_def child_ok_def pool_ok_def
      ip4_def prefix_match_def prefix_bit_def byte_at_def upt_rec)

lemma ex_glue_reach: "reach (heap ex_glue_table) (t_top ex_glue_table) = {0, 1, 2}"
  using table_tree_reach [OF ex_glue_tree] by auto

lemma ex_glue_clean: "idle_clean ex_glue_table"
  unfolding idle_clean_tree [OF ex_glue_tree]
  by (simp add: ex_glue_table_def ex_node_def)

theorem bgp_node_delete_collapse_witness:
  "table_ok ex_glue_table \<and> 1 \<in> reach (heap ex_glue_table) (t_top ex_glue_table) \<and>
   heap ex_glue_table 1 = Some (ex_node (ip4 11 0 0 0 8) (Some 2) None None 0 None) \<and>
   idle_clean ex_glue_table \<and>
   (\<exists>s'. bgp_node_delete ex_glue_table 1 = Some (Inr s') \<and> t_top s' = Some 0 \<and>
      t_count s' = 1 \<and> rn_frees s' = [2, 1] \<and> reach (heap s') (t_top s') = {0} \<and>
      map_option parent (heap s' 0) = Some None \<and> table_ok s')"
proof -
  define n1 where "n1 = ex_node (ip4 11 0 0 0 8) (Some 2) None None 0 None"
  define G where "G = ex_node (ip4 10 0 0 0 7) None (Some 0) (Some 1) 0 None"
  define n0 where "n0 = ex_node (ip4 10 0 0 0 8) (Some 2) None None 1 (Some 1)"
  have ok: "table_ok ex_glue_table" using ex_glue_tree by (auto simp: table_ok_def)
  have a1: "1 \<in> reach (heap ex_glue_table) (t_top ex_glue_table)" by (simp add: ex_glue_reach)
  have h1: "heap ex_glue_table 1 = Some n1" by (simp add: ex_glue_table_def n1_def)
  have hG: "heap ex_glue_table 2 = Some G" by (simp add: ex_glue_table_def G_def)
  have h0: "heap ex_glue_table 0 = Some n0" by (simp add: ex_glue_table_def n0_def)
  have f1: "lock n1 = 0" "info n1 = None" "\<not> on_wq n1" "l_left n1 = None" "parent n1 = Some 2"
    "sole_child n1 = None"
    by (simp_all add: n1_def ex_node_def sole_child_def)
  have fG: "lock G = 0" "info G = None" "\<not> on_wq G" "link G False = Some 0" "link G True = Some 1"
    "parent G = None"
    by (simp_all add: G_def ex_node_def link_def)
  have c: "t_count ex_glue_table = 3" "rn_frees ex_glue_table = []" "t_top ex_glue_table = Some 2"
    by (simp_all add: ex_glue_table_def)
  from bgp_node_delete_collapse [OF ok a1 h1 f1(1,2,3)] f1(4)
  obtain s1 where s1: "table_ok s1"
    "reach (heap s1) (t_top s1) = reach (heap ex_glue_table) (t_top ex_glue_table) - {1}"
    "t_count s1 = t_count ex_glue_table - 1" "rn_frees s1 = 1 # rn_frees ex_glue_table" and
    p1: "case parent n1 of
             None \<Rightarrow> t_top ex_glue_table = Some 1 \<and> t_top s1 = sole_child n1 \<and>
               bgp_node_delete ex_glue_table 1 = Some (Inr s1)
           | Some pa \<Rightarrow> t_top s1 = t_top ex_glue_table \<and>
               (\<exists>pn side. heap ex_glue_table pa = Some pn \<and> link pn side = Some 1 \<and>
                  heap s1 pa = Some (link_update side (sole_child n1) pn) \<and>
                  bgp_node_delete ex_glue_table 1 =
                    (if lock pn = 0 then bgp_node_delete s1 pa else Some (Inr s1)) \<and>
                  (lock pn = 0 \<and> info pn = None \<and> \<not> on_wq pn \<and>
                   sole_child n1 \<noteq> None \<and> link pn (\<not> side) \<noteq> None \<longrightarrow>
                     bgp_node_delete ex_glue_table 1 = Some (Inr s1)))" and
    o1: "\<forall>y. Some y \<noteq> sole_child n1 \<longrightarrow> Some y \<noteq> parent n1 \<longrightarrow> heap s1 y = heap ex_glue_table y"
    by auto
  from p1 f1(5) hG obtain side where sd: "link G side = Some 1"
    "heap s1 2 = Some (link_update side (sole_child n1) G)"
    "bgp_node_delete ex_glue_table 1 = (if lock G = 0 then bgp_node_delete s1 2 else Some (Inr s1))"
    by auto
  from sd(1) fG(4) have side: "side = True" by (cases side) simp_all
  define n2 where "n2 = link_update True None G"
  have h2: "heap s1 2 = Some n2" using sd(2) by (simp add: side f1 n2_def)
  have e1: "bgp_node_delete ex_glue_table 1 = bgp_node_delete s1 2" using sd(3) fG(1) by simp
  have h01: "heap s1 0 = Some n0" using o1 h0 by (simp add: f1)
  have f2: "lock n2 = 0" "info n2 = None" "\<not> on_wq n2" "l_right n2 = None" "parent n2 = None"
    "sole_child n2 = Some 0"
    using fG by (simp_all add: n2_def sole_child_def link_def)
  have a2: "2 \<in> reach (heap s1) (t_top s1)" by (simp add: s1(2) ex_glue_reach)
  from bgp_node_delete_collapse [OF s1(1) a2 h2 f2(1,2,3)] f2(4)
  obtain s2 where s2: "table_ok s2"
    "reach (heap s2) (t_top s2) = reach (heap s1) (t_top s1) - {2}"
    "t_count s2 = t_count s1 - 1" "rn_frees s2 = 2 # rn_frees s1" and
    c2: "\<forall>c. sole_child n2 = Some c \<longrightarrow>
             (\<exists>cn. heap s1 c = Some cn \<and> parent cn = Some 2 \<and>
                heap s2 c = Some (cn\<lparr>parent := parent n2\<rparr>))" and
    p2: "case parent n2 of
             None \<Rightarrow> t_top s1 = Some 2 \<and> t_top s2 = sole_child n2 \<and>
               bgp_node_delete s1 2 = Some (Inr s2)
           | Some pa \<Rightarrow> t_top s2 = t_top s1 \<and>
               (\<exists>pn side. heap s1 pa = Some pn \<and> link pn side = Some 2 \<and>
                  heap s2 pa = Some (link_update side (sole_child n2) pn) \<and>
                  bgp_node_delete s1 2 =
                    (if lock pn = 0 then bgp_node_delete s2 pa else Some (Inr s2)) \<and>
                  (lock pn = 0 \<and> info pn = None \<and> \<not> on_wq pn \<and>
                   sole_child n2 \<noteq> None \<and> link pn (\<not> side) \<noteq> None \<longrightarrow>
                     bgp_node_delete s1 2 = Some (Inr s2)))"
    by auto
  from p2 f2(5,6) have r2: "t_top s2 = Some 0" "bgp_node_delete s1 2 = Some (Inr s2)" by simp_all
  from c2 f2(5,6) h01 have p0: "map_option parent (heap s2 0) = Some None" by auto
  have r: "reach (heap s2) (t_top s2) = {0}" unfolding s2(2) s1(2) ex_glue_reach by auto
  have k: "t_count s2 = 1" "rn_frees s2 = [2, 1]" by (simp_all add: s2 s1 c)
  have "\<exists>s'. bgp_node_delete ex_glue_table 1 = Some (Inr s') \<and> t_top s' = Some 0 \<and>
      t_count s' = 1 \<and> rn_frees s' = [2, 1] \<and> reach (heap s') (t_top s') = {0} \<and>
      map_option parent (heap s' 0) = Some None \<and> table_ok s'"
    using e1 r2 k r p0 s2(1) by (intro exI [of _ s2]) simp
  with ok a1 h1 ex_glue_clean show ?thesis unfolding n1_def by blast
qed

section \<open>Sequences of get and unlock\<close>

lemma held_calloc: "bgp_node_calloc s = (a, s1) \<Longrightarrow> held (heap s1) \<subseteq> held (heap s)"
  by (auto simp: bgp_node_calloc_def held_def Let_def zero_node_def
      split: list.splits if_splits)

lemma held_node_upd:
  "(\<And>n. lock (f n) = lock n) \<Longrightarrow> held (heap (node_upd f a s)) = held (heap s)"
  by (auto simp: node_upd_def held_def split: option.splits if_splits)

lemma held_bgp_node_set:
  assumes "bgp_node_set s q = (a, s1)"
  shows "held (heap s1) \<subseteq> held (heap s)"
proof -
  from assms obtain s0 where 0: "bgp_node_calloc s = (a, s0)"
    "s1 = node_upd (\<lambda>n. n\<lparr>pfx := q\<rparr>) a s0"
    by (auto simp: bgp_node_set_def split: prod.splits)
  have "held (heap s1) = held (heap s0)" unfolding 0(2) by (rule held_node_upd) simp
  with held_calloc [OF 0(1)] show ?thesis by simp
qed

lemma held_set_link: "set_link a b s = Inr s' \<Longrightarrow> held (heap s') = held (heap s)"
  by (auto simp: set_link_def Let_def held_node_upd link_update_def split: option.splits)

lemma held_link_under: "link_under mo new s = Inr s' \<Longrightarrow> held (heap s') = held (heap s)"
  by (auto simp: link_under_def split: option.splits dest: held_set_link)

lemma held_get_finish:
  "get_finish s a prn0 = Inr (s', r) \<Longrightarrow> r = a \<and> held (heap s') \<subseteq> insert a (held (heap s))"
  by (auto simp: get_finish_def Let_def bgp_lock_node_def node_upd_def held_def
      split: if_splits option.splits sum.splits)

lemma held_get_glue:
  assumes "get_glue s q a mo = Inr (s4, new)"
  shows "held (heap s4) \<subseteq> held (heap s)"
proof -
  from assms obtain s1 n s3 where 0: "bgp_node_calloc s = (new, s1)" "heap s1 a = Some n"
    "set_link new a (node_upd
        (\<lambda>x. x\<lparr>pfx := (route_common (pfx n) q (pfx x))\<lparr>family := family q\<rparr>\<rparr>) new s1) = Inr s3"
    "link_under mo new s3 = Inr s4"
    by (auto simp: get_glue_def Let_def split: prod.splits option.splits sum.splits)
  have "held (heap (node_upd
        (\<lambda>x. x\<lparr>pfx := (route_common (pfx n) q (pfx x))\<lparr>family := family q\<rparr>\<rparr>) new s1)) =
        held (heap s1)" by (rule held_node_upd) simp
  with held_calloc [OF 0(1)] held_set_link [OF 0(3)] held_link_under [OF 0(4)]
  show ?thesis by simp
qed

lemma held_count [simp]: "held (heap (s\<lparr>t_count := k\<rparr>)) = held (heap s)"
  by simp

lemma held_get_insert:
  assumes "get_insert s q prn0 nd mo = Inr (s', ret)"
  shows "held (heap s') \<subseteq> insert ret (held (heap s))"
proof (cases nd)
  case None
  with assms obtain new s1 s2 where 1: "bgp_node_set s q = (new, s1)"
    "link_under mo new s1 = Inr s2" "get_finish s2 new prn0 = Inr (s', ret)"
    by (auto simp: get_insert_def split: prod.splits sum.splits)
  from held_bgp_node_set [OF 1(1)] held_link_under [OF 1(2)] held_get_finish [OF 1(3)]
  show ?thesis by auto
next
  case (Some a)
  with assms obtain s4 new g where 1: "get_glue s q a mo = Inr (s4, new)" "heap s4 new = Some g"
    and 2: "if prefixlen (pfx g) \<noteq> prefixlen q
         then (case bgp_node_set s4 q of
                 (new2, s5) \<Rightarrow>
                   (case set_link new new2 s5 of
                      Inl e \<Rightarrow> Inl e
                    | Inr s6 \<Rightarrow> get_finish (s6\<lparr>t_count := t_count s6 + 1\<rparr>) new2 prn0)) =
              Inr (s', ret)
         else get_finish s4 new prn0 = Inr (s', ret)"
    by (auto simp: get_insert_def split: prod.splits sum.splits option.splits if_splits)
  note h4 = held_get_glue [OF 1(1)]
  show ?thesis
  proof (cases "prefixlen (pfx g) \<noteq> prefixlen q")
    case True
    with 2 obtain new2 s5 s6 where 3: "bgp_node_set s4 q = (new2, s5)"
      "set_link new new2 s5 = Inr s6"
      "get_finish (s6\<lparr>t_count := t_count s6 + 1\<rparr>) new2 prn0 = Inr (s', ret)"
      by (auto split: prod.splits sum.splits)
    from held_bgp_node_set [OF 3(1)] held_set_link [OF 3(2)] held_get_finish [OF 3(3)] h4
    show ?thesis by auto
  next
    case False
    with 2 have "get_finish s4 new prn0 = Inr (s', ret)" by simp
    from held_get_finish [OF this] h4 show ?thesis by auto
  qed
qed

lemma held_get:
  assumes "bgp_node_get s q prn0 = Some (Inr (s', ret))"
  shows "held (heap s') \<subseteq> insert ret (held (heap s))"
proof -
  from assms consider
    (exact) n where "heap s ret = Some n" "bgp_lock_node s ret = Inr s'"
  | (stop) nd mo where "get_insert s q prn0 nd mo = Inr (s', ret)"
    by (auto simp: bgp_node_get_def split: if_splits option.splits sum.splits walk.splits)
  then show ?thesis
  proof cases
    case exact
    then show ?thesis by (auto simp: bgp_lock_node_def node_upd_def held_def split: if_splits)
  next
    case stop
    then show ?thesis by (rule held_get_insert)
  qed
qed


lemma bgp_node_get_tree:
  assumes T: "table_tree s T" and vq: "prefixlen q \<le> 128"
    and run: "bgp_node_get s q prn0 = Some (Inr (s', ret))"
  shows "\<exists>T'. table_tree s' T' \<and> set_tree T \<subseteq> set_tree T' \<and> ret \<in> set_tree T'"
proof -
  from run have pre: "\<not> qdebug s \<or> prn0 = None \<or> t_mpls_vpn s"
    by (auto simp: bgp_node_get_def split: if_splits)
  from get_walk_table [OF T, of q] obtain w where
    w: "get_walk (heap s) q (t_top s) None = Some (Inr w)" by blast
  show ?thesis
  proof (cases w)
    case (Exact a)
    from bgp_node_get_exact [OF T pre w [unfolded Exact], of ] run show ?thesis
      by (auto split: if_splits)
  next
    case (Stop nd mo)
    from bgp_node_get_stop [OF T pre w [unfolded Stop]] run have
      gi: "get_insert s q prn0 nd mo = Inr (s', ret)" and
      sl: "slot (heap s) (t_top s) (set_tree T) q mo nd" by simp_all
    show ?thesis
    proof (cases nd)
      case None
      from get_insert_leaf [OF T sl [unfolded None], of prn0] obtain s1 a side where
        1: "get_insert s q prn0 None mo = Inr (s1, a)"
        "table_tree s1 (graft_at T mo side (Node Leaf a Leaf))"
        "set_tree (graft_at T mo side (Node Leaf a Leaf)) = insert a (set_tree T)"
        by blast
      with gi None show ?thesis
        by (intro exI [of _ "graft_at T mo side (Node Leaf a Leaf)"]) auto
    next
      case (Some c)
      have "\<exists>s1 r T'. get_insert s q prn0 (Some c) mo = Inr (s1, r) \<and> table_tree s1 T' \<and>
          set_tree T \<subseteq> set_tree T' \<and> r \<in> set_tree T'"
        using get_insert_glue [OF T sl [unfolded Some] vq, of prn0]
        apply (elim exE conjE)
        subgoal for s1 r g side cn G T'
          apply (rule exI [of _ s1], rule exI [of _ r], rule exI [of _ T'])
          apply (auto split: if_splits)
          done
        done
      with gi Some show ?thesis by auto
    qed
  qed
qed

text \<open>The invariant of the sequences: a well-formed table that holds every locked record.\<close>

lemma bgp_node_get_inv:
  assumes T: "table_tree s T" and h: "held (heap s) \<subseteq> set_tree T" and vq: "valid_prefix q"
    and run: "bgp_node_get s q prn0 = Some (Inr (s', ret))"
  shows "\<exists>T'. table_tree s' T' \<and> held (heap s') \<subseteq> set_tree T'"
proof -
  from vq have "prefixlen q \<le> 128" by (simp add: valid_prefix_def)
  from bgp_node_get_tree [OF T this run] obtain T' where
    T': "table_tree s' T'" "set_tree T \<subseteq> set_tree T'" "ret \<in> set_tree T'" by blast
  from held_get [OF run] h T'(2,3) have "held (heap s') \<subseteq> set_tree T'" by auto
  with T'(1) show ?thesis by blast
qed

lemma held_payload:
  assumes "\<forall>y. rel_option same_payload (heap s y) (heap s' y)"
  shows "held (heap s') = held (heap s)"
proof -
  have "\<And>y. (\<exists>n. heap s' y = Some n \<and> lock n \<noteq> 0) = (\<exists>n. heap s y = Some n \<and> lock n \<noteq> 0)"
  proof -
    fix y
    from assms have "rel_option same_payload (heap s y) (heap s' y)" by simp
    then show "(\<exists>n. heap s' y = Some n \<and> lock n \<noteq> 0) = (\<exists>n. heap s y = Some n \<and> lock n \<noteq> 0)"
      by (cases "heap s y"; cases "heap s' y") (auto dest: same_payload_fields)
  qed
  then show ?thesis by (simp add: held_def)
qed

lemma bgp_unlock_node_inv:
  assumes T: "table_tree s T" and h: "held (heap s) \<subseteq> set_tree T"
    and run: "bgp_unlock_node s a = Some (Inr s')"
  shows "\<exists>T'. table_tree s' T' \<and> held (heap s') \<subseteq> set_tree T'"
proof -
  from run obtain n where n: "heap s a = Some n" "lock n > 0"
    by (auto simp: bgp_unlock_node_def split: option.splits if_splits)
  define s1 where "s1 = s\<lparr>heap := (heap s)(a \<mapsto> n\<lparr>lock := lock n - 1\<rparr>)\<rparr>"
  have s1: "node_upd (\<lambda>x. x\<lparr>lock := lock x - 1\<rparr>) a s = s1"
    using n by (simp add: node_upd_def s1_def)
  from n h have aT: "a \<in> set_tree T" by (auto simp: held_def)
  have T1: "table_tree s1 T" unfolding s1_def by (rule table_tree_payload [OF T n(1)]) simp_all
  have h1: "held (heap s1) \<subseteq> held (heap s)"
    using n by (auto simp: s1_def held_def split: if_splits)
  from run n s1 have r: "(if lock n - 1 = 0 then bgp_node_delete s1 a else Some (Inr s1)) =
      Some (Inr s')" by (simp add: bgp_unlock_node_def Let_def)
  show ?thesis
  proof (cases "lock n - 1 = 0")
    case False
    with r have "s' = s1" by simp
    with T1 h1 h show ?thesis by blast
  next
    case True
    with r have d: "bgp_node_delete s1 a = Some (Inr s')" by simp
    from delete_tree [OF T1 aT] d obtain T' where
      T': "table_tree s' T'" "set_tree T' \<subseteq> set_tree T"
        "\<forall>y\<in>set_tree T - set_tree T'. \<exists>m. heap s1 y = Some m \<and> lock m = 0" and
      p: "\<forall>y. rel_option same_payload (heap s1 y) (heap s' y)" by auto
    have "held (heap s') \<subseteq> set_tree T'"
    proof
      fix y assume "y \<in> held (heap s')"
      then have y: "y \<in> held (heap s1)" by (simp add: held_payload [OF p])
      with h1 h have "y \<in> set_tree T" by auto
      moreover from y have "\<not> (\<exists>m. heap s1 y = Some m \<and> lock m = 0)" by (auto simp: held_def)
      ultimately show "y \<in> set_tree T'" using T'(3) by blast
    qed
    with T'(1) show ?thesis by blast
  qed
qed

lemma run_inv:
  "table_tree s T \<Longrightarrow> held (heap s) \<subseteq> set_tree T \<Longrightarrow> \<forall>x\<in>set ops. valid_op x \<Longrightarrow>
   run ops s = Some (Inr s') \<Longrightarrow> \<exists>T'. table_tree s' T' \<and> held (heap s') \<subseteq> set_tree T'"
proof (induction ops arbitrary: s T)
  case Nil
  then show ?case by auto
next
  case (Cons x ops)
  show ?case
  proof (cases x)
    case (Get q prn0)
    with Cons.prems(4) obtain s1 r where 1: "bgp_node_get s q prn0 = Some (Inr (s1, r))"
      "run ops s1 = Some (Inr s')"
      by (auto split: option.splits sum.splits)
    from Cons.prems(3) Get have "valid_prefix q" by simp
    from bgp_node_get_inv [OF Cons.prems(1,2) this 1(1)] obtain T1 where
      "table_tree s1 T1" "held (heap s1) \<subseteq> set_tree T1" by blast
    from Cons.IH [OF this _ 1(2)] Cons.prems(3) show ?thesis by simp
  next
    case (Unlock a)
    with Cons.prems(4) obtain s1 where 1: "bgp_unlock_node s a = Some (Inr s1)"
      "run ops s1 = Some (Inr s')"
      by (auto split: option.splits sum.splits)
    from bgp_unlock_node_inv [OF Cons.prems(1,2) 1(1)] obtain T1 where
      "table_tree s1 T1" "held (heap s1) \<subseteq> set_tree T1" by blast
    from Cons.IH [OF this _ 1(2)] Cons.prems(3) show ?thesis by simp
  qed
qed

lemma table_tree_card:
  assumes "table_tree s T"
  shows "t_count s = of_nat (card (reach (heap s) (t_top s)))"
proof -
  from assms have "distinct (preorder T)" "t_count s = of_nat (size T)"
    by (simp_all add: table_tree_def)
  with size_card_tree [of T] table_tree_reach [OF assms] show ?thesis by simp
qed

lemma init_tree: "table_tree (bgp_table_init vpn dbg) Leaf"
  by (simp add: table_tree_def bgp_table_init_def pool_ok_def)


text \<open>
  C4.  From a well-formed table in which every record that holds a lock is in the trie
  (such as a new table), any sequence of \<^verbatim>\<open>bgp_node_get\<close> with valid prefixes and
  \<^verbatim>\<open>bgp_unlock_node\<close> that runs to its end leaves \<^verbatim>\<open>count\<close> equal to the number of nodes
  reachable from \<^verbatim>\<open>top\<close> (as an \<^verbatim>\<open>unsigned long\<close>), and the table as it was found:
  well formed and holding every locked record.
\<close>

theorem count_invariant:
  assumes "table_ok s" and "held (heap s) \<subseteq> reach (heap s) (t_top s)"
    and "\<forall>x\<in>set ops. valid_op x" and "run ops s = Some (Inr s')"
  shows "t_count s' = of_nat (card (reach (heap s') (t_top s'))) \<and> table_ok s' \<and>
         held (heap s') \<subseteq> reach (heap s') (t_top s')"
proof -
  from assms(1) obtain T where T: "table_tree s T" by (auto simp: table_ok_def)
  from assms(2) have h: "held (heap s) \<subseteq> set_tree T" by (simp add: table_tree_reach [OF T])
  from run_inv [OF T h assms(3,4)] obtain T' where
    T': "table_tree s' T'" "held (heap s') \<subseteq> set_tree T'" by blast
  from T'(1) have "table_ok s'" by (auto simp: table_ok_def)
  with table_tree_card [OF T'(1)] T'(2) show ?thesis
    by (simp add: table_tree_reach [OF T'(1)])
qed

lemma ex_glue_unlock:
  "bgp_unlock_node (locked ex_glue_table (Some 1)) 1 = bgp_node_delete ex_glue_table 1"
proof -
  have "node_upd (\<lambda>x. x\<lparr>lock := lock x - 1\<rparr>) 1 (locked ex_glue_table (Some 1)) = ex_glue_table"
    by (simp add: locked_def node_upd_def ex_glue_table_def ex_node_def)
  moreover have "heap (locked ex_glue_table (Some 1)) 1 =
      Some (ex_node (ip4 11 0 0 0 8) (Some 2) None None 1 None)"
    by (simp add: locked_def node_upd_def ex_glue_table_def ex_node_def)
  ultimately show ?thesis
    by (simp add: bgp_unlock_node_def Let_def) (simp add: ex_node_def)
qed

lemma ex_glue_locked_tree:
  "table_tree (locked ex_glue_table (Some 1)) (Node (Node Leaf 0 Leaf) 2 (Node Leaf 1 Leaf))"
proof -
  have h: "heap ex_glue_table 1 = Some (ex_node (ip4 11 0 0 0 8) (Some 2) None None 0 None)"
    by (simp add: ex_glue_table_def)
  have e: "locked ex_glue_table (Some 1) =
      ex_glue_table\<lparr>heap := (heap ex_glue_table)
        (1 \<mapsto> (ex_node (ip4 11 0 0 0 8) (Some 2) None None 0 None)\<lparr>lock := 1\<rparr>)\<rparr>"
    by (simp add: locked_def node_upd_def ex_glue_table_def ex_node_def)
  show ?thesis unfolding e by (rule table_tree_payload [OF ex_glue_tree h]) simp_all
qed

theorem count_invariant_witness:
  "table_ok (locked ex_glue_table (Some 1)) \<and>
   held (heap (locked ex_glue_table (Some 1))) \<subseteq>
     reach (heap (locked ex_glue_table (Some 1))) (t_top (locked ex_glue_table (Some 1))) \<and>
   valid_op (Get (ip4 11 0 0 0 8) None) \<and>
   (\<exists>s'. run [Unlock 1, Get (ip4 11 0 0 0 8) None] (locked ex_glue_table (Some 1)) =
            Some (Inr s') \<and>
      t_count s' = of_nat (card (reach (heap s') (t_top s'))) \<and> table_ok s')"
proof -
  let ?s = "locked ex_glue_table (Some 1)"
  let ?ops = "[Unlock 1, Get (ip4 11 0 0 0 8) None]"
  have ok: "table_ok ?s" using ex_glue_locked_tree by (auto simp: table_ok_def)
  have "held (heap ?s) \<subseteq> {0, 1, 2}"
    by (auto simp: held_def locked_def node_upd_def ex_glue_table_def split: if_splits)
  then have h: "held (heap ?s) \<subseteq> reach (heap ?s) (t_top ?s)"
    using table_tree_reach [OF ex_glue_locked_tree] by auto
  have v: "\<forall>x\<in>set ?ops. valid_op x" by (simp add: valid_prefix_def ip4_def)
  have a: "1 \<in> set_tree (Node (Node Leaf 0 Leaf) 2 (Node Leaf (1::nat) Leaf))" by simp
  from delete_tree [OF ex_glue_tree a] obtain r where
    r: "bgp_node_delete ex_glue_table 1 = Some r" and
    k: "case r of
        Inl e \<Rightarrow> e = AssertFailed \<and>
           (\<exists>y\<in>set_tree (Node (Node Leaf 0 Leaf) 2 (Node Leaf 1 Leaf)).
              \<exists>m. heap ex_glue_table y = Some m \<and>
              (lock m \<noteq> 0 \<and> y = 1 \<or> lock m = 0 \<and> (info m \<noteq> None \<or> on_wq m)))
      | Inr s' \<Rightarrow>
          (\<exists>T'. table_tree s' T' \<and>
             set_tree T' \<subseteq> set_tree (Node (Node Leaf 0 Leaf) 2 (Node Leaf 1 Leaf)) \<and>
             (\<forall>y\<in>set_tree (Node (Node Leaf 0 Leaf) 2 (Node Leaf 1 Leaf)) - set_tree T'.
                \<exists>m. heap ex_glue_table y = Some m \<and> lock m = 0)) \<and>
          (\<forall>y. rel_option same_payload (heap ex_glue_table y) (heap s' y)) \<and>
          qdebug s' = qdebug ex_glue_table \<and> t_mpls_vpn s' = t_mpls_vpn ex_glue_table"
    by blast
  have "\<not> (\<exists>y\<in>set_tree (Node (Node Leaf 0 Leaf) 2 (Node Leaf 1 Leaf)).
              \<exists>m. heap ex_glue_table y = Some m \<and>
              (lock m \<noteq> 0 \<and> y = 1 \<or> lock m = 0 \<and> (info m \<noteq> None \<or> on_wq m)))"
    by (simp add: ex_glue_table_def ex_node_def)
  with k obtain s1 T1 where s1: "r = Inr s1" "table_tree s1 T1" "qdebug s1 = qdebug ex_glue_table"
    by (cases r) auto
  have q1: "\<not> qdebug s1" using s1(3) by (simp add: ex_glue_table_def)
  have ok1: "table_ok s1" using s1(2) by (auto simp: table_ok_def)
  have "prefixlen (ip4 11 0 0 0 8) \<le> 128" by (simp add: ip4_def)
  from bgp_node_get_returns [OF ok1 this, of None] q1 obtain s2 ret where
    g: "bgp_node_get s1 (ip4 11 0 0 0 8) None = Some (Inr (s2, ret))" by auto
  have run: "run ?ops ?s = Some (Inr s2)"
    by (simp only: run.simps ex_glue_unlock r s1(1) g option.case sum.case prod.case)
  from count_invariant [OF ok h v run] have
    "t_count s2 = of_nat (card (reach (heap s2) (t_top s2))) \<and> table_ok s2" by simp
  with run have "\<exists>s'. run ?ops ?s = Some (Inr s') \<and>
      t_count s' = of_nat (card (reach (heap s') (t_top s'))) \<and> table_ok s'" by blast
  with ok h v show ?thesis by simp
qed

section \<open>The bulk free\<close>

lemma wipe_leaf: "l_left n = None \<Longrightarrow> l_right n = None \<Longrightarrow> n\<lparr>lock := 0\<rparr> = wipe n"
  by (cases n) (simp add: wipe_def)

lemma wipe_left [simp]: "wipe (n\<lparr>l_left := v\<rparr>) = wipe n"
  by (cases n) (simp add: wipe_def)

lemma wipe_right [simp]: "wipe (n\<lparr>l_right := v\<rparr>) = wipe n"
  by (cases n) (simp add: wipe_def)

lemma wipe_fields [simp]:
  "lock (wipe n) = 0" "l_left (wipe n) = None" "l_right (wipe n) = None"
  "parent (wipe n) = parent n" "info (wipe n) = info n" "pfx (wipe n) = pfx n"
  "prn (wipe n) = prn n" "on_wq (wipe n) = on_wq n" "adj_ins (wipe n) = adj_ins n"
  "adj_outs (wipe n) = adj_outs n"
  by (simp_all add: wipe_def)

lemma freed_fields [simp]:
  "qdebug (freed s t) = qdebug s" "t_top (freed s t) = t_top s" "t_owner (freed s t) = t_owner s"
  "t_lock (freed s t) = t_lock s" "peer_lock (freed s t) = peer_lock s"
  "t_freed (freed s t) = t_freed s" "rn_next (freed s t) = rn_next s"
  "t_mpls_vpn (freed s t) = t_mpls_vpn s"
  "t_count (freed s t) = t_count s - of_nat (size t)"
  "rn_frees (freed s t) = rev (postorder t) @ rn_frees s"
  "heap (freed s t) y = (if y \<in> set_tree t then map_option wipe (heap s y) else heap s y)"
  by (simp_all add: freed_def)

lemma state_eqI:
  "heap s = heap s' \<Longrightarrow> t_top s = t_top s' \<Longrightarrow> t_count s = t_count s' \<Longrightarrow>
   t_lock s = t_lock s' \<Longrightarrow> t_owner s = t_owner s' \<Longrightarrow> t_mpls_vpn s = t_mpls_vpn s' \<Longrightarrow>
   t_freed s = t_freed s' \<Longrightarrow> peer_lock s = peer_lock s' \<Longrightarrow> rn_frees s = rn_frees s' \<Longrightarrow>
   rn_next s = rn_next s' \<Longrightarrow> qdebug s = qdebug s' \<Longrightarrow> (s :: bgp_state) = s'"
  by (cases s, cases s') simp

lemma freed_leaf:
  assumes "heap s a = Some n" "l_left n = None" "l_right n = None"
  shows "bgp_node_free a (node_upd (\<lambda>x. x\<lparr>lock := 0\<rparr>) a (s\<lparr>t_count := t_count s - 1\<rparr>)) =
         freed s (Node Leaf a Leaf)"
  using assms
  by (intro state_eqI) (auto simp: bgp_node_free_def node_upd_def fun_eq_iff wipe_leaf)

lemma freed_left:
  assumes "heap s a = Some n" "a \<notin> set_tree l" "set_tree l \<inter> set_tree r = {}"
  shows "freed ((freed s l)\<lparr>heap := (heap (freed s l))(a \<mapsto> n\<lparr>l_left := None\<rparr>)\<rparr>) (Node Leaf a r) =
         freed s (Node l a r)"
  using assms by (intro state_eqI) (auto simp: fun_eq_iff)

lemma freed_right:
  assumes "heap s a = Some n" "a \<notin> set_tree r"
  shows "freed ((freed s r)\<lparr>heap := (heap (freed s r))(a \<mapsto> n\<lparr>l_right := None\<rparr>)\<rparr>) (Node Leaf a Leaf) =
         freed s (Node Leaf a r)"
  using assms by (intro state_eqI) (auto simp: fun_eq_iff)


lemma unclean_Un: "unclean h (A \<union> B) = (unclean h A \<or> unclean h B)"
  unfolding unclean_def by blast

lemma unclean_cong:
  assumes "\<And>y. y \<in> N \<Longrightarrow> rel_option same_payload (h y) (h' y)"
  shows "unclean h' N = unclean h N"
proof -
  have "\<And>y. y \<in> N \<Longrightarrow>
      (\<exists>n. h' y = Some n \<and> \<not> (info n = None \<and> adj_outs n = None \<and> adj_ins n = None \<and> \<not> on_wq n)) =
      (\<exists>n. h y = Some n \<and> \<not> (info n = None \<and> adj_outs n = None \<and> adj_ins n = None \<and> \<not> on_wq n))"
  proof -
    fix y assume "y \<in> N"
    from assms [OF this] show "(\<exists>n. h' y = Some n \<and>
        \<not> (info n = None \<and> adj_outs n = None \<and> adj_ins n = None \<and> \<not> on_wq n)) =
      (\<exists>n. h y = Some n \<and> \<not> (info n = None \<and> adj_outs n = None \<and> adj_ins n = None \<and> \<not> on_wq n))"
      by (cases "h y"; cases "h' y") (auto dest: same_payload_fields)
  qed
  then show ?thesis unfolding unclean_def by blast
qed

lemma same_payload_left [simp]: "same_payload n (n\<lparr>l_left := v\<rparr>)"
  by (simp add: same_payload_def)

lemma same_payload_right [simp]: "same_payload n (n\<lparr>l_right := v\<rparr>)"
  by (simp add: same_payload_def)

lemma free_loop_tree:
  "heap_tree (heap s) par (Some a) t \<Longrightarrow> distinct (preorder t) \<Longrightarrow>
   free_loop s (Some a) =
     (if qdebug s \<and> unclean (heap s) (set_tree t) then Some (Inl AssertFailed)
      else (case par of
              None \<Rightarrow> Some (Inr (freed s t))
            | Some pa \<Rightarrow>
                if heap (freed s t) pa = None then Some (Inl BadPointer)
                else free_loop
                       (node_upd (\<lambda>x. if l_left x = Some a then x\<lparr>l_left := None\<rparr>
                                      else x\<lparr>l_right := None\<rparr>) pa (freed s t))
                       (Some pa)))"
proof (induction "size t" arbitrary: s par a t rule: less_induct)
  case less
  note ht = less.prems(1) and d = less.prems(2)
  from ht obtain l r where t: "t = Node l a r" by (cases t) auto
  from heap_tree_NodeD [OF ht [unfolded t]] obtain n where n: "heap s a = Some n"
    "parent n = par" and hl: "heap_tree (heap s) (Some a) (l_left n) l"
    and hr: "heap_tree (heap s) (Some a) (l_right n) r"
    and rl: "l_left n = root_of l" and rr: "l_right n = root_of r" by blast
  note dd = d [unfolded t distinct_preorder_Node]
  show ?case
  proof (cases l)
    case (Node l1 c l2)
    then have ll: "l_left n = Some c" using rl by simp
    have step: "free_loop s (Some a) = free_loop s (Some c)"
      using n ll by (subst free_loop.simps) simp
    have sz: "size l < size t" by (simp add: t)
    from hl ll have hc: "heap_tree (heap s) (Some a) (Some c) l" by simp
    have al: "heap (freed s l) a = Some n" using dd n by simp
    define s1 where "s1 = (freed s l)\<lparr>heap := (heap (freed s l))(a \<mapsto> n\<lparr>l_left := None\<rparr>)\<rparr>"
    have u1: "node_upd (\<lambda>x. if l_left x = Some c then x\<lparr>l_left := None\<rparr>
                                      else x\<lparr>l_right := None\<rparr>) a (freed s l) = s1"
      using al ll by (simp add: node_upd_def s1_def)
    from less.hyps [OF sz hc] dd al u1 have 1: "free_loop s (Some c) =
        (if qdebug s \<and> unclean (heap s) (set_tree l) then Some (Inl AssertFailed)
         else free_loop s1 (Some a))" by simp
    have h1: "heap_tree (heap s1) par (Some a) (Node Leaf a r)"
    proof -
      have "heap_tree (heap s1) (Some a) (l_right n) r = heap_tree (heap s) (Some a) (l_right n) r"
        by (rule heap_tree_frame) (use dd in \<open>auto simp: s1_def\<close>)
      with hr n show ?thesis by (simp add: s1_def)
    qed
    have d1: "distinct (preorder (Node Leaf a r))" using dd by (simp add: distinct_preorder_Node)
    have sz1: "size (Node Leaf a r) < size t" by (simp add: t Node)
    have f1: "freed s1 (Node Leaf a r) = freed s t"
      unfolding s1_def t by (rule freed_left [OF n(1)]) (use dd in auto)
    have c1: "unclean (heap s1) (set_tree (Node Leaf a r)) = unclean (heap s) (set_tree (Node Leaf a r))"
    proof (rule unclean_cong)
      fix y assume "y \<in> set_tree (Node Leaf a r)"
      with dd n show "rel_option same_payload (heap s y) (heap s1 y)"
        by (auto simp: s1_def option.rel_refl)
    qed
    have q1: "qdebug s1 = qdebug s" by (simp add: s1_def)
    have un: "unclean (heap s) (set_tree t) =
         (unclean (heap s) (set_tree l) \<or> unclean (heap s) (set_tree (Node Leaf a r)))"
      unfolding unclean_Un [symmetric] by (rule arg_cong [of _ _ "unclean (heap s)"]) (auto simp: t)
    from less.hyps [OF sz1 h1 d1] have 2: "free_loop s1 (Some a) =
       (if qdebug s \<and> unclean (heap s) (set_tree (Node Leaf a r)) then Some (Inl AssertFailed)
        else (case par of
              None \<Rightarrow> Some (Inr (freed s t))
            | Some pa \<Rightarrow>
                if heap (freed s t) pa = None then Some (Inl BadPointer)
                else free_loop
                       (node_upd (\<lambda>x. if l_left x = Some a then x\<lparr>l_left := None\<rparr>
                                      else x\<lparr>l_right := None\<rparr>) pa (freed s t))
                       (Some pa)))"
      unfolding f1 c1 q1 .
    show ?thesis unfolding step 1 2 un by (simp only: if_P if_not_P split: if_splits) blast
  next
    case Leaf
    then have ll: "l_left n = None" using rl by simp
    show ?thesis
    proof (cases r)
      case (Node r1 c r2)
      then have lr: "l_right n = Some c" using rr by simp
      have step: "free_loop s (Some a) = free_loop s (Some c)"
        using n ll lr by (subst free_loop.simps) simp
      have sz: "size r < size t" by (simp add: t)
      from hr lr have hc: "heap_tree (heap s) (Some a) (Some c) r" by simp
      have al: "heap (freed s r) a = Some n" using dd n by simp
      define s1 where "s1 = (freed s r)\<lparr>heap := (heap (freed s r))(a \<mapsto> n\<lparr>l_right := None\<rparr>)\<rparr>"
      have u1: "node_upd (\<lambda>x. if l_left x = Some c then x\<lparr>l_left := None\<rparr>
                                      else x\<lparr>l_right := None\<rparr>) a (freed s r) = s1"
        using al ll by (simp add: node_upd_def s1_def)
      from less.hyps [OF sz hc] dd al u1 have 1: "free_loop s (Some c) =
        (if qdebug s \<and> unclean (heap s) (set_tree r) then Some (Inl AssertFailed)
         else free_loop s1 (Some a))" by simp
      have h1: "heap_tree (heap s1) par (Some a) (Node Leaf a Leaf)"
        using n ll by (simp add: s1_def)
      have sz1: "size (Node Leaf a Leaf) < size t" by (simp add: t Node)
      have f1: "freed s1 (Node Leaf a Leaf) = freed s t"
        unfolding s1_def t Leaf by (rule freed_right [OF n(1)]) (use dd in auto)
      have c1: "unclean (heap s1) (set_tree (Node Leaf a Leaf)) =
                unclean (heap s) (set_tree (Node Leaf a Leaf))"
      proof (rule unclean_cong)
        fix y assume "y \<in> set_tree (Node Leaf a Leaf)"
        with dd n show "rel_option same_payload (heap s y) (heap s1 y)"
          by (auto simp: s1_def option.rel_refl)
      qed
      have q1: "qdebug s1 = qdebug s" by (simp add: s1_def)
      have un: "unclean (heap s) (set_tree t) =
         (unclean (heap s) (set_tree r) \<or> unclean (heap s) (set_tree (Node Leaf a Leaf)))"
        unfolding unclean_Un [symmetric]
        by (rule arg_cong [of _ _ "unclean (heap s)"]) (auto simp: t Leaf)
      from less.hyps [OF sz1 h1] have 2: "free_loop s1 (Some a) =
       (if qdebug s \<and> unclean (heap s) (set_tree (Node Leaf a Leaf)) then Some (Inl AssertFailed)
        else (case par of
              None \<Rightarrow> Some (Inr (freed s t))
            | Some pa \<Rightarrow>
                if heap (freed s t) pa = None then Some (Inl BadPointer)
                else free_loop
                       (node_upd (\<lambda>x. if l_left x = Some a then x\<lparr>l_left := None\<rparr>
                                      else x\<lparr>l_right := None\<rparr>) pa (freed s t))
                       (Some pa)))"
        unfolding f1 c1 q1 by simp
      show ?thesis unfolding step 1 2 un by (simp only: if_P if_not_P split: if_splits) blast
    next
      case R: Leaf
      then have lr: "l_right n = None" using rr by simp
      have t': "t = Node Leaf a Leaf" by (simp add: t Leaf R)
      have un: "unclean (heap s) (set_tree t) =
          (\<not> (info n = None \<and> adj_outs n = None \<and> adj_ins n = None \<and> \<not> on_wq n))"
        using n by (simp add: unclean_def t')
      note fl = freed_leaf [OF n(1) ll lr]
      have fh: "\<And>pa. heap (bgp_node_free a
            (node_upd (\<lambda>x. x\<lparr>lock := 0\<rparr>) a (s\<lparr>t_count := t_count s - 1\<rparr>))) pa =
          heap (freed s t) pa"
        unfolding fl t' ..
      show ?thesis
        unfolding un
        apply (subst free_loop.simps)
        apply (simp add: n ll lr Let_def fh split: option.splits)
        apply (auto simp: fl t')
        done
    qed
  qed
qed


lemma distinct_postorder: "distinct (preorder t) \<Longrightarrow> distinct (postorder t)"
proof -
  assume "distinct (preorder t)"
  then have "card (set_tree t) = size t" using distinct_card [of "preorder t"] by simp
  then have "card (set (postorder t)) = length (postorder t)" by simp
  then show ?thesis by (rule card_distinct)
qed

lemma bgp_table_free_tree:
  assumes T: "table_tree s T"
  shows "bgp_table_free s =
     (if qdebug s \<and> unclean (heap s) (set_tree T) then Some (Inl AssertFailed)
      else Some (Inr ((case t_owner s of
                         Some peer \<Rightarrow> (bgp_peer_unlock peer (freed s T))\<lparr>t_owner := None\<rparr>
                       | None \<Rightarrow> freed s T)\<lparr>t_lock := - 54321, t_freed := True\<rparr>)))"
proof -
  from T have ht: "heap_tree (heap s) None (t_top s) T" and d: "distinct (preorder T)"
    and c: "t_count s = of_nat (size T)" by (simp_all add: table_tree_def)
  show ?thesis
  proof (cases T)
    case Leaf
    with ht have "t_top s = None" by simp
    then have fl: "free_loop s (t_top s) = Some (Inr s)" by (subst free_loop.simps) simp
    have fT: "freed s T = s" by (intro state_eqI) (simp_all add: Leaf fun_eq_iff)
    have "\<not> unclean (heap s) (set_tree T)" by (simp add: Leaf unclean_def)
    moreover have "t_count s = 0" using c by (simp add: Leaf)
    ultimately show ?thesis unfolding fT by (simp add: bgp_table_free_def fl)
  next
    case (Node l a r)
    with ht have top: "t_top s = Some a" by simp
    from free_loop_tree [OF ht [unfolded top] d] have
      "free_loop s (t_top s) =
        (if qdebug s \<and> unclean (heap s) (set_tree T) then Some (Inl AssertFailed)
         else Some (Inr (freed s T)))" by (simp add: top)
    then show ?thesis using c by (simp add: bgp_table_free_def)
  qed
qed

text \<open>
  C8.  \<^verbatim>\<open>bgp_table_unlock\<close> on a well-formed table with a positive lock.  Above one lock it
  only gives up the lock.  At the last lock \<^verbatim>\<open>bgp_table_free\<close> runs: in a debug build with
  a node that still has \<^verbatim>\<open>info\<close>, an adjacency or a place on the work queue the
  \<^verbatim>\<open>qassert\<close> stops it; otherwise it returns, whatever the locks of the nodes are, with
  every node of the trie on the free list and its lock zeroed, nothing else in the heap
  touched, \<^verbatim>\<open>count\<close> at zero, the owner (if set) unlocked once and cleared, and the table
  record released.
\<close>

theorem bgp_table_unlock_bulk_free:
  assumes ok: "table_ok s" and pos: "0 < t_lock s"
  shows
   "(t_lock s \<noteq> 1 \<longrightarrow> bgp_table_unlock s = Some (Inr (s\<lparr>t_lock := t_lock s - 1\<rparr>))) \<and>
    (t_lock s = 1 \<and> qdebug s \<and> unclean (heap s) (reach (heap s) (t_top s)) \<longrightarrow>
       bgp_table_unlock s = Some (Inl AssertFailed)) \<and>
    (t_lock s = 1 \<and> \<not> (qdebug s \<and> unclean (heap s) (reach (heap s) (t_top s))) \<longrightarrow>
       (\<exists>s'. bgp_table_unlock s = Some (Inr s') \<and> t_count s' = 0 \<and> t_freed s' \<and>
          t_owner s' = None \<and>
          set (rn_frees s') = set (rn_frees s) \<union> reach (heap s) (t_top s) \<and>
          distinct (rn_frees s') \<and>
          (\<forall>a\<in>reach (heap s) (t_top s). \<exists>n. heap s a = Some n \<and> heap s' a = Some (wipe n)) \<and>
          (\<forall>a. a \<notin> reach (heap s) (t_top s) \<longrightarrow> heap s' a = heap s a) \<and>
          peer_lock s' =
            (case t_owner s of
               None \<Rightarrow> peer_lock s
             | Some p \<Rightarrow> (peer_lock s)(p := peer_lock s p - 1))))"
proof -
  from ok obtain T where T: "table_tree s T" by (auto simp: table_ok_def)
  note R = table_tree_reach [OF T]
  define s0 where "s0 = s\<lparr>t_lock := t_lock s - 1\<rparr>"
  have T0: "table_tree s0 T" using T by (simp add: s0_def table_tree_def pool_ok_def)
  have f0: "heap s0 = heap s" "qdebug s0 = qdebug s" "t_owner s0 = t_owner s"
    "rn_frees s0 = rn_frees s" "peer_lock s0 = peer_lock s" "t_count s0 = t_count s"
    by (simp_all add: s0_def)
  have u: "bgp_table_unlock s = (if t_lock s = 1 then bgp_table_free s0 else Some (Inr s0))"
    using pos by (auto simp: bgp_table_unlock_def Let_def s0_def)
  note fr = bgp_table_free_tree [OF T0, unfolded f0]
  have 1: "t_lock s \<noteq> 1 \<longrightarrow> bgp_table_unlock s = Some (Inr (s\<lparr>t_lock := t_lock s - 1\<rparr>))"
    using u by (simp add: s0_def)
  have 2: "t_lock s = 1 \<and> qdebug s \<and> unclean (heap s) (reach (heap s) (t_top s)) \<longrightarrow>
       bgp_table_unlock s = Some (Inl AssertFailed)"
    using u fr by (simp add: R)
  have 3: "t_lock s = 1 \<and> \<not> (qdebug s \<and> unclean (heap s) (reach (heap s) (t_top s))) \<longrightarrow>
       (\<exists>s'. bgp_table_unlock s = Some (Inr s') \<and> t_count s' = 0 \<and> t_freed s' \<and>
          t_owner s' = None \<and>
          set (rn_frees s') = set (rn_frees s) \<union> reach (heap s) (t_top s) \<and>
          distinct (rn_frees s') \<and>
          (\<forall>a\<in>reach (heap s) (t_top s). \<exists>n. heap s a = Some n \<and> heap s' a = Some (wipe n)) \<and>
          (\<forall>a. a \<notin> reach (heap s) (t_top s) \<longrightarrow> heap s' a = heap s a) \<and>
          peer_lock s' =
            (case t_owner s of
               None \<Rightarrow> peer_lock s
             | Some p \<Rightarrow> (peer_lock s)(p := peer_lock s p - 1)))"
  proof
    assume a: "t_lock s = 1 \<and> \<not> (qdebug s \<and> unclean (heap s) (reach (heap s) (t_top s)))"
    define s' where "s' = (case t_owner s of
                         Some peer \<Rightarrow> (bgp_peer_unlock peer (freed s0 T))\<lparr>t_owner := None\<rparr>
                       | None \<Rightarrow> freed s0 T)\<lparr>t_lock := - 54321, t_freed := True\<rparr>"
    from a u fr have r: "bgp_table_unlock s = Some (Inr s')" by (auto simp: R s'_def)
    from T have ht: "heap_tree (heap s) None (t_top s) T" and d: "distinct (preorder T)"
      and c: "t_count s = of_nat (size T)" and p: "pool_ok s (set_tree T)"
      by (simp_all add: table_tree_def)
    have fs: "heap s' = heap (freed s0 T)" "rn_frees s' = rn_frees (freed s0 T)"
      "t_count s' = t_count (freed s0 T)" "t_freed s'" "t_owner s' = None"
      "peer_lock s' = (case t_owner s of None \<Rightarrow> peer_lock s
               | Some p \<Rightarrow> (peer_lock s)(p := peer_lock s p - 1))"
      by (simp_all add: s'_def bgp_peer_unlock_def f0 split: option.splits)
    have k: "t_count s' = 0" by (simp add: fs f0 c)
    have fl: "set (rn_frees s') = set (rn_frees s) \<union> reach (heap s) (t_top s)"
      by (auto simp: fs f0 R)
    have df: "distinct (rn_frees s')"
      using p distinct_postorder [OF d] by (auto simp: fs f0 pool_ok_def)
    have w: "\<forall>a\<in>reach (heap s) (t_top s). \<exists>n. heap s a = Some n \<and> heap s' a = Some (wipe n)"
      unfolding R
    proof
      fix a assume "a \<in> set_tree T"
      with heap_tree_valid [OF ht this] show "\<exists>n. heap s a = Some n \<and> heap s' a = Some (wipe n)"
        by (auto simp: fs f0)
    qed
    have o: "\<forall>a. a \<notin> reach (heap s) (t_top s) \<longrightarrow> heap s' a = heap s a"
      by (simp add: R fs f0)
    from r k fs(4,5) fl df w o fs(6) show "\<exists>s'. bgp_table_unlock s = Some (Inr s') \<and>
          t_count s' = 0 \<and> t_freed s' \<and> t_owner s' = None \<and>
          set (rn_frees s') = set (rn_frees s) \<union> reach (heap s) (t_top s) \<and>
          distinct (rn_frees s') \<and>
          (\<forall>a\<in>reach (heap s) (t_top s). \<exists>n. heap s a = Some n \<and> heap s' a = Some (wipe n)) \<and>
          (\<forall>a. a \<notin> reach (heap s) (t_top s) \<longrightarrow> heap s' a = heap s a) \<and>
          peer_lock s' =
            (case t_owner s of
               None \<Rightarrow> peer_lock s
             | Some p \<Rightarrow> (peer_lock s)(p := peer_lock s p - 1))"
      by (intro exI [of _ s']) simp
  qed
  from 1 2 3 show ?thesis by blast
qed


theorem bgp_table_unlock_bulk_free_witness:
  "table_ok (ex_glue_table\<lparr>t_owner := Some 7\<rparr>) \<and> t_lock (ex_glue_table\<lparr>t_owner := Some 7\<rparr>) = 1 \<and>
   \<not> qdebug (ex_glue_table\<lparr>t_owner := Some 7\<rparr>) \<and>
   map_option lock (heap ex_glue_table 0) = Some 1 \<and>
   (\<exists>s'. bgp_table_unlock (ex_glue_table\<lparr>t_owner := Some 7\<rparr>) = Some (Inr s') \<and>
      t_count s' = 0 \<and> t_freed s' \<and> t_owner s' = None \<and> set (rn_frees s') = {0, 1, 2} \<and>
      map_option lock (heap s' 0) = Some 0 \<and> peer_lock s' 7 = - 1) \<and>
   unclean (heap ex_glue_table) (reach (heap ex_glue_table) (t_top ex_glue_table)) \<and>
   bgp_table_unlock (ex_glue_table\<lparr>qdebug := True\<rparr>) = Some (Inl AssertFailed)"
proof -
  let ?s = "ex_glue_table\<lparr>t_owner := Some 7\<rparr>"
  let ?d = "ex_glue_table\<lparr>qdebug := True\<rparr>"
  let ?T = "Node (Node Leaf 0 Leaf) 2 (Node Leaf (1::nat) Leaf)"
  have Ts: "table_tree ?s ?T" using ex_glue_tree by (simp add: table_tree_def pool_ok_def)
  have Td: "table_tree ?d ?T" using ex_glue_tree by (simp add: table_tree_def pool_ok_def)
  have oks: "table_ok ?s" using Ts by (auto simp: table_ok_def)
  have okd: "table_ok ?d" using Td by (auto simp: table_ok_def)
  have ls: "0 < t_lock ?s" "t_lock ?s = 1" "\<not> qdebug ?s" "t_owner ?s = Some 7"
    "rn_frees ?s = []" "peer_lock ?s 7 = 0"
    by (simp_all add: ex_glue_table_def)
  have ld: "0 < t_lock ?d" "t_lock ?d = 1" "qdebug ?d" by (simp_all add: ex_glue_table_def)
  have Rs: "reach (heap ?s) (t_top ?s) = {0, 1, 2}" using table_tree_reach [OF Ts] by auto
  have Rd: "reach (heap ?d) (t_top ?d) = {0, 1, 2}" using table_tree_reach [OF Td] by auto
  have h0: "heap ?s 0 = Some (ex_node (ip4 10 0 0 0 8) (Some 2) None None 1 (Some 1))"
    by (simp add: ex_glue_table_def)
  have l0: "map_option lock (heap ex_glue_table 0) = Some 1"
    by (simp add: ex_glue_table_def ex_node_def)
  have un: "unclean (heap ex_glue_table) (reach (heap ex_glue_table) (t_top ex_glue_table))"
    unfolding ex_glue_reach unclean_def
    by (rule bexI [of _ 0]) (simp_all add: ex_glue_table_def ex_node_def)
  then have und: "unclean (heap ?d) (reach (heap ?d) (t_top ?d))" by simp
  from bgp_table_unlock_bulk_free [OF okd ld(1)] ld(2,3) und
  have d: "bgp_table_unlock ?d = Some (Inl AssertFailed)" by blast
  from bgp_table_unlock_bulk_free [OF oks ls(1)] ls(2,3)
  obtain s' where s': "bgp_table_unlock ?s = Some (Inr s')" "t_count s' = 0" "t_freed s'"
    "t_owner s' = None" "set (rn_frees s') = set (rn_frees ?s) \<union> reach (heap ?s) (t_top ?s)"
    "\<forall>a\<in>reach (heap ?s) (t_top ?s). \<exists>n. heap ?s a = Some n \<and> heap s' a = Some (wipe n)"
    "peer_lock s' = (case t_owner ?s of None \<Rightarrow> peer_lock ?s
             | Some p \<Rightarrow> (peer_lock ?s)(p := peer_lock ?s p - 1))"
    by blast
  have "0 \<in> reach (heap ?s) (t_top ?s)" unfolding Rs by simp
  with s'(6) h0 have w0: "map_option lock (heap s' 0) = Some 0" by auto
  have fr: "set (rn_frees s') = {0, 1, 2}" unfolding s'(5) Rs ls(5) by simp
  have pl: "peer_lock s' 7 = - 1" unfolding s'(7) ls(4) by (simp add: ex_glue_table_def)
  have "\<exists>s'. bgp_table_unlock ?s = Some (Inr s') \<and>
      t_count s' = 0 \<and> t_freed s' \<and> t_owner s' = None \<and> set (rn_frees s') = {0, 1, 2} \<and>
      map_option lock (heap s' 0) = Some 0 \<and> peer_lock s' 7 = - 1"
    using s'(1-4) fr w0 pl by (intro exI [of _ s']) simp
  with oks ls(2,3) l0 un d show ?thesis by blast
qed

section \<open>Iteration\<close>

lemma locked_heap:
  "heap s x = Some n \<Longrightarrow> locked s (Some x) = s\<lparr>heap := (heap s)(x \<mapsto> n\<lparr>lock := lock n + 1\<rparr>)\<rparr>"
  by (simp add: locked_def node_upd_def)

lemma hand_over_locked:
  assumes x: "heap s x = Some n" and y: "heap s y = Some m" and ne: "x \<noteq> y"
    and st: "0 \<le> lock n"
      "lock n = 0 \<longrightarrow> l_left n \<noteq> None \<and> l_right n \<noteq> None \<and> info n = None \<and> \<not> on_wq n"
  shows "hand_over (locked s (Some x)) y x = Some (Inr (locked s (Some y), Some y))"
proof -
  define s1 where "s1 = locked s (Some x)"
  define s2 where "s2 = s\<lparr>heap := (heap s)(x \<mapsto> n\<lparr>lock := lock n + 1\<rparr>, y \<mapsto> m\<lparr>lock := lock m + 1\<rparr>)\<rparr>"
  define s3 where "s3 = s\<lparr>heap := (heap s)(x \<mapsto> n, y \<mapsto> m\<lparr>lock := lock m + 1\<rparr>)\<rparr>"
  have 1: "bgp_lock_node s1 y = Inr s2"
    using x y ne by (simp add: s1_def locked_heap bgp_lock_node_def node_upd_def s2_def)
  have h2: "heap s2 x = Some (n\<lparr>lock := lock n + 1\<rparr>)" using ne by (simp add: s2_def)
  have u: "node_upd (\<lambda>x. x\<lparr>lock := lock x - 1\<rparr>) x s2 = s3"
    using ne by (simp add: node_upd_def s2_def s3_def fun_upd_twist)
  have e3: "s3 = locked s (Some y)"
    using x y ne by (simp add: locked_heap s3_def fun_upd_twist fun_upd_idem)
  have h3: "heap s3 x = Some n" using ne by (simp add: s3_def)
  have d: "lock n = 0 \<Longrightarrow> bgp_node_delete s3 x = Some (Inr s3)"
    using st(2) h3 by (subst bgp_node_delete.simps) simp
  have 2: "bgp_unlock_node s2 x = Some (Inr s3)"
    using h2 st(1) u d by (auto simp: bgp_unlock_node_def Let_def)
  show ?thesis unfolding s1_def [symmetric] e3 [symmetric]
    by (simp add: hand_over_def 1 2)
qed

lemma unlock_locked:
  assumes x: "heap s x = Some n"
    and st: "0 \<le> lock n"
      "lock n = 0 \<longrightarrow> l_left n \<noteq> None \<and> l_right n \<noteq> None \<and> info n = None \<and> \<not> on_wq n"
  shows "bgp_unlock_node (locked s (Some x)) x = Some (Inr s)"
proof -
  have u: "node_upd (\<lambda>x. x\<lparr>lock := lock x - 1\<rparr>) x (locked s (Some x)) = s"
    using x by (simp add: locked_heap node_upd_def fun_upd_idem)
  have h: "heap (locked s (Some x)) x = Some (n\<lparr>lock := lock n + 1\<rparr>)"
    using x by (simp add: locked_heap)
  have d: "lock n = 0 \<Longrightarrow> bgp_node_delete s x = Some (Inr s)"
    using st(2) x by (subst bgp_node_delete.simps) simp
  show ?thesis using h st(1) u d by (auto simp: bgp_unlock_node_def Let_def)
qed

text \<open>The upward loop reads the three links only.\<close>

lemma same_links_D:
  assumes "same_links h h'" "h y = Some n"
  shows "\<exists>n'. h' y = Some n' \<and> parent n' = parent n \<and> l_left n' = l_left n \<and> l_right n' = l_right n"
  using assms(1) [unfolded same_links_def, rule_format, of y] assms(2)
  by (auto split: option.splits)

lemma next_up_links_all:
  assumes "next_up h a = Some r"
  shows "\<forall>h'. same_links h h' \<longrightarrow> next_up h' a = Some r"
proof (rule next_up.raw_induct
    [where P = "\<lambda>h a r. \<forall>h'. same_links h h' \<longrightarrow> next_up h' a = Some r", OF _ assms],
    goal_cases)
  case (1 next_up' h a r)
  note run = 1(2)
  show ?case
  proof (intro allI impI)
  fix h' assume sl: "same_links h h'"
  show "next_up h' a = Some r"
  proof (cases "h a")
    case None
    with sl have "h' a = None" by (auto simp: same_links_def dest: spec [of _ a])
    with run None show ?thesis by (subst next_up.simps) simp
  next
    case (Some n)
    from same_links_D [OF sl Some] obtain n' where n': "h' a = Some n'" "parent n' = parent n"
      by blast
    show ?thesis
    proof (cases "parent n")
      case None
      with run Some n' show ?thesis by (subst next_up.simps) simp
    next
      case P: (Some pa)
      show ?thesis
      proof (cases "h pa")
        case None
        with sl have "h' pa = None" by (auto simp: same_links_def dest: spec [of _ pa])
        with run Some P None n' show ?thesis by (subst next_up.simps) simp
      next
        case PN: (Some pn)
        from same_links_D [OF sl PN] obtain pn' where pn': "h' pa = Some pn'"
          "l_left pn' = l_left pn" "l_right pn' = l_right pn" by blast
        show ?thesis
        proof (cases "l_left pn = Some a \<and> l_right pn \<noteq> None")
          case True
          with run Some P PN n' pn' show ?thesis by (subst next_up.simps) auto
        next
          case False
          with run Some P PN have "next_up' h pa = Some r" by auto
          from 1(1) [OF this] sl have "next_up h' pa = Some r" by blast
          with False Some P PN n' pn' show ?thesis by (subst next_up.simps) auto
        qed
      qed
    qed
  qed
  qed
qed

lemma next_up_links:
  "next_up h a = Some r \<Longrightarrow> same_links h h' \<Longrightarrow> next_up h' a = Some r"
  using next_up_links_all by blast

lemma same_links_locked: "same_links (heap s) (heap (locked s r))"
  by (auto simp: same_links_def locked_def node_upd_def split: option.splits)


lemma route_next_child:
  assumes x: "heap s x = Some n" and c: "l_left n = Some c \<or> l_left n = None \<and> l_right n = Some c"
    and m: "heap s c = Some m" and ne: "x \<noteq> c"
    and st: "0 \<le> lock n"
      "lock n = 0 \<longrightarrow> l_left n \<noteq> None \<and> l_right n \<noteq> None \<and> info n = None \<and> \<not> on_wq n"
  shows "bgp_route_next (locked s (Some x)) x = Some (Inr (locked s (Some c), Some c))"
proof -
  have h: "heap (locked s (Some x)) x = Some (n\<lparr>lock := lock n + 1\<rparr>)"
    using x by (simp add: locked_heap)
  note ho = hand_over_locked [OF x m ne st]
  from c show ?thesis
    by (auto simp: bgp_route_next_def h ho)
qed

lemma route_next_up:
  assumes x: "heap s x = Some n" and c: "l_left n = None" "l_right n = None"
    and up: "next_up (heap s) x = Some (Inr K)"
    and K: "\<forall>y. K = Some y \<longrightarrow> heap s y \<noteq> None \<and> y \<noteq> x"
    and st: "0 \<le> lock n"
      "lock n = 0 \<longrightarrow> l_left n \<noteq> None \<and> l_right n \<noteq> None \<and> info n = None \<and> \<not> on_wq n"
  shows "bgp_route_next (locked s (Some x)) x =
           Some (Inr (case K of None \<Rightarrow> (s, None) | Some y \<Rightarrow> (locked s (Some y), Some y)))"
proof -
  have h: "heap (locked s (Some x)) x = Some (n\<lparr>lock := lock n + 1\<rparr>)"
    using x by (simp add: locked_heap)
  have up': "next_up (heap (locked s (Some x))) x = Some (Inr K)"
    by (rule next_up_links [OF up same_links_locked])
  show ?thesis
  proof (cases K)
    case None
    with unlock_locked [OF x st] show ?thesis
      by (simp add: bgp_route_next_def h c up')
  next
    case (Some y)
    with K obtain m where "heap s y = Some m" "x \<noteq> y" by auto
    from hand_over_locked [OF x this st] Some show ?thesis
      by (simp add: bgp_route_next_def h c up')
  qed
qed

lemma next_up_child:
  assumes c: "heap s c = Some cn" "parent cn = Some x" and x: "heap s x = Some n"
  shows "next_up (heap s) c =
           (if l_left n = Some c \<and> l_right n \<noteq> None then Some (Inr (l_right n))
            else next_up (heap s) x)"
  using assms by (subst next_up.simps) simp

lemma walk_sub:
  "heap_tree (heap s) par (Some x) t \<Longrightarrow> distinct (preorder t) \<Longrightarrow>
   \<forall>y\<in>set_tree t. \<forall>n. heap s y = Some n \<longrightarrow> 0 \<le> lock n \<and>
      (lock n = 0 \<longrightarrow> l_left n \<noteq> None \<and> l_right n \<noteq> None \<and> info n = None \<and> \<not> on_wq n) \<Longrightarrow>
   next_up (heap s) x = Some (Inr K) \<Longrightarrow>
   \<forall>y. K = Some y \<longrightarrow> heap s y \<noteq> None \<and> y \<notin> set_tree t \<Longrightarrow>
   walk_from (locked s (Some x)) x seen =
     (case K of
        None \<Rightarrow> Some (Inr (s, seen @ tl (preorder t)))
      | Some y \<Rightarrow> walk_from (locked s (Some y)) y (seen @ tl (preorder t) @ [y]))"
proof (induction t arbitrary: par x seen K)
  case Leaf
  then show ?case by simp
next
  case (Node l a r)
  note ht = Node.prems(1) and d = Node.prems(2) [unfolded distinct_preorder_Node]
    and st = Node.prems(3) and up = Node.prems(4) and K = Node.prems(5)
  from heap_tree_NodeD [OF ht] obtain n where xa: "x = a" and n: "heap s a = Some n"
    and hl: "heap_tree (heap s) (Some a) (l_left n) l"
    and hr: "heap_tree (heap s) (Some a) (l_right n) r"
    and rl: "l_left n = root_of l" and rr: "l_right n = root_of r" by auto
  from st n have sta: "0 \<le> lock n"
      "lock n = 0 \<longrightarrow> l_left n \<noteq> None \<and> l_right n \<noteq> None \<and> info n = None \<and> \<not> on_wq n"
    by auto
  have stl: "\<forall>y\<in>set_tree l. \<forall>n. heap s y = Some n \<longrightarrow> 0 \<le> lock n \<and>
      (lock n = 0 \<longrightarrow> l_left n \<noteq> None \<and> l_right n \<noteq> None \<and> info n = None \<and> \<not> on_wq n)"
    using st by (meson UnI1 UnI2 insertI2 tree.set_intros)
  have str: "\<forall>y\<in>set_tree r. \<forall>n. heap s y = Some n \<longrightarrow> 0 \<le> lock n \<and>
      (lock n = 0 \<longrightarrow> l_left n \<noteq> None \<and> l_right n \<noteq> None \<and> info n = None \<and> \<not> on_wq n)"
    using st by (meson UnI1 UnI2 insertI2 tree.set_intros)
  have upa: "next_up (heap s) a = Some (Inr K)" using up xa by simp
  text \<open>the walk through the right subtree, when there is one\<close>
  have right: "walk_from (locked s (Some e)) e sn =
     (case K of
        None \<Rightarrow> Some (Inr (s, sn @ tl (preorder r)))
      | Some y \<Rightarrow> walk_from (locked s (Some y)) y (sn @ tl (preorder r) @ [y]))"
    if e: "root_of r = Some e" for e sn
  proof -
    from hr rr e have he: "heap_tree (heap s) (Some a) (Some e) r" by simp
    from heap_tree_root_in [OF he] have er: "e \<in> set_tree r" .
    from he obtain en where en: "heap s e = Some en" "parent en = Some a"
      by (cases r) (auto split: option.splits)
    have "l_left n \<noteq> Some e"
    proof
      assume "l_left n = Some e"
      with rl have "root_of l = Some e" by simp
      then have "e \<in> set_tree l" by (rule root_in_set)
      with er d show False by auto
    qed
    with next_up_child [OF en n] upa have upe: "next_up (heap s) e = Some (Inr K)" by simp
    have Ke: "\<forall>y. K = Some y \<longrightarrow> heap s y \<noteq> None \<and> y \<notin> set_tree r" using K by auto
    from Node.IH(2) [OF he _ str upe Ke] d show ?thesis by simp
  qed
  show ?case
  proof (cases "root_of l")
    case (Some c)
    with hl rl have hc: "heap_tree (heap s) (Some a) (Some c) l" by simp
    from heap_tree_root_in [OF hc] have cl: "c \<in> set_tree l" .
    from hc obtain cn where cn: "heap s c = Some cn" "parent cn = Some a"
      by (cases l) (auto split: option.splits)
    have ne: "a \<noteq> c" using cl d by auto
    from rl Some have ll: "l_left n = Some c \<or> l_left n = None \<and> l_right n = Some c" by simp
    have step: "walk_from (locked s (Some x)) x seen = walk_from (locked s (Some c)) c (seen @ [c])"
      unfolding xa
      by (subst walk_from.simps) (simp add: route_next_child [OF n ll cn(1) ne sta])
    have pl: "[c] @ tl (preorder l) = preorder l" using Some by (cases l) auto
    show ?thesis
    proof (cases "root_of r")
      case None
      then have rL: "r = Leaf" by (cases r) auto
      from None rr next_up_child [OF cn n] upa have upc: "next_up (heap s) c = Some (Inr K)"
        by simp
      have Kc: "\<forall>y. K = Some y \<longrightarrow> heap s y \<noteq> None \<and> y \<notin> set_tree l" using K by auto
      have p1: "(seen @ [c]) @ tl (preorder l) = seen @ preorder l"
        using pl by (metis append.assoc)
      have p2: "\<And>y. (seen @ [c]) @ tl (preorder l) @ [y] = seen @ preorder l @ [y]"
        using pl by (metis append.assoc)
      from Node.IH(1) [OF hc _ stl upc Kc, of "seen @ [c]"] d
      have 1: "walk_from (locked s (Some c)) c (seen @ [c]) =
        (case K of
           None \<Rightarrow> Some (Inr (s, (seen @ [c]) @ tl (preorder l)))
         | Some y \<Rightarrow> walk_from (locked s (Some y)) y ((seen @ [c]) @ tl (preorder l) @ [y]))"
        by simp
      show ?thesis unfolding step 1 p1 p2 by (cases K) (simp_all add: rL)
    next
      case R: (Some e)
      from hr rr R have he: "heap_tree (heap s) (Some a) (Some e) r" by simp
      from heap_tree_root_in [OF he] have er: "e \<in> set_tree r" .
      from heap_tree_valid [OF he er] have ev: "heap s e \<noteq> None" by auto
      from R rr rl Some next_up_child [OF cn n] have upc: "next_up (heap s) c = Some (Inr (Some e))"
        by simp
      have Kc: "\<forall>y. Some e = Some y \<longrightarrow> heap s y \<noteq> None \<and> y \<notin> set_tree l"
        using ev er d by auto
      from Node.IH(1) [OF hc _ stl upc Kc, of "seen @ [c]"] d
      have 1: "walk_from (locked s (Some c)) c (seen @ [c]) =
          walk_from (locked s (Some e)) e ((seen @ [c]) @ tl (preorder l) @ [e])" by simp
      have pr: "[e] @ tl (preorder r) = preorder r" using R by (cases r) auto
      have p1: "((seen @ [c]) @ tl (preorder l) @ [e]) @ tl (preorder r) =
                seen @ preorder l @ preorder r"
        using pl pr by (metis append.assoc)
      have p2: "\<And>y. ((seen @ [c]) @ tl (preorder l) @ [e]) @ tl (preorder r) @ [y] =
                seen @ preorder l @ preorder r @ [y]"
        using pl pr by (metis append.assoc)
      show ?thesis unfolding step 1 right [OF R] p1 p2 by (cases K) simp_all
    qed
  next
    case None
    then have lL: "l = Leaf" by (cases l) auto
    from None rl have ll: "l_left n = None" by simp
    show ?thesis
    proof (cases "root_of r")
      case R: None
      then have rL: "r = Leaf" by (cases r) auto
      from R rr have lr: "l_right n = None" by simp
      have Ka: "\<forall>y. K = Some y \<longrightarrow> heap s y \<noteq> None \<and> y \<noteq> a" using K by auto
      have "walk_from (locked s (Some a)) a seen =
          (case K of
             None \<Rightarrow> Some (Inr (s, seen))
           | Some y \<Rightarrow> walk_from (locked s (Some y)) y (seen @ [y]))"
        by (subst walk_from.simps)
          (simp add: route_next_up [OF n ll lr upa Ka sta] split: option.splits)
      then show ?thesis unfolding xa by (cases K) (simp_all add: lL rL)
    next
      case R: (Some e)
      from hr rr R have he: "heap_tree (heap s) (Some a) (Some e) r" by simp
      from heap_tree_root_in [OF he] have er: "e \<in> set_tree r" .
      from heap_tree_valid [OF he er] obtain en where en: "heap s e = Some en" by auto
      have ne: "a \<noteq> e" using er d by auto
      from rr R ll have c: "l_left n = Some e \<or> l_left n = None \<and> l_right n = Some e" by simp
      have step: "walk_from (locked s (Some x)) x seen = walk_from (locked s (Some e)) e (seen @ [e])"
        unfolding xa
        by (subst walk_from.simps) (simp add: route_next_child [OF n c en ne sta])
      have pr: "[e] @ tl (preorder r) = preorder r" using R by (cases r) auto
      have p1: "(seen @ [e]) @ tl (preorder r) = seen @ preorder r"
        using pr by (metis append.assoc)
      have p2: "\<And>y. (seen @ [e]) @ tl (preorder r) @ [y] = seen @ preorder r @ [y]"
        using pr by (metis append.assoc)
      show ?thesis unfolding step right [OF R] p1 p2 by (cases K) (simp_all add: lL)
    qed
  qed
qed


lemma stable_tree:
  "table_tree s T \<Longrightarrow>
   stable s = (\<forall>y\<in>set_tree T. \<forall>n. heap s y = Some n \<longrightarrow> settled n)"
  by (auto simp: stable_def table_tree_reach split: option.splits)

lemma walk_table_tree:
  assumes T: "table_tree s T" and st: "stable s"
    and dbg: "qdebug s \<longrightarrow> bgp_table_check s = Some (Inr ())"
  shows "walk_table s = Some (Inr (s, preorder T))"
proof (cases T)
  case Leaf
  with T have "t_top s = None" by (simp add: table_tree_def)
  with Leaf show ?thesis by (simp add: walk_table_def bgp_table_top_def)
next
  case (Node l a r)
  from T have ht: "heap_tree (heap s) None (t_top s) T" and d: "distinct (preorder T)"
    by (simp_all add: table_tree_def)
  from ht Node have top: "t_top s = Some a" by simp
  from heap_tree_NodeD [OF ht [unfolded Node]] obtain n where n: "heap s a = Some n"
    "parent n = None" by auto
  have lk: "bgp_lock_node s a = Inr (locked s (Some a))"
    using n by (simp add: bgp_lock_node_def locked_def)
  have tp: "bgp_table_top s = Some (Inr (locked s (Some a), Some a))"
    using dbg by (cases "qdebug s") (simp_all add: bgp_table_top_def top lk)
  have up: "next_up (heap s) a = Some (Inr None)"
    using n by (subst next_up.simps) simp
  have sn: "\<forall>y\<in>set_tree T. \<forall>n. heap s y = Some n \<longrightarrow> 0 \<le> lock n \<and>
      (lock n = 0 \<longrightarrow> l_left n \<noteq> None \<and> l_right n \<noteq> None \<and> info n = None \<and> \<not> on_wq n)"
    using st unfolding stable_tree [OF T] settled_def by blast
  from walk_sub [OF ht [unfolded top] d sn up, of "[a]"]
  have "walk_from (locked s (Some a)) a [a] = Some (Inr (s, [a] @ tl (preorder T)))" by simp
  moreover have "[a] @ tl (preorder T) = preorder T" by (simp add: Node)
  ultimately show ?thesis by (simp add: walk_table_def tp)
qed

lemma settled_link_update:
  "settled mn \<Longrightarrow> settled (link_update side (Some a) mn)"
  by (auto simp: settled_def)

lemma settled_parent [simp]: "settled (n\<lparr>parent := p\<rparr>) = settled n"
  by (simp add: settled_def)

lemma settled_new [simp]: "settled (zero_node\<lparr>pfx := q, parent := p, prn := r, lock := 1\<rparr>)"
  by (simp add: settled_def)


lemma get_insert_leaf_stable:
  assumes T: "table_tree s T" and sl: "slot (heap s) (t_top s) (set_tree T) q mo None"
    and st: "\<forall>y\<in>set_tree T. \<forall>n. heap s y = Some n \<longrightarrow> settled n"
    and run: "get_insert s q prn0 None mo = Inr (s', ret)"
  shows "\<exists>T'. table_tree s' T' \<and> (\<forall>y\<in>set_tree T'. \<forall>n. heap s' y = Some n \<longrightarrow> settled n)"
proof -
  from get_insert_leaf [OF T sl, of prn0] run obtain side where
    a: "ret \<notin> set_tree T"
      "heap s' ret = Some (zero_node\<lparr>pfx := q, parent := mo, prn := prn0, lock := 1\<rparr>)" and
    T': "table_tree s' (graft_at T mo side (Node Leaf ret Leaf))"
      "set_tree (graft_at T mo side (Node Leaf ret Leaf)) = insert ret (set_tree T)" and
    mo: "case mo of
           None \<Rightarrow> t_top s' = Some ret
         | Some m \<Rightarrow> t_top s' = t_top s \<and>
             (\<exists>mn. heap s m = Some mn \<and>
                heap s' m = Some (link_update (prefix_bit (u_prefix q) (prefixlen (pfx mn)))
                                   (Some ret) mn))" and
    fr: "\<forall>y\<in>set_tree T. Some y \<noteq> mo \<longrightarrow> heap s' y = heap s y"
    by auto
  have "\<forall>y\<in>set_tree (graft_at T mo side (Node Leaf ret Leaf)). \<forall>n. heap s' y = Some n \<longrightarrow> settled n"
    unfolding T'(2)
  proof (intro ballI allI impI)
    fix y n assume y: "y \<in> insert ret (set_tree T)" "heap s' y = Some n"
    show "settled n"
    proof (cases "y = ret")
      case True
      with y a have "n = zero_node\<lparr>pfx := q, parent := mo, prn := prn0, lock := 1\<rparr>" by simp
      then show ?thesis by (simp only: settled_new)
    next
      case False
      with y have yT: "y \<in> set_tree T" by simp
      show ?thesis
      proof (cases "Some y = mo")
        case True
        with mo obtain mn where "heap s y = Some mn"
          "heap s' y = Some (link_update (prefix_bit (u_prefix q) (prefixlen (pfx mn))) (Some ret) mn)"
          by (cases mo) auto
        with st yT y(2) show ?thesis by (auto intro: settled_link_update)
      next
        case N: False
        with fr yT y(2) st show ?thesis by auto
      qed
    qed
  qed
  with T'(1) show ?thesis by blast
qed

lemma settled_glue:
  assumes "link G sd = Some c" "lock G = 1 \<or> lock G = 0 \<and> link G (\<not> sd) = Some r"
    "info G = None" "\<not> on_wq G"
  shows "settled G"
  using assms by (cases sd) (auto simp: settled_def link_def)


lemma get_insert_glue_stable:
  assumes T: "table_tree s T" and sl: "slot (heap s) (t_top s) (set_tree T) q mo (Some c)"
    and vq: "prefixlen q \<le> 128"
    and st: "\<forall>y\<in>set_tree T. \<forall>n. heap s y = Some n \<longrightarrow> settled n"
    and run: "get_insert s q prn0 (Some c) mo = Inr (s1, r1)"
  shows "\<exists>T'. table_tree s1 T' \<and> (\<forall>y\<in>set_tree T'. \<forall>n. heap s1 y = Some n \<longrightarrow> settled n)"
proof -
  from get_insert_glue [OF T sl vq, of prn0] obtain s' ret g side cn G T' where
    all: "get_insert s q prn0 (Some c) mo = Inr (s', ret) \<and>
      g \<notin> set_tree T \<and> c \<in> set_tree T \<and> heap s c = Some cn \<and> \<not> prefix_match (pfx cn) q \<and>
      heap s' g = Some G \<and> pfx G = glue_prefix (pfx cn) q \<and> parent G = mo \<and>
      link G (glue_side cn q) = Some c \<and> info G = None \<and> \<not> on_wq G \<and>
      heap s' c = Some (cn\<lparr>parent := Some g\<rparr>) \<and>
      (case mo of
         None \<Rightarrow> t_top s' = Some g \<and> t_top s = Some c
       | Some m \<Rightarrow> t_top s' = t_top s \<and> m \<in> set_tree T \<and>
           (\<exists>mn. heap s m = Some mn \<and> side = prefix_bit (u_prefix q) (prefixlen (pfx mn)) \<and>
              link mn side = Some c \<and> heap s' m = Some (link_update side (Some g) mn))) \<and>
      (if prefixlen (glue_prefix (pfx cn) q) = prefixlen q
       then ret = g \<and> lock G = 1 \<and> prn G = prn0 \<and> link G (\<not> glue_side cn q) = None \<and>
            t_count s' = t_count s + 1 \<and> set_tree T' = insert g (set_tree T)
       else ret \<noteq> g \<and> ret \<notin> set_tree T \<and>
            heap s' ret = Some (zero_node\<lparr>pfx := q, parent := Some g, prn := prn0, lock := 1\<rparr>) \<and>
            link G (\<not> glue_side cn q) = Some ret \<and> lock G = 0 \<and> prn G = None \<and>
            t_count s' = t_count s + 2 \<and> set_tree T' = insert ret (insert g (set_tree T))) \<and>
      table_tree s' T' \<and> only_links s s' (set_tree T) \<and>
      qdebug s' = qdebug s \<and> t_mpls_vpn s' = t_mpls_vpn s \<and>
      (\<forall>y\<in>set_tree T. y \<noteq> c \<longrightarrow> Some y \<noteq> mo \<longrightarrow> heap s' y = heap s y)"
    by blast
  from all run have e: "s' = s1" "ret = r1" by simp_all
  from all have f: "g \<notin> set_tree T" "c \<in> set_tree T" "heap s c = Some cn" "heap s' g = Some G"
    "link G (glue_side cn q) = Some c" "info G = None" "\<not> on_wq G"
    "heap s' c = Some (cn\<lparr>parent := Some g\<rparr>)" "table_tree s' T'"
    and fr: "\<forall>y\<in>set_tree T. y \<noteq> c \<longrightarrow> Some y \<noteq> mo \<longrightarrow> heap s' y = heap s y"
    by simp_all
  from all have mo: "case mo of
         None \<Rightarrow> True
       | Some m \<Rightarrow> (\<exists>mn. heap s m = Some mn \<and> heap s' m = Some (link_update side (Some g) mn))"
    by (cases mo) auto
  from all have tail: "if prefixlen (glue_prefix (pfx cn) q) = prefixlen q
       then ret = g \<and> lock G = 1 \<and> set_tree T' = insert g (set_tree T)
       else heap s' ret = Some (zero_node\<lparr>pfx := q, parent := Some g, prn := prn0, lock := 1\<rparr>) \<and>
            link G (\<not> glue_side cn q) = Some ret \<and> lock G = 0 \<and>
            set_tree T' = insert ret (insert g (set_tree T))"
    by (simp split: if_splits)
  have sG: "settled G"
    by (rule settled_glue [OF f(5) _ f(6,7), of ret]) (use tail in \<open>auto split: if_splits\<close>)
  have old: "settled n" if y: "y \<in> set_tree T" "heap s' y = Some n" for y n
  proof (cases "y = c")
    case True
    with y f(3,8) st f(2) show ?thesis by auto
  next
    case False
    show ?thesis
    proof (cases "Some y = mo")
      case True
      with mo obtain mn where "heap s y = Some mn"
        "heap s' y = Some (link_update side (Some g) mn)" by (cases mo) auto
      with st y show ?thesis by (auto intro: settled_link_update)
    next
      case N: False
      with fr y False st show ?thesis by auto
    qed
  qed
  have "\<forall>y\<in>set_tree T'. \<forall>n. heap s' y = Some n \<longrightarrow> settled n"
  proof (intro ballI allI impI)
    fix y n assume y: "y \<in> set_tree T'" "heap s' y = Some n"
    from y(1) tail have "y = g \<or> y \<in> set_tree T \<or>
       (y = ret \<and> heap s' ret = Some (zero_node\<lparr>pfx := q, parent := Some g, prn := prn0, lock := 1\<rparr>))"
      by (auto split: if_splits)
    then show "settled n"
    proof (elim disjE)
      assume "y = g"
      with y f(4) sG show ?thesis by simp
    next
      assume "y \<in> set_tree T"
      from old [OF this y(2)] show ?thesis .
    next
      assume "y = ret \<and> heap s' ret = Some (zero_node\<lparr>pfx := q, parent := Some g, prn := prn0, lock := 1\<rparr>)"
      with y have "n = zero_node\<lparr>pfx := q, parent := Some g, prn := prn0, lock := 1\<rparr>" by simp
      then show ?thesis by (simp only: settled_new)
    qed
  qed
  with f(9) e show ?thesis by blast
qed

lemma bgp_node_get_stable:
  assumes T: "table_tree s T" and st: "stable s" and vq: "prefixlen q \<le> 128"
    and run: "bgp_node_get s q prn0 = Some (Inr (s', ret))"
  shows "\<exists>T'. table_tree s' T' \<and> stable s'"
proof -
  note sT = st [unfolded stable_tree [OF T]]
  from run have pre: "\<not> qdebug s \<or> prn0 = None \<or> t_mpls_vpn s"
    by (auto simp: bgp_node_get_def split: if_splits)
  from get_walk_table [OF T, of q] obtain w where
    w: "get_walk (heap s) q (t_top s) None = Some (Inr w)" by blast
  have "\<exists>T'. table_tree s' T' \<and> (\<forall>y\<in>set_tree T'. \<forall>n. heap s' y = Some n \<longrightarrow> settled n)"
  proof (cases w)
    case (Exact a)
    from bgp_node_get_exact [OF T pre w [unfolded Exact], of ] run obtain n where
      n: "heap s a = Some n" "s' = locked s (Some a)" "table_tree (locked s (Some a)) T"
      by (auto split: if_splits)
    have "\<forall>y\<in>set_tree T. \<forall>m. heap s' y = Some m \<longrightarrow> settled m"
    proof (intro ballI allI impI)
      fix y m assume y: "y \<in> set_tree T" "heap s' y = Some m"
      show "settled m"
      proof (cases "y = a")
        case True
        with y n have "m = n\<lparr>lock := lock n + 1\<rparr>" by (simp add: locked_heap)
        moreover from sT y(1) True n(1) have "settled n" by auto
        ultimately show ?thesis by (auto simp: settled_def)
      next
        case False
        with y n have "heap s y = Some m" by (simp add: locked_heap)
        with sT y(1) show ?thesis by auto
      qed
    qed
    with n show ?thesis by blast
  next
    case (Stop nd mo)
    from bgp_node_get_stop [OF T pre w [unfolded Stop]] run have
      gi: "get_insert s q prn0 nd mo = Inr (s', ret)" and
      sl: "slot (heap s) (t_top s) (set_tree T) q mo nd" by simp_all
    show ?thesis
    proof (cases nd)
      case None
      from get_insert_leaf_stable [OF T sl [unfolded None] sT gi [unfolded None]]
      show ?thesis .
    next
      case (Some c)
      from get_insert_glue_stable [OF T sl [unfolded Some] vq sT gi [unfolded Some]]
      show ?thesis .
    qed
  qed
  then obtain T' where T': "table_tree s' T'"
    "\<forall>y\<in>set_tree T'. \<forall>n. heap s' y = Some n \<longrightarrow> settled n" by blast
  from T'(2) have "stable s'" unfolding stable_tree [OF T'(1)] .
  with T'(1) show ?thesis by blast
qed

lemma inserts_stable:
  "table_tree s T \<Longrightarrow> stable s \<Longrightarrow> \<forall>(q, p)\<in>set qs. valid_prefix q \<Longrightarrow>
   run (inserts qs) s = Some (Inr s') \<Longrightarrow> \<exists>T'. table_tree s' T' \<and> stable s'"
proof (induction qs arbitrary: s T)
  case Nil
  then show ?case by (auto simp: inserts_def)
next
  case (Cons x qs)
  obtain q p where x: "x = (q, p)" by (cases x)
  from Cons.prems(4) obtain s1 r where 1: "bgp_node_get s q p = Some (Inr (s1, r))"
    "run (inserts qs) s1 = Some (Inr s')"
    by (auto simp: inserts_def x split: option.splits sum.splits)
  from Cons.prems(3) have v: "prefixlen q \<le> 128" by (simp add: x valid_prefix_def)
  from bgp_node_get_stable [OF Cons.prems(1,2) v 1(1)] obtain T1 where
    "table_tree s1 T1" "stable s1" by blast
  from Cons.IH [OF this _ 1(2)] Cons.prems(3) show ?case by simp
qed

lemma init_stable: "stable (bgp_table_init vpn dbg)"
  unfolding stable_tree [OF init_tree] by simp


lemma bgp_node_get_qdebug:
  assumes T: "table_tree s T" and vq: "prefixlen q \<le> 128"
    and run: "bgp_node_get s q prn0 = Some (Inr (s', ret))"
  shows "qdebug s' = qdebug s"
proof -
  from run have pre: "\<not> qdebug s \<or> prn0 = None \<or> t_mpls_vpn s"
    by (auto simp: bgp_node_get_def split: if_splits)
  from get_walk_table [OF T, of q] obtain w where
    w: "get_walk (heap s) q (t_top s) None = Some (Inr w)" by blast
  show ?thesis
  proof (cases w)
    case (Exact a)
    from bgp_node_get_exact [OF T pre w [unfolded Exact], of ] run obtain n where
      "heap s a = Some n" "s' = locked s (Some a)" by (auto split: if_splits)
    then show ?thesis by (simp add: locked_heap)
  next
    case (Stop nd mo)
    from bgp_node_get_stop [OF T pre w [unfolded Stop]] run have
      gi: "get_insert s q prn0 nd mo = Inr (s', ret)" and
      sl: "slot (heap s) (t_top s) (set_tree T) q mo nd" by simp_all
    show ?thesis
    proof (cases nd)
      case None
      from get_insert_leaf [OF T sl [unfolded None], of prn0] gi None show ?thesis by auto
    next
      case (Some c)
      have "\<exists>s1 r. get_insert s q prn0 (Some c) mo = Inr (s1, r) \<and> qdebug s1 = qdebug s"
        using get_insert_glue [OF T sl [unfolded Some] vq, of prn0] by blast
      with gi Some show ?thesis by auto
    qed
  qed
qed

text \<open>
  C7.  A table built from a new one by any sequence of \<^verbatim>\<open>bgp_node_get\<close> with valid
  prefixes is a trie of some shape \<open>T\<close>; the loop
  \<^verbatim>\<open>for (rn = bgp_table_top (t); rn; rn = bgp_route_next (rn))\<close> over it ends, has been
  handed the nodes of \<open>T\<close> in pre-order (a node, then its left subtree, then its right
  subtree), which is every node reachable from \<^verbatim>\<open>top\<close> exactly once, and leaves the table
  as it found it.  In a debug build \<^verbatim>\<open>bgp_table_top\<close> first runs \<^verbatim>\<open>bgp_table_check\<close>,
  which is taken to pass.
\<close>

theorem iteration_preorder:
  assumes v: "\<forall>(q, p)\<in>set qs. valid_prefix q"
    and built: "run (inserts qs) (bgp_table_init vpn dbg) = Some (Inr s)"
    and chk: "qdebug s \<longrightarrow> bgp_table_check s = Some (Inr ())"
  shows "\<exists>T. heap_tree (heap s) None (t_top s) T \<and>
           walk_table s = Some (Inr (s, preorder T)) \<and>
           distinct (preorder T) \<and> set (preorder T) = reach (heap s) (t_top s)"
proof -
  from inserts_stable [OF init_tree init_stable v built] obtain T where
    T: "table_tree s T" "stable s" by blast
  from T(1) have "heap_tree (heap s) None (t_top s) T" "distinct (preorder T)"
    by (simp_all add: table_tree_def)
  with walk_table_tree [OF T chk] table_tree_reach [OF T(1)] show ?thesis by auto
qed


theorem iteration_preorder_witness:
  "valid_prefix (ip4 10 0 0 0 8) \<and> valid_prefix (ip4 11 0 0 0 8) \<and>
   (\<exists>s T. run (inserts [(ip4 10 0 0 0 8, None), (ip4 11 0 0 0 8, None)])
             (bgp_table_init False False) = Some (Inr s) \<and>
      \<not> qdebug s \<and> heap_tree (heap s) None (t_top s) T \<and>
      walk_table s = Some (Inr (s, preorder T)) \<and>
      distinct (preorder T) \<and> set (preorder T) = reach (heap s) (t_top s))"
proof -
  let ?qs = "[(ip4 10 0 0 0 8, None :: addr option), (ip4 11 0 0 0 8, None)]"
  let ?s0 = "bgp_table_init False False"
  have v1: "valid_prefix (ip4 10 0 0 0 8)" and v2: "valid_prefix (ip4 11 0 0 0 8)"
    by (simp_all add: valid_prefix_def ip4_def)
  have l1: "prefixlen (ip4 10 0 0 0 8) \<le> 128" and l2: "prefixlen (ip4 11 0 0 0 8) \<le> 128"
    by (simp_all add: ip4_def)
  have ok0: "table_ok ?s0" using init_tree by (auto simp: table_ok_def)
  have q0: "\<not> qdebug ?s0" by (simp add: bgp_table_init_def)
  from bgp_node_get_returns [OF ok0 l1, of None] q0 obtain s1 r1 where
    g1: "bgp_node_get ?s0 (ip4 10 0 0 0 8) None = Some (Inr (s1, r1))" by auto
  from bgp_node_get_preserves [OF ok0 l1 g1] have ok1: "table_ok s1" .
  from bgp_node_get_qdebug [OF init_tree l1 g1] q0 have q1: "\<not> qdebug s1" by simp
  from bgp_node_get_returns [OF ok1 l2, of None] q1 obtain s2 r2 where
    g2: "bgp_node_get s1 (ip4 11 0 0 0 8) None = Some (Inr (s2, r2))" by auto
  from ok1 obtain T1 where T1: "table_tree s1 T1" by (auto simp: table_ok_def)
  from bgp_node_get_qdebug [OF T1 l2 g2] q1 have q2: "\<not> qdebug s2" by simp
  have run: "run (inserts ?qs) ?s0 = Some (Inr s2)"
    by (simp add: inserts_def g1 g2)
  have v: "\<forall>(q, p)\<in>set ?qs. valid_prefix q" using v1 v2 by simp
  have chk: "qdebug s2 \<longrightarrow> bgp_table_check s2 = Some (Inr ())" using q2 by simp
  from iteration_preorder [OF v run chk] obtain T where
    "heap_tree (heap s2) None (t_top s2) T" "walk_table s2 = Some (Inr (s2, preorder T))"
    "distinct (preorder T)" "set (preorder T) = reach (heap s2) (t_top s2)" by blast
  with run q2 have "\<exists>s T. run (inserts ?qs) ?s0 = Some (Inr s) \<and>
      \<not> qdebug s \<and> heap_tree (heap s) None (t_top s) T \<and>
      walk_table s = Some (Inr (s, preorder T)) \<and>
      distinct (preorder T) \<and> set (preorder T) = reach (heap s) (t_top s)" by blast
  with v1 v2 show ?thesis by blast
qed

end
